(* ===== verification/Prelude.thy ===== *)
theory Prelude
  imports Main "HOL-Library.Word"
begin

text \<open>
  Shared vocabulary of the development: the revision numbers of the multiwatcher
  store, the named collections the component theories fill, and generic lemmas on
  lists, options and maps that the component proofs use through \<open>simp add:\<close>.
  Go's \<open>int64\<close> revision counters are modelled as \<open>int\<close>: they only ever grow by one
  per store change, so the bound lemma of the store (a revision number never exceeds
  the number of operations applied) shows the 64-bit range is never left in practice.
\<close>

type_synonym revno = int

named_theorems store_defs "definitions of the store operations, unfolded together"
named_theorems inv_defs "definitions of the invariants of the development"

subsection \<open>Suffixes of a list sorted by a key\<close>

text \<open>
  The store keeps its entries ordered by revision number; \<open>ChangesSince\<close> walks back
  from the newest entry while the revision is above the bound. On a sorted list that
  walk yields exactly the elements whose key is above the bound, in list order.
\<close>

lemma rev_takeWhile_rev_sorted:
  assumes "sorted (map f xs)"
  shows "rev (takeWhile (\<lambda>x. r < f x) (rev xs)) = filter (\<lambda>x. r < f x) xs"
  using assms
proof (induction xs rule: rev_induct)
  case Nil
  then show ?case by simp
next
  case (snoc x xs)
  have sxs: "sorted (map f xs)" and le: "\<forall>y\<in>set xs. f y \<le> f x"
    using snoc.prems by (simp_all add: sorted_append)
  show ?case
  proof (cases "r < f x")
    case True
    then show ?thesis using snoc.IH [OF sxs] by simp
  next
    case False
    with le have "filter (\<lambda>y. r < f y) xs = []"
      by (fastforce simp: filter_empty_conv)
    with False show ?thesis by simp
  qed
qed

lemma sorted_wrt_map_filter:
  "sorted_wrt R (map f xs) \<Longrightarrow> sorted_wrt R (map f (filter P xs))"
  by (simp add: sorted_wrt_map sorted_wrt_filter)

subsection \<open>Counting the elements of a list that satisfy a predicate\<close>

lemma length_filter_list_update:
  assumes "i < length xs"
  shows "int (length (filter P (xs[i := y]))) =
           int (length (filter P xs)) - (if P (xs ! i) then 1 else 0) + (if P y then 1 else 0)"
  using assms
proof (induction xs arbitrary: i)
  case Nil
  then show ?case by simp
next
  case (Cons x xs)
  show ?case
  proof (cases i)
    case 0
    then show ?thesis by simp
  next
    case (Suc j)
    with Cons.prems have "j < length xs" by simp
    from Cons.IH [OF this] Suc show ?thesis by (auto split: if_splits)
  qed
qed

lemma length_filter_cong_set:
  assumes "\<And>x. x \<in> set xs \<Longrightarrow> P x = Q x"
  shows "length (filter P xs) = length (filter Q xs)"
  using assms by (metis filter_cong)

subsection \<open>Maps and their list of keys\<close>

lemma dom_delete_filter:
  assumes "set xs = dom m"
  shows "set (filter (\<lambda>x. x \<noteq> k) xs) = dom (m(k := None))"
  using assms by auto

lemma distinct_move_to_back:
  assumes "distinct xs"
  shows "distinct (filter (\<lambda>x. x \<noteq> k) xs @ [k])"
  using assms by (simp add: distinct_filter)

end
