(* ===== verification/Store.thy ===== *)
theory Store
  imports Prelude
begin

text \<open>
  The multiwatcher \<open>Store\<close> (spec section 3 and 4.1; the Go implementation,
  \<open>state/multiwatcher\<close>, is not among the sources, so this theory is modelled from the
  specification, and checked against the store tests of \<open>src/state/open.go\<close>, lines
  158--388). The store is an in-memory mirror of the backing database: a map from
  entity identifier to entry, a list of identifiers ordered by the revision at which
  each entry last changed (oldest first; the Go \<open>container/list\<close> keeps the same
  sequence from \<open>Back()\<close> to \<open>Front()\<close>, as \<open>assertStoreContents\<close> reads it), and the
  latest revision number. Removed entities stay in the list as tombstones until every
  watcher that saw them alive has been told of the removal.
\<close>

record 'info entity_entry =
  creationRevno :: revno
  revno :: revno
  refCount :: int
  removed :: bool
  info :: 'info

text \<open>\<open>params.Delta\<close>: one observation of an entity delivered to a watcher.\<close>

record 'info delta =
  delta_removed :: bool
  delta_entity :: 'info

record ('k, 'info) store =
  latestRevno :: revno
  entities :: "'k \<rightharpoonup> 'info entity_entry"
  store_list :: "'k list"

definition NewStore :: "('k, 'info) store" where
  "NewStore = \<lparr>latestRevno = 0, entities = Map.empty, store_list = []\<rparr>"

text \<open>Walking the list: every element together with the entry the map files under it.\<close>

fun entries_in :: "('k \<rightharpoonup> 'e) \<Rightarrow> 'k list \<Rightarrow> ('k \<times> 'e) list" where
  "entries_in m [] = []"
| "entries_in m (x # xs) =
     (case m x of None \<Rightarrow> entries_in m xs | Some e \<Rightarrow> (x, e) # entries_in m xs)"

definition entries :: "('k, 'info) store \<Rightarrow> ('k \<times> 'info entity_entry) list" where
  "entries st = entries_in (entities st) (store_list st)"

subsection \<open>Operations\<close>

text \<open>\<open>add\<close>: a new entry at the newest end, created and last changed at the next revision.\<close>

definition store_add :: "'k \<Rightarrow> 'info \<Rightarrow> ('k, 'info) store \<Rightarrow> ('k, 'info) store" where
  "store_add k v st =
     (let r = latestRevno st + 1 in
      st\<lparr>latestRevno := r,
         entities := (entities st)(k \<mapsto> \<lparr>creationRevno = r, revno = r, refCount = 0,
                                          removed = False, info = v\<rparr>),
         store_list := store_list st @ [k]\<rparr>)"

text \<open>\<open>delete\<close>: unlink from list and map; the revision number does not change.\<close>

definition store_delete :: "'k \<Rightarrow> ('k, 'info) store \<Rightarrow> ('k, 'info) store" where
  "store_delete k st =
     st\<lparr>entities := (entities st)(k := None),
        store_list := filter (\<lambda>x. x \<noteq> k) (store_list st)\<rparr>"

text \<open>\<open>list.MoveToFront\<close> of the Go list: the element becomes the newest one.\<close>

definition move_to_back :: "'k \<Rightarrow> 'k list \<Rightarrow> 'k list" where
  "move_to_back k xs = filter (\<lambda>x. x \<noteq> k) xs @ [k]"

definition set_entry :: "'k \<Rightarrow> 'info entity_entry \<Rightarrow> ('k, 'info) store \<Rightarrow> ('k, 'info) store" where
  "set_entry k e st = st\<lparr>entities := (entities st)(k \<mapsto> e)\<rparr>"

text \<open>
  \<open>Update(id, info)\<close>, with \<open>None\<close> for Go's \<open>nil\<close> info (a removal). The branches follow
  the lifecycle of spec section 3: insert when absent; refresh (new revision, moved to
  the newest end) when present, bumping the revision even when the info is unchanged,
  as spec section 9 says the source does; on removal of a live entry, delete it at once
  when no watcher holds a reference, else mark it removed and move it to the newest
  end; ignore the removal of an absent entry or of a tombstone.
\<close>

definition Update :: "'k \<Rightarrow> 'info option \<Rightarrow> ('k, 'info) store \<Rightarrow> ('k, 'info) store" where
  "Update k v st =
     (case entities st k of
        None \<Rightarrow> (case v of None \<Rightarrow> st | Some i \<Rightarrow> store_add k i st)
      | Some e \<Rightarrow>
          (case v of
             None \<Rightarrow>
               (if removed e then st
                else let r = latestRevno st + 1 in
                     if refCount e = 0 then store_delete k (st\<lparr>latestRevno := r\<rparr>)
                     else set_entry k (e\<lparr>revno := r, removed := True\<rparr>)
                            (st\<lparr>latestRevno := r, store_list := move_to_back k (store_list st)\<rparr>))
           | Some i \<Rightarrow>
               (let r = latestRevno st + 1 in
                set_entry k (e\<lparr>revno := r, info := i\<rparr>)
                  (st\<lparr>latestRevno := r, store_list := move_to_back k (store_list st)\<rparr>))))"

text \<open>
  \<open>decRef(entry, id)\<close>: drop one reference; a tombstone whose last reference goes is
  deleted. The precondition \<open>refCount > 0\<close> of spec 4.1 is checked: breaking it is the
  failure \<open>None\<close>, so that a theorem that it never happens has content.
\<close>

definition decRef :: "'info entity_entry \<Rightarrow> 'k \<Rightarrow> ('k, 'info) store \<Rightarrow> ('k, 'info) store option" where
  "decRef e k st =
     (let e' = e\<lparr>refCount := refCount e - 1\<rparr>; st' = set_entry k e' st in
      if refCount e' < 0 then None
      else if refCount e' = 0 \<and> removed e' then Some (store_delete k st')
      else Some st')"

text \<open>
  \<open>ChangesSince(r)\<close>: walk back from the newest entry while its revision is above
  \<open>r\<close>, then deliver that suffix oldest first, leaving out the tombstones of entities
  created after \<open>r\<close> (a watcher at \<open>r\<close> never saw them; store test at
  \<open>open.go\<close> lines 367--374).
\<close>

definition to_delta :: "'info entity_entry \<Rightarrow> 'info delta" where
  "to_delta e = \<lparr>delta_removed = removed e, delta_entity = info e\<rparr>"

definition visible_to :: "revno \<Rightarrow> 'info entity_entry \<Rightarrow> bool" where
  "visible_to r e \<longleftrightarrow> \<not> (removed e \<and> r < creationRevno e)"

definition ChangesSince :: "revno \<Rightarrow> ('k, 'info) store \<Rightarrow> 'info delta list" where
  "ChangesSince r st =
     (let newer = rev (takeWhile (\<lambda>x. r < revno (snd x)) (rev (entries st))) in
      map (to_delta \<circ> snd) (filter (\<lambda>x. visible_to r (snd x)) newer))"

declare store_add_def [store_defs] store_delete_def [store_defs] move_to_back_def [store_defs]
  set_entry_def [store_defs]

subsection \<open>Walking the list after an operation\<close>

lemma entries_in_append [simp]:
  "entries_in m (xs @ ys) = entries_in m xs @ entries_in m ys"
  by (induction xs) (auto split: option.splits)

lemma entries_in_filter:
  "entries_in m (filter P xs) = filter (\<lambda>(x, _). P x) (entries_in m xs)"
  by (induction xs) (auto split: option.splits)

lemma entries_in_delete:
  "entries_in (m(k := None)) xs = filter (\<lambda>(x, _). x \<noteq> k) (entries_in m xs)"
  by (induction xs) (auto split: option.splits)

lemma entries_in_upd_notin:
  "k \<notin> set xs \<Longrightarrow> entries_in (m(k \<mapsto> v)) xs = entries_in m xs"
  by (induction xs) (auto split: option.splits)

lemma entries_in_upd_present:
  "m k \<noteq> None \<Longrightarrow>
   entries_in (m(k \<mapsto> v)) xs = map (\<lambda>(x, e). (x, if x = k then v else e)) (entries_in m xs)"
  by (induction xs) (auto split: option.splits)

lemma map_fst_entries_in:
  "set xs \<subseteq> dom m \<Longrightarrow> map fst (entries_in m xs) = xs"
  by (induction xs) (auto split: option.splits)

lemma set_entries_in:
  "set (entries_in m xs) = {(x, e). x \<in> set xs \<and> m x = Some e}"
  by (induction xs) (auto split: option.splits)

lemma filter_entries_in_upd:
  "filter (\<lambda>(x, _). x \<noteq> k) (entries_in (m(k := y)) xs) = filter (\<lambda>(x, _). x \<noteq> k) (entries_in m xs)"
  by (induction xs) (auto split: option.splits)

lemma entries_in_move_to_back:
  "entries_in (m(k \<mapsto> e)) (move_to_back k xs) = filter (\<lambda>(x, _). x \<noteq> k) (entries_in m xs) @ [(k, e)]"
  by (simp add: move_to_back_def entries_in_filter filter_entries_in_upd [where y = "Some e", simplified])

subsection \<open>The store invariant\<close>

text \<open>
  Spec invariants 1 and 2, made precise: list and map hold the same identifiers, each
  once; the list is strictly ordered by revision; every revision lies between the
  entry's creation and the store's latest revision; reference counts are never negative
  and a tombstone always has a reference (else it would have been deleted; spec
  invariant 3).
\<close>

definition entry_ok :: "revno \<Rightarrow> 'info entity_entry \<Rightarrow> bool" where
  "entry_ok L e \<longleftrightarrow> 1 \<le> creationRevno e \<and> creationRevno e \<le> revno e \<and> revno e \<le> L
     \<and> 0 \<le> refCount e \<and> (removed e \<longrightarrow> 0 < refCount e)"

definition store_inv :: "('k, 'info) store \<Rightarrow> bool" where
  "store_inv st \<longleftrightarrow> 0 \<le> latestRevno st \<and> distinct (store_list st)
     \<and> set (store_list st) = dom (entities st)
     \<and> sorted_wrt (<) (map (\<lambda>x. revno (snd x)) (entries st))
     \<and> (\<forall>x \<in> set (entries st). entry_ok (latestRevno st) (snd x))"

declare entry_ok_def [inv_defs] store_inv_def [inv_defs]

lemma entry_ok_mono: "entry_ok L e \<Longrightarrow> L \<le> L' \<Longrightarrow> entry_ok L' e"
  by (simp add: entry_ok_def)

lemma store_inv_NewStore: "store_inv NewStore"
  by (simp add: store_inv_def NewStore_def entries_def)

lemma store_inv_entries:
  assumes "store_inv st" and "entities st k = Some e"
  shows "(k, e) \<in> set (entries st)"
  using assms by (auto simp: store_inv_def entries_def set_entries_in)

lemma store_inv_entry_ok:
  assumes "store_inv st" and "entities st k = Some e"
  shows "entry_ok (latestRevno st) e"
  using assms store_inv_entries [OF assms] by (auto simp: store_inv_def)

lemma store_inv_add:
  assumes inv: "store_inv st" and new: "entities st k = None"
  shows "store_inv (store_add k i st)"
proof -
  let ?L = "latestRevno st + 1"
  let ?e = "\<lparr>creationRevno = ?L, revno = ?L, refCount = 0, removed = False, info = i\<rparr>"
  have notin: "k \<notin> set (store_list st)" using inv new by (auto simp: store_inv_def)
  have ents: "entries (store_add k i st) = entries st @ [(k, ?e)]"
    using notin by (simp add: store_add_def entries_def entries_in_upd_notin Let_def)
  have old: "\<forall>x \<in> set (entries st). entry_ok (latestRevno st) (snd x)"
    and srt: "sorted_wrt (<) (map (\<lambda>x. revno (snd x)) (entries st))"
    using inv by (simp_all add: store_inv_def)
  have "\<forall>x \<in> set (entries st). revno (snd x) < ?L"
    using old by (auto simp: entry_ok_def)
  then have "sorted_wrt (<) (map (\<lambda>x. revno (snd x)) (entries (store_add k i st)))"
    using srt by (simp add: ents sorted_wrt_append)
  moreover have "\<forall>x \<in> set (entries (store_add k i st)). entry_ok ?L (snd x)"
    using old inv by (auto simp: ents entry_ok_def store_inv_def)
  ultimately show ?thesis
    using inv notin by (auto simp: store_inv_def store_add_def Let_def)
qed

lemma store_inv_bump:
  assumes "store_inv st" and "latestRevno st \<le> L"
  shows "store_inv (st\<lparr>latestRevno := L\<rparr>)"
  using assms by (auto simp: store_inv_def entries_def intro: entry_ok_mono)

lemma entries_store_delete:
  "entries (store_delete k st) = filter (\<lambda>(x, _). x \<noteq> k) (entries st)"
  by (simp add: entries_def store_delete_def entries_in_filter entries_in_delete
      filter_entries_in_upd [where y = None, simplified])

lemma store_delete_fields [simp]:
  "latestRevno (store_delete k st) = latestRevno st"
  "entities (store_delete k st) = (entities st)(k := None)"
  "store_list (store_delete k st) = filter (\<lambda>x. x \<noteq> k) (store_list st)"
  by (simp_all add: store_delete_def)

lemma store_inv_delete:
  assumes inv: "store_inv st"
  shows "store_inv (store_delete k st)"
proof -
  have "sorted_wrt (<) (map (\<lambda>x. revno (snd x)) (entries (store_delete k st)))"
    using inv by (simp add: entries_store_delete sorted_wrt_map_filter store_inv_def)
  moreover have "\<forall>x \<in> set (entries (store_delete k st)). entry_ok (latestRevno st) (snd x)"
    using inv by (auto simp: entries_store_delete store_inv_def)
  ultimately show ?thesis
    using inv unfolding store_inv_def by (auto simp: distinct_filter)
qed

lemma entries_touch:
  assumes "store_inv st" and "entities st k = Some e"
  shows "entries (set_entry k e' (st\<lparr>latestRevno := L, store_list := move_to_back k (store_list st)\<rparr>))
           = filter (\<lambda>(x, _). x \<noteq> k) (entries st) @ [(k, e')]"
  by (simp add: entries_def set_entry_def entries_in_move_to_back)

lemma store_inv_touch:
  assumes inv: "store_inv st" and old: "entities st k = Some e"
    and ok: "entry_ok L e'" and rv: "revno e' = L" and up: "latestRevno st < L"
  shows "store_inv (set_entry k e' (st\<lparr>latestRevno := L, store_list := move_to_back k (store_list st)\<rparr>))"
    (is "store_inv ?st'")
proof -
  have ents: "entries ?st' = filter (\<lambda>(x, _). x \<noteq> k) (entries st) @ [(k, e')]"
    using inv old by (rule entries_touch)
  have olds: "\<forall>x \<in> set (entries st). entry_ok (latestRevno st) (snd x)"
    and srt: "sorted_wrt (<) (map (\<lambda>x. revno (snd x)) (entries st))"
    using inv by (simp_all add: store_inv_def)
  have below: "\<forall>x \<in> set (entries st). revno (snd x) < L"
    using olds up by (auto simp: entry_ok_def)
  have "sorted_wrt (<) (map (\<lambda>x. revno (snd x)) (entries ?st'))"
    using sorted_wrt_map_filter [OF srt] below rv by (auto simp: ents sorted_wrt_append)
  moreover have "\<forall>x \<in> set (entries ?st'). entry_ok L (snd x)"
    using olds ok less_imp_le [OF up] by (force simp: ents intro: entry_ok_mono)
  moreover have "k \<in> set (store_list st)"
    using inv old by (auto simp: store_inv_def)
  ultimately show ?thesis
    using inv up unfolding store_inv_def
    by (auto simp: set_entry_def move_to_back_def distinct_filter)
qed

lemma entries_set_entry:
  assumes "entities st k = Some e"
  shows "entries (set_entry k e' st) = map (\<lambda>(x, e0). (x, if x = k then e' else e0)) (entries st)"
  using assms by (simp add: entries_def set_entry_def entries_in_upd_present)

lemma store_inv_set_entry:
  assumes inv: "store_inv st" and old: "entities st k = Some e"
    and same: "revno e' = revno e" "creationRevno e' = creationRevno e"
    and rc: "0 \<le> refCount e'" "removed e' \<longrightarrow> 0 < refCount e'"
  shows "store_inv (set_entry k e' st)"
proof -
  have ents: "entries (set_entry k e' st) = map (\<lambda>(x, e0). (x, if x = k then e' else e0)) (entries st)"
    using old by (rule entries_set_entry)
  have at_k: "\<And>e0. (k, e0) \<in> set (entries st) \<Longrightarrow> e0 = e"
    using inv old by (auto simp: store_inv_def entries_def set_entries_in)
  have revs: "map (\<lambda>x. revno (snd x)) (entries (set_entry k e' st)) = map (\<lambda>x. revno (snd x)) (entries st)"
    using at_k same by (auto simp: ents)
  have "entry_ok (latestRevno st) e" using inv old by (rule store_inv_entry_ok)
  then have "entry_ok (latestRevno st) e'" using same rc by (simp add: entry_ok_def)
  then have "\<forall>x \<in> set (entries (set_entry k e' st)). entry_ok (latestRevno st) (snd x)"
    using inv by (auto simp: ents store_inv_def)
  then show ?thesis
    using inv old revs unfolding store_inv_def by (auto simp: set_entry_def)
qed

lemma store_delete_set_entry [simp]:
  "store_delete k (set_entry k e st) = store_delete k st"
  by (simp add: store_delete_def set_entry_def)

text \<open>Every store operation keeps the invariant.\<close>

lemma store_inv_Update:
  assumes inv: "store_inv st"
  shows "store_inv (Update k v st)"
proof (cases "entities st k")
  case None
  with inv show ?thesis
    by (cases v) (simp_all add: Update_def store_inv_add)
next
  case (Some e)
  have ok: "entry_ok (latestRevno st) e" using inv Some by (rule store_inv_entry_ok)
  let ?L = "latestRevno st + 1"
  show ?thesis
  proof (cases v)
    case None
    consider (tomb) "removed e" | (gone) "\<not> removed e" "refCount e = 0"
      | (mark) "\<not> removed e" "refCount e \<noteq> 0" by blast
    then show ?thesis
    proof cases
      case tomb
      with Some None inv show ?thesis by (simp add: Update_def)
    next
      case gone
      have "store_inv (st\<lparr>latestRevno := ?L\<rparr>)" using inv by (rule store_inv_bump) simp
      then have "store_inv (store_delete k (st\<lparr>latestRevno := ?L\<rparr>))" by (rule store_inv_delete)
      with Some None gone show ?thesis by (simp add: Update_def)
    next
      case mark
      have "entry_ok ?L (e\<lparr>revno := ?L, removed := True\<rparr>)"
        using ok mark by (simp add: entry_ok_def)
      then have "store_inv (set_entry k (e\<lparr>revno := ?L, removed := True\<rparr>)
                   (st\<lparr>latestRevno := ?L, store_list := move_to_back k (store_list st)\<rparr>))"
        using inv Some by (intro store_inv_touch) simp_all
      with Some None mark show ?thesis by (simp add: Update_def Let_def)
    qed
  next
    case (Some i)
    have "entry_ok ?L (e\<lparr>revno := ?L, info := i\<rparr>)"
      using ok by (simp add: entry_ok_def)
    then have "store_inv (set_entry k (e\<lparr>revno := ?L, info := i\<rparr>)
                 (st\<lparr>latestRevno := ?L, store_list := move_to_back k (store_list st)\<rparr>))"
      using inv \<open>entities st k = Some e\<close> by (intro store_inv_touch) simp_all
    with \<open>entities st k = Some e\<close> Some show ?thesis by (simp add: Update_def Let_def)
  qed
qed

lemma store_inv_decRef:
  assumes inv: "store_inv st" and old: "entities st k = Some e"
    and dec: "decRef e k st = Some st'"
  shows "store_inv st'"
proof -
  let ?e' = "e\<lparr>refCount := refCount e - 1\<rparr>"
  have nn: "0 \<le> refCount e - 1" using dec by (auto simp: decRef_def Let_def split: if_splits)
  show ?thesis
  proof (cases "refCount e - 1 = 0 \<and> removed e")
    case True
    then have "st' = store_delete k st" using dec by (simp add: decRef_def Let_def)
    with inv show ?thesis by (simp add: store_inv_delete)
  next
    case False
    then have st': "st' = set_entry k ?e' st" using dec by (auto simp: decRef_def Let_def split: if_splits)
    have "store_inv (set_entry k ?e' st)"
      using inv old nn False by (intro store_inv_set_entry) auto
    with st' show ?thesis by simp
  qed
qed

lemma store_inv_entries_iff:
  assumes "store_inv st"
  shows "x \<in> set (entries st) \<longleftrightarrow> entities st (fst x) = Some (snd x)"
  using assms by (cases x) (auto simp: store_inv_def entries_def set_entries_in)

lemma store_inv_distinct_keys:
  assumes "store_inv st"
  shows "distinct (map fst (entries st))"
proof -
  have "map fst (entries st) = store_list st"
    using assms by (auto simp: store_inv_def entries_def intro: map_fst_entries_in)
  then show ?thesis using assms by (simp add: store_inv_def)
qed

lemma set_entry_same:
  "entities st k = Some e \<Longrightarrow> set_entry k e st = st"
  by (simp add: set_entry_def map_upd_triv)

lemma entities_Update_other:
  "k' \<noteq> k \<Longrightarrow> entities (Update k v st) k' = entities st k'"
  by (auto simp: Update_def store_defs Let_def split: option.splits)

subsection \<open>ChangesSince against its specification\<close>

text \<open>
  The reference reading of spec 4.1 and invariant 5: every entry changed after \<open>r\<close>,
  in list order, as a delta, without the tombstones the watcher never saw alive.
\<close>

definition changes_since_spec :: "revno \<Rightarrow> ('k, 'info) store \<Rightarrow> 'info delta list" where
  "changes_since_spec r st =
     map (to_delta \<circ> snd) (filter (\<lambda>x. r < revno (snd x) \<and> visible_to r (snd x)) (entries st))"

lemma store_inv_sorted:
  "store_inv st \<Longrightarrow> sorted (map (\<lambda>x. revno (snd x)) (entries st))"
  by (simp add: store_inv_def strict_sorted_imp_sorted)

lemma ChangesSince_eq_spec:
  assumes "store_inv st"
  shows "ChangesSince r st = changes_since_spec r st"
proof -
  have "rev (takeWhile (\<lambda>x. r < revno (snd x)) (rev (entries st)))
          = filter (\<lambda>x. r < revno (snd x)) (entries st)"
    using store_inv_sorted [OF assms] by (rule rev_takeWhile_rev_sorted)
  then show ?thesis
    by (simp add: ChangesSince_def changes_since_spec_def Let_def conj_commute)
qed

lemma ChangesSince_latest:
  assumes "store_inv st" and "latestRevno st \<le> r"
  shows "ChangesSince r st = []"
proof -
  have "\<forall>x \<in> set (entries st). revno (snd x) \<le> r"
    using assms by (auto simp: store_inv_def entry_ok_def)
  then show ?thesis
    using assms by (auto simp: ChangesSince_eq_spec changes_since_spec_def filter_empty_conv)
qed

subsection \<open>The store as a mirror: the live view\<close>

text \<open>
  Abstractly the store holds the live entities: an identifier maps to the info of its
  entry unless that entry is a tombstone.
\<close>

definition live :: "('k, 'info) store \<Rightarrow> 'k \<rightharpoonup> 'info" where
  "live st k = (case entities st k of None \<Rightarrow> None
                 | Some e \<Rightarrow> if removed e then None else Some (info e))"

definition tombstone :: "('k, 'info) store \<Rightarrow> 'k \<Rightarrow> bool" where
  "tombstone st k \<longleftrightarrow> (case entities st k of None \<Rightarrow> False | Some e \<Rightarrow> removed e)"

lemma live_Update:
  assumes "\<not> tombstone st k"
  shows "live (Update k v st) = (live st)(k := v)"
  using assms
  by (auto simp: live_def tombstone_def Update_def store_defs Let_def fun_eq_iff
      split: option.splits if_splits)

lemma Update_revision_step:
  "latestRevno st \<le> latestRevno (Update k v st) \<and> latestRevno (Update k v st) \<le> latestRevno st + 1"
  by (auto simp: Update_def store_defs Let_def split: option.splits)

lemma store_inv_fold_Update:
  "store_inv st \<Longrightarrow> store_inv (fold (\<lambda>(k, v). Update k v) ops st)"
  by (induction ops arbitrary: st) (auto simp: store_inv_Update)

lemma latestRevno_fold_Update:
  "latestRevno (fold (\<lambda>(k, v). Update k v) ops st) \<le> latestRevno st + int (length ops)"
proof (induction ops arbitrary: st)
  case Nil
  then show ?case by simp
next
  case (Cons op ops)
  obtain k v where op: "op = (k, v)" by fastforce
  have "latestRevno (Update k v st) \<le> latestRevno st + 1"
    by (rule conjunct2 [OF Update_revision_step])
  with Cons.IH [of "Update k v st"] op show ?case by simp
qed

subsection \<open>Properties of the store\<close>

text \<open>
  Spec property 8.1: after any sequence of \<open>Update\<close>s from an empty store, the list
  is strictly ordered by revision, list and map hold the same identifiers once each,
  every revision lies between the entry's creation and the latest revision, and every
  tombstone still has a reference.
\<close>

theorem store_invariant_after_updates:
  "store_inv (fold (\<lambda>(k, v). Update k v) ops NewStore)"
  by (rule store_inv_fold_Update [OF store_inv_NewStore])

text \<open>
  \<open>ChangesSince(r)\<close>, which walks back from the newest entry only as far as
  revision \<open>r\<close>, returns exactly the deltas of the reference reading: every entry
  changed after \<open>r\<close>, oldest first, except tombstones of entities created after \<open>r\<close>.
\<close>

theorem ChangesSince_refines_spec:
  assumes "store_inv st"
  shows "ChangesSince r st = changes_since_spec r st"
  using assms by (rule ChangesSince_eq_spec)

theorem ChangesSince_refines_spec_witness:
  "store_inv (Update (2::nat) (Some (7::nat)) (Update 1 (Some 5) NewStore)) \<and>
   ChangesSince 1 (Update (2::nat) (Some (7::nat)) (Update 1 (Some 5) NewStore)) =
   changes_since_spec 1 (Update (2::nat) (Some (7::nat)) (Update 1 (Some 5) NewStore))"
proof -
  have inv: "store_inv (Update (2::nat) (Some (7::nat)) (Update 1 (Some 5) NewStore))"
    by (intro store_inv_Update store_inv_NewStore)
  show ?thesis using inv ChangesSince_refines_spec [OF inv, of 1] by simp
qed

text \<open>
  The store refines a map of live entities: an \<open>Update\<close> of an identifier that is
  not a tombstone sets (or, with \<open>nil\<close>, removes) exactly that identifier in the live
  view.
\<close>

theorem Update_refines_live_map:
  assumes "\<not> tombstone st k"
  shows "live (Update k v st) = (live st)(k := v)"
  using assms by (rule live_Update)

theorem Update_refines_live_map_witness:
  "\<not> tombstone (NewStore :: (nat, nat) store) 1 \<and>
   live (Update (1::nat) (Some (5::nat)) NewStore) = (live NewStore)(1 := Some 5)"
proof -
  have h: "\<not> tombstone (NewStore :: (nat, nat) store) 1"
    by (simp add: tombstone_def NewStore_def)
  show ?thesis using h Update_refines_live_map [OF h, of "Some 5"] by simp
qed

text \<open>
  Revision numbers stay within the 64-bit range of Go's \<open>int64\<close>: each \<open>Update\<close>
  raises the latest revision by at most one, so after \<open>n\<close> updates from an empty
  store it is at most \<open>n\<close>.
\<close>

theorem latestRevno_bounded_by_updates:
  "0 \<le> latestRevno (fold (\<lambda>(k, v). Update k v) ops NewStore) \<and>
   latestRevno (fold (\<lambda>(k, v). Update k v) ops NewStore) \<le> int (length ops)"
proof
  show "0 \<le> latestRevno (fold (\<lambda>(k, v). Update k v) ops NewStore)"
    using store_inv_fold_Update [OF store_inv_NewStore, of ops] by (simp add: store_inv_def)
  show "latestRevno (fold (\<lambda>(k, v). Update k v) ops NewStore) \<le> int (length ops)"
    using latestRevno_fold_Update [of ops NewStore] by (simp add: NewStore_def)
qed

end
