(* ===== verification/Manager.thy ===== *)
theory Manager
  imports Store
begin

text \<open>
  The \<open>StoreManager\<close> and its \<open>Watcher\<close>s (spec 4.2, 4.3; modelled from the
  specification, the Go implementation not being among the sources). The manager owns
  the store, the watchers' last-seen revisions and, per watcher, the stack of pending
  \<open>Next\<close> requests (newest first). Requests arrive through \<open>handle\<close>; \<open>respond\<close> serves
  every watcher whose revision is behind the store. Reference counts follow the
  protocol of spec 4.2: a watcher that is told of a live entity for the first time adds a
  reference, one told of its removal drops it, and a stopping watcher drops all it holds.
  Watchers are numbered by their position in \<open>sm_watchers\<close>; replies are recorded in
  the order they are sent, each with its watcher and request.
\<close>

record watcher =
  w_revno :: revno
  w_stopped :: bool

definition new_watcher :: watcher where
  "new_watcher = \<lparr>w_revno = 0, w_stopped = False\<rparr>"

text \<open>A request: \<open>Next\<close> (watcher, request id) or the stop request, whose reply channel is nil.\<close>

datatype request = NextReq nat nat | StopReq nat

text \<open>What is sent on a request's reply channel, with the changes it carries.\<close>

datatype 'info reply = Reply bool "'info delta list"

record ('k, 'info) manager =
  sm_all :: "('k, 'info) store"
  sm_watchers :: "watcher list"
  sm_waiting :: "nat \<Rightarrow> nat list"
  sm_replies :: "(nat \<times> nat \<times> 'info reply) list"

definition new_manager :: "('k, 'info) store \<Rightarrow> ('k, 'info) manager" where
  "new_manager st = \<lparr>sm_all = st, sm_watchers = [], sm_waiting = (\<lambda>_. []), sm_replies = []\<rparr>"

definition add_watcher :: "('k, 'info) manager \<Rightarrow> ('k, 'info) manager" where
  "add_watcher sm = sm\<lparr>sm_watchers := sm_watchers sm @ [new_watcher]\<rparr>"

subsection \<open>Walking the entries\<close>

text \<open>
  Both loops of the manager walk the store's list from the newest entry, each step
  touching only the entry it visits (the Go loops take \<open>e.Next()\<close> before the step
  may delete \<open>e\<close>); a failing \<open>decRef\<close> stops the walk.
\<close>

fun foreach_entry ::
  "('k \<Rightarrow> 'info entity_entry \<Rightarrow> ('k, 'info) store \<Rightarrow> ('k, 'info) store option)
   \<Rightarrow> ('k \<times> 'info entity_entry) list \<Rightarrow> ('k, 'info) store \<Rightarrow> ('k, 'info) store option" where
  "foreach_entry f [] st = Some st"
| "foreach_entry f ((k, e) # es) st =
     (case f k e st of None \<Rightarrow> None | Some st' \<Rightarrow> foreach_entry f es st')"

text \<open>
  \<open>seen(revno)\<close>, run after a watcher at \<open>revno\<close> was sent the changes since then: an
  entity created since is now known to it (one more reference, unless it is already a
  tombstone, whose removal the watcher was never sent); a tombstone of an entity it knew
  has now been reported (one reference less). The walk stops at the first entry not
  newer than \<open>revno\<close>.
\<close>

definition seen_step :: "revno \<Rightarrow> 'k \<Rightarrow> 'info entity_entry \<Rightarrow> ('k, 'info) store \<Rightarrow> ('k, 'info) store option" where
  "seen_step r k e st =
     (if r < creationRevno e then
        (if removed e then Some st else Some (set_entry k (e\<lparr>refCount := refCount e + 1\<rparr>) st))
      else if removed e then decRef e k st
      else Some st)"

definition seen :: "revno \<Rightarrow> ('k, 'info) store \<Rightarrow> ('k, 'info) store option" where
  "seen r st = foreach_entry (seen_step r) (takeWhile (\<lambda>x. r < revno (snd x)) (rev (entries st))) st"

text \<open>
  \<open>leave(w)\<close>, run when watcher \<open>w\<close> stops: drop the reference of every entry it has seen
  created and not yet been told removed (spec 4.2, \<open>handle\<close> of a stop request,
  including its guard that the watcher has seen anything at all).
\<close>

definition leave_step :: "revno \<Rightarrow> 'k \<Rightarrow> 'info entity_entry \<Rightarrow> ('k, 'info) store \<Rightarrow> ('k, 'info) store option" where
  "leave_step r k e st =
     (if creationRevno e \<le> r then
        (if removed e \<and> revno e \<le> r then Some st else decRef e k st)
      else Some st)"

definition leave :: "watcher \<Rightarrow> ('k, 'info) store \<Rightarrow> ('k, 'info) store option" where
  "leave w st = (if 0 < w_revno w then foreach_entry (leave_step (w_revno w)) (rev (entries st)) st
                 else Some st)"

subsection \<open>Walks whose steps are local\<close>

text \<open>
  A step is local when, at an entry the store holds, it either fails or replaces that
  entry by an outcome (a new entry, or deletion) computed from the entry alone. A walk
  of local steps over distinct entries then fails if some step fails and otherwise
  puts every outcome in place.
\<close>

definition put_entry :: "'k \<Rightarrow> 'info entity_entry option \<Rightarrow> ('k, 'info) store \<Rightarrow> ('k, 'info) store" where
  "put_entry k r st = (case r of None \<Rightarrow> store_delete k st | Some e \<Rightarrow> set_entry k e st)"

definition local_step ::
  "('k \<Rightarrow> 'info entity_entry \<Rightarrow> ('k, 'info) store \<Rightarrow> ('k, 'info) store option)
   \<Rightarrow> ('k \<Rightarrow> 'info entity_entry \<Rightarrow> bool) \<Rightarrow> ('k \<Rightarrow> 'info entity_entry \<Rightarrow> 'info entity_entry option) \<Rightarrow> bool" where
  "local_step f fails res \<longleftrightarrow>
     (\<forall>k e st. entities st k = Some e \<longrightarrow>
        f k e st = (if fails k e then None else Some (put_entry k (res k e) st)))"

lemma put_entry_fields [simp]:
  "latestRevno (put_entry k r st) = latestRevno st"
  "entities (put_entry k r st) = (entities st)(k := r)"
  by (auto simp: put_entry_def set_entry_def split: option.splits)

fun put_all ::
  "('k \<Rightarrow> 'info entity_entry \<Rightarrow> 'info entity_entry option) \<Rightarrow> ('k \<times> 'info entity_entry) list
   \<Rightarrow> ('k, 'info) store \<Rightarrow> ('k, 'info) store" where
  "put_all res [] st = st"
| "put_all res ((k, e) # es) st = put_all res es (put_entry k (res k e) st)"

lemma foreach_entry_local:
  assumes loc: "local_step f fails res"
    and "distinct (map fst es)" and "\<forall>x \<in> set es. entities st (fst x) = Some (snd x)"
  shows "foreach_entry f es st =
           (if \<exists>x \<in> set es. fails (fst x) (snd x) then None else Some (put_all res es st))"
  using assms(2,3)
proof (induction es arbitrary: st)
  case Nil
  then show ?case by simp
next
  case (Cons x es)
  obtain k e where x: "x = (k, e)" by fastforce
  have at: "entities st k = Some e" using Cons.prems x by simp
  have step: "f k e st = (if fails k e then None else Some (put_entry k (res k e) st))"
    using loc at by (simp add: local_step_def)
  have rest: "\<forall>y \<in> set es. entities (put_entry k (res k e) st) (fst y) = Some (snd y)"
    using Cons.prems x by force
  have "distinct (map fst es)" using Cons.prems by simp
  note IH = Cons.IH [OF this rest]
  show ?case by (simp add: x step IH)
qed

lemma entities_put_all:
  "distinct (map fst es) \<Longrightarrow>
   entities (put_all res es st) k = (case map_of es k of None \<Rightarrow> entities st k | Some e \<Rightarrow> res k e)"
proof (induction es arbitrary: st)
  case Nil
  then show ?case by simp
next
  case (Cons x es)
  obtain a b where x: "x = (a, b)" by fastforce
  have "a \<notin> set (map fst es)" and d: "distinct (map fst es)" using Cons.prems x by auto
  then have "map_of es a = None" by (simp add: map_of_eq_None_iff)
  then show ?case using Cons.IH [OF d, of "put_entry a (res a b) st"] x
    by (auto split: option.splits)
qed

lemma latestRevno_put_all [simp]: "latestRevno (put_all res es st) = latestRevno st"
  by (induction res es st rule: put_all.induct) auto

definition outcome_ok :: "'info entity_entry \<Rightarrow> 'info entity_entry option \<Rightarrow> bool" where
  "outcome_ok e r \<longleftrightarrow> (case r of None \<Rightarrow> True
     | Some e' \<Rightarrow> revno e' = revno e \<and> creationRevno e' = creationRevno e
                 \<and> 0 \<le> refCount e' \<and> (removed e' \<longrightarrow> 0 < refCount e'))"

lemma store_inv_put_entry:
  assumes "store_inv st" and "entities st k = Some e" and "outcome_ok e r"
  shows "store_inv (put_entry k r st)"
  using assms
  by (auto simp: put_entry_def outcome_ok_def store_inv_delete intro: store_inv_set_entry
      split: option.splits)

lemma store_inv_put_all:
  assumes "store_inv st" and "distinct (map fst es)"
    and "\<forall>x \<in> set es. entities st (fst x) = Some (snd x)"
    and "\<forall>x \<in> set es. outcome_ok (snd x) (res (fst x) (snd x))"
  shows "store_inv (put_all res es st)"
  using assms
proof (induction es arbitrary: st)
  case Nil
  then show ?case by simp
next
  case (Cons x es)
  have "store_inv (put_entry (fst x) (res (fst x) (snd x)) st)"
    using Cons.prems by (intro store_inv_put_entry) auto
  moreover have "\<forall>y \<in> set es. entities (put_entry (fst x) (res (fst x) (snd x)) st) (fst y) = Some (snd y)"
    using Cons.prems by force
  ultimately show ?case using Cons.prems Cons.IH by (cases x) simp
qed

subsection \<open>Requests\<close>

text \<open>
  \<open>handle(req)\<close>. A request of a stopped watcher is answered \<open>false\<close> at once (a stop
  request of a stopped watcher is ignored: \<open>Stop\<close> is idempotent). A stop request answers
  \<open>false\<close> to every pending request of the watcher, newest first, forgets them, marks the
  watcher stopped and drops its references. Any other request is pushed on the
  watcher's stack.
\<close>

definition handle :: "request \<Rightarrow> ('k, 'info) manager \<Rightarrow> ('k, 'info) manager option" where
  "handle req sm =
     (case req of
        NextReq w r \<Rightarrow>
          (if w_stopped (sm_watchers sm ! w)
           then Some (sm\<lparr>sm_replies := sm_replies sm @ [(w, r, Reply False [])]\<rparr>)
           else Some (sm\<lparr>sm_waiting := (sm_waiting sm)(w := r # sm_waiting sm w)\<rparr>))
      | StopReq w \<Rightarrow>
          (if w_stopped (sm_watchers sm ! w) then Some sm
           else case leave (sm_watchers sm ! w) (sm_all sm) of
                  None \<Rightarrow> None
                | Some st \<Rightarrow>
                    Some (sm\<lparr>sm_all := st,
                             sm_watchers := (sm_watchers sm)[w := (sm_watchers sm ! w)\<lparr>w_stopped := True\<rparr>],
                             sm_waiting := (sm_waiting sm)(w := []),
                             sm_replies := sm_replies sm @ map (\<lambda>r. (w, r, Reply False [])) (sm_waiting sm w)\<rparr>)))"

text \<open>
  \<open>respond()\<close>: for each watcher with a pending request whose revision is behind the
  store, pop its newest request (the newer of two pending requests is served first:
  spec scenario (E) and \<open>TestRespondMultiple\<close>, \<open>open.go\<close> lines 681--708), send it
  \<open>true\<close> with the changes since the watcher's revision, advance the watcher to the
  latest revision and update the reference counts by \<open>seen\<close>. Go iterates the
  \<open>waiting\<close> map in an unspecified order; the model takes the watchers in ascending
  order.
\<close>

definition respond_one :: "nat \<Rightarrow> ('k, 'info) manager \<Rightarrow> ('k, 'info) manager option" where
  "respond_one w sm =
     (case sm_waiting sm w of
        [] \<Rightarrow> Some sm
      | r # rest \<Rightarrow>
          (let wt = sm_watchers sm ! w; old = w_revno wt; st = sm_all sm in
           if \<not> old < latestRevno st then Some sm
           else case seen old st of
                  None \<Rightarrow> None
                | Some st' \<Rightarrow>
                    Some (sm\<lparr>sm_all := st',
                             sm_watchers := (sm_watchers sm)[w := wt\<lparr>w_revno := latestRevno st\<rparr>],
                             sm_waiting := (sm_waiting sm)(w := rest),
                             sm_replies := sm_replies sm @ [(w, r, Reply True (ChangesSince old st))]\<rparr>)))"

fun respond_loop :: "nat list \<Rightarrow> ('k, 'info) manager \<Rightarrow> ('k, 'info) manager option" where
  "respond_loop [] sm = Some sm"
| "respond_loop (w # ws) sm = (case respond_one w sm of None \<Rightarrow> None | Some sm' \<Rightarrow> respond_loop ws sm')"

definition respond :: "('k, 'info) manager \<Rightarrow> ('k, 'info) manager option" where
  "respond sm = respond_loop [0..<length (sm_watchers sm)] sm"

text \<open>A watcher is served by \<open>respond\<close> when it has a pending request and is behind the store.\<close>

definition served :: "('k, 'info) manager \<Rightarrow> nat \<Rightarrow> bool" where
  "served sm i \<longleftrightarrow> sm_waiting sm i \<noteq> [] \<and> w_revno (sm_watchers sm ! i) < latestRevno (sm_all sm)"

subsection \<open>The steps of seen and leave are local\<close>

definition dec_res :: "'info entity_entry \<Rightarrow> 'info entity_entry option" where
  "dec_res e = (let e' = e\<lparr>refCount := refCount e - 1\<rparr> in
                if refCount e' = 0 \<and> removed e' then None else Some e')"

lemma decRef_put_entry:
  "decRef e k st = (if refCount e < 1 then None else Some (put_entry k (dec_res e) st))"
  by (simp add: decRef_def dec_res_def put_entry_def Let_def)

definition seen_res :: "revno \<Rightarrow> 'info entity_entry \<Rightarrow> 'info entity_entry option" where
  "seen_res r e = (if r < creationRevno e then
                     (if removed e then Some e else Some (e\<lparr>refCount := refCount e + 1\<rparr>))
                   else if removed e then dec_res e else Some e)"

definition seen_fails :: "revno \<Rightarrow> 'info entity_entry \<Rightarrow> bool" where
  "seen_fails r e \<longleftrightarrow> \<not> r < creationRevno e \<and> removed e \<and> refCount e < 1"

lemma seen_step_local:
  "local_step (seen_step r) (\<lambda>k e. seen_fails r e) (\<lambda>k e. seen_res r e)"
  by (auto simp: local_step_def seen_step_def seen_fails_def seen_res_def decRef_put_entry
      put_entry_def set_entry_same)

definition leave_res :: "revno \<Rightarrow> 'info entity_entry \<Rightarrow> 'info entity_entry option" where
  "leave_res r e = (if creationRevno e \<le> r \<and> \<not> (removed e \<and> revno e \<le> r) then dec_res e else Some e)"

definition leave_fails :: "revno \<Rightarrow> 'info entity_entry \<Rightarrow> bool" where
  "leave_fails r e \<longleftrightarrow> creationRevno e \<le> r \<and> \<not> (removed e \<and> revno e \<le> r) \<and> refCount e < 1"

lemma leave_step_local:
  "local_step (leave_step r) (\<lambda>k e. leave_fails r e) (\<lambda>k e. leave_res r e)"
  by (auto simp: local_step_def leave_step_def leave_fails_def leave_res_def decRef_put_entry
      put_entry_def set_entry_same)

subsection \<open>The manager invariant\<close>

text \<open>
  Spec invariant 4: the reference count of an entry is the number of watchers, not
  stopped, that have seen it created (their revision is at or past its creation) and
  have not been told it is removed (it is not a tombstone at or below their revision).
\<close>

definition counts :: "watcher \<Rightarrow> 'info entity_entry \<Rightarrow> bool" where
  "counts w e \<longleftrightarrow> \<not> w_stopped w \<and> creationRevno e \<le> w_revno w \<and> \<not> (removed e \<and> revno e \<le> w_revno w)"

definition holders :: "watcher list \<Rightarrow> 'info entity_entry \<Rightarrow> int" where
  "holders ws e = int (length (filter (\<lambda>w. counts w e) ws))"

definition mgr_inv :: "('k, 'info) manager \<Rightarrow> bool" where
  "mgr_inv sm \<longleftrightarrow> store_inv (sm_all sm)
     \<and> (\<forall>w \<in> set (sm_watchers sm). 0 \<le> w_revno w \<and> w_revno w \<le> latestRevno (sm_all sm))
     \<and> (\<forall>x \<in> set (entries (sm_all sm)). refCount (snd x) = holders (sm_watchers sm) (snd x))
     \<and> (\<forall>w. sm_waiting sm w \<noteq> [] \<longrightarrow> w < length (sm_watchers sm) \<and> \<not> w_stopped (sm_watchers sm ! w))"

declare counts_def [inv_defs] holders_def [inv_defs] mgr_inv_def [inv_defs]

lemma counts_refCount [simp]: "counts w (e\<lparr>refCount := n\<rparr>) = counts w e"
  by (simp add: counts_def)

lemma holders_refCount [simp]: "holders ws (e\<lparr>refCount := n\<rparr>) = holders ws e"
  by (simp add: holders_def)

lemma holders_nonneg: "0 \<le> holders ws e"
  by (simp add: holders_def)

lemma holders_update:
  assumes "w < length ws"
  shows "holders (ws[w := x]) e =
           holders ws e - (if counts (ws ! w) e then 1 else 0) + (if counts x e then 1 else 0)"
  using assms by (simp add: holders_def length_filter_list_update)

lemma holders_pos:
  assumes "w < length ws" and "counts (ws ! w) e"
  shows "1 \<le> holders ws e"
proof -
  have "ws ! w \<in> set (filter (\<lambda>w. counts w e) ws)" using assms by simp
  then have "0 < length (filter (\<lambda>w. counts w e) ws)" by (rule length_pos_if_in_set)
  then show ?thesis unfolding holders_def by linarith
qed

lemma mgr_inv_new_manager:
  "store_inv st \<Longrightarrow> \<forall>x \<in> set (entries st). refCount (snd x) = 0 \<Longrightarrow> mgr_inv (new_manager st)"
  by (simp add: mgr_inv_def new_manager_def holders_def)

subsection \<open>respond keeps the invariant\<close>

lemma newer_entries:
  fixes r :: revno and st :: "('k, 'info) store"
  assumes "store_inv st"
  defines "es \<equiv> takeWhile (\<lambda>x. r < revno (snd x)) (rev (entries st))"
  shows "distinct (map fst es)"
    and "\<forall>x \<in> set es. entities st (fst x) = Some (snd x)"
    and "set es = {x \<in> set (entries st). r < revno (snd x)}"
proof -
  have rev_es: "rev es = filter (\<lambda>x. r < revno (snd x)) (entries st)"
    unfolding es_def using store_inv_sorted [OF assms(1)] by (rule rev_takeWhile_rev_sorted)
  show set_es: "set es = {x \<in> set (entries st). r < revno (snd x)}"
    using arg_cong [OF rev_es, of set] by auto
  have "distinct (map fst (filter (\<lambda>x. r < revno (snd x)) (entries st)))"
    using store_inv_distinct_keys [OF assms(1)] by (simp add: distinct_map_filter)
  then show "distinct (map fst es)"
    using arg_cong [OF rev_es, of "\<lambda>xs. distinct (map fst xs)"] by (simp add: rev_map [symmetric])
  show "\<forall>x \<in> set es. entities st (fst x) = Some (snd x)"
    using set_es store_inv_entries_iff [OF assms(1)] by auto
qed

lemma seen_res_counts:
  assumes "r < revno e" and "creationRevno e \<le> revno e" and "revno e \<le> L"
    and "\<not> w_stopped wt" and "w_revno wt = r" and "seen_res r e = Some e'"
  shows "e' = e\<lparr>refCount := refCount e - (if counts wt e then 1 else 0)
                                       + (if counts (wt\<lparr>w_revno := L\<rparr>) e then 1 else 0)\<rparr>"
  using assms
  by (auto simp: seen_res_def dec_res_def counts_def Let_def split: if_splits)

lemma seen_keeps_counts:
  assumes inv: "mgr_inv sm" and w: "w < length (sm_watchers sm)"
    and live: "\<not> w_stopped (sm_watchers sm ! w)"
  defines "wt \<equiv> sm_watchers sm ! w" and "st \<equiv> sm_all sm"
  shows "\<exists>st'. seen (w_revno wt) st = Some st' \<and> store_inv st' \<and> latestRevno st' = latestRevno st
     \<and> (\<forall>x \<in> set (entries st'). refCount (snd x) =
           holders ((sm_watchers sm)[w := wt\<lparr>w_revno := latestRevno st\<rparr>]) (snd x))"
proof -
  let ?r = "w_revno wt" and ?L = "latestRevno st" and ?ws = "sm_watchers sm"
  let ?ws' = "?ws[w := wt\<lparr>w_revno := ?L\<rparr>]"
  let ?es = "takeWhile (\<lambda>x. ?r < revno (snd x)) (rev (entries st))"
  have sinv: "store_inv st" using inv by (simp add: mgr_inv_def st_def)
  have rc: "\<And>x. x \<in> set (entries st) \<Longrightarrow> refCount (snd x) = holders ?ws (snd x)"
    using inv by (simp add: mgr_inv_def st_def)
  have ok: "\<And>x. x \<in> set (entries st) \<Longrightarrow> entry_ok ?L (snd x)"
    using sinv by (simp add: store_inv_def)
  have wt_ok: "?r \<le> ?L" using inv w by (auto simp: mgr_inv_def wt_def st_def)
  note es = newer_entries [OF sinv, of ?r]
  have nofail: "\<not> (\<exists>x \<in> set ?es. seen_fails ?r (snd x))"
  proof
    assume "\<exists>x \<in> set ?es. seen_fails ?r (snd x)"
    then obtain x where x: "x \<in> set (entries st)" "?r < revno (snd x)" "seen_fails ?r (snd x)"
      using es(3) by auto
    then have "counts wt (snd x)" using live by (auto simp: counts_def seen_fails_def wt_def)
    then have "1 \<le> holders ?ws (snd x)" using w holders_pos by (simp add: wt_def)
    with rc [OF x(1)] x(3) show False by (simp add: seen_fails_def)
  qed
  have seen_eq: "seen ?r st = Some (put_all (\<lambda>k e. seen_res ?r e) ?es st)"
    using foreach_entry_local [OF seen_step_local es(1) es(2)] nofail by (simp add: seen_def)
  let ?st' = "put_all (\<lambda>k e. seen_res ?r e) ?es st"
  have "\<forall>x \<in> set ?es. outcome_ok (snd x) (seen_res ?r (snd x))"
  proof
    fix x assume x: "x \<in> set ?es"
    then have xe: "x \<in> set (entries st)" using es(3) by auto
    have "\<not> seen_fails ?r (snd x)" using nofail x by auto
    then show "outcome_ok (snd x) (seen_res ?r (snd x))"
      using ok [OF xe]
      by (auto simp: outcome_ok_def seen_res_def dec_res_def seen_fails_def entry_ok_def Let_def)
  qed
  then have sinv': "store_inv ?st'"
    using store_inv_put_all [OF sinv es(1) es(2), where res = "\<lambda>k. seen_res ?r"] by simp
  have ent: "\<And>k. entities ?st' k = (case map_of ?es k of None \<Rightarrow> entities st k | Some e \<Rightarrow> seen_res ?r e)"
    using entities_put_all [OF es(1)] by simp
  have "\<forall>x \<in> set (entries ?st'). refCount (snd x) = holders ?ws' (snd x)"
  proof
    fix x assume x': "x \<in> set (entries ?st')"
    then have at': "entities ?st' (fst x) = Some (snd x)" using store_inv_entries_iff [OF sinv'] by blast
    show "refCount (snd x) = holders ?ws' (snd x)"
    proof (cases "map_of ?es (fst x)")
      case None
      then have xe: "x \<in> set (entries st)"
        using at' ent store_inv_entries_iff [OF sinv] by simp
      then have "\<not> ?r < revno (snd x)"
        using None es(3) by (force simp: map_of_eq_None_iff)
      then have "counts (wt\<lparr>w_revno := ?L\<rparr>) (snd x) = counts wt (snd x)"
        using ok [OF xe] live wt_ok by (auto simp: counts_def entry_ok_def wt_def)
      then show ?thesis
        using rc [OF xe] holders_update [OF w, of "wt\<lparr>w_revno := ?L\<rparr>" "snd x"] by (simp add: wt_def)
    next
      case (Some e0)
      then have in_es: "(fst x, e0) \<in> set ?es" by (rule map_of_SomeD)
      then have e0: "(fst x, e0) \<in> set (entries st)" "?r < revno e0" using es(3) by auto
      have res: "seen_res ?r e0 = Some (snd x)"
        using at' ent Some by simp
      have "snd x = e0\<lparr>refCount := refCount e0 - (if counts wt e0 then 1 else 0)
                          + (if counts (wt\<lparr>w_revno := ?L\<rparr>) e0 then 1 else 0)\<rparr>"
        using ok [OF e0(1)] e0(2) live res by (intro seen_res_counts) (auto simp: entry_ok_def wt_def)
      then show ?thesis
        using rc [OF e0(1)] holders_update [OF w, of "wt\<lparr>w_revno := ?L\<rparr>" e0] by (simp add: wt_def)
    qed
  qed
  then show ?thesis using seen_eq sinv' by simp
qed

lemma respond_one_inv:
  assumes inv: "mgr_inv sm"
  shows "\<exists>sm'. respond_one w sm = Some sm' \<and> mgr_inv sm'"
proof (cases "sm_waiting sm w")
  case Nil
  with inv show ?thesis by (simp add: respond_one_def)
next
  case (Cons r rest)
  then have w: "w < length (sm_watchers sm)" and live: "\<not> w_stopped (sm_watchers sm ! w)"
    using inv by (auto simp: mgr_inv_def)
  let ?wt = "sm_watchers sm ! w" and ?st = "sm_all sm"
  show ?thesis
  proof (cases "w_revno ?wt < latestRevno ?st")
    case False
    with Cons inv show ?thesis by (simp add: respond_one_def Let_def)
  next
    case True
    obtain st' where seen: "seen (w_revno ?wt) ?st = Some st'" and sinv': "store_inv st'"
      and lat: "latestRevno st' = latestRevno ?st"
      and rc: "\<forall>x \<in> set (entries st'). refCount (snd x) =
                 holders ((sm_watchers sm)[w := ?wt\<lparr>w_revno := latestRevno ?st\<rparr>]) (snd x)"
      using seen_keeps_counts [OF inv w live] by blast
    let ?sm' = "sm\<lparr>sm_all := st',
                   sm_watchers := (sm_watchers sm)[w := ?wt\<lparr>w_revno := latestRevno ?st\<rparr>],
                   sm_waiting := (sm_waiting sm)(w := rest),
                   sm_replies := sm_replies sm @ [(w, r, Reply True (ChangesSince (w_revno ?wt) ?st))]\<rparr>"
    have step: "respond_one w sm = Some ?sm'"
      using Cons True seen by (simp add: respond_one_def Let_def)
    have revs: "\<forall>v \<in> set (sm_watchers ?sm'). 0 \<le> w_revno v \<and> w_revno v \<le> latestRevno (sm_all ?sm')"
    proof
      fix v assume "v \<in> set (sm_watchers ?sm')"
      then have "v \<in> set (sm_watchers sm) \<or> v = ?wt\<lparr>w_revno := latestRevno ?st\<rparr>"
        using set_update_subset_insert by fastforce
      then show "0 \<le> w_revno v \<and> w_revno v \<le> latestRevno (sm_all ?sm')"
        using inv lat by (auto simp: mgr_inv_def store_inv_def)
    qed
    have waits: "\<forall>v. sm_waiting ?sm' v \<noteq> [] \<longrightarrow>
                   v < length (sm_watchers ?sm') \<and> \<not> w_stopped (sm_watchers ?sm' ! v)"
      using inv live w by (auto simp: mgr_inv_def nth_list_update)
    have "mgr_inv ?sm'" using sinv' rc revs waits by (simp add: mgr_inv_def)
    with step show ?thesis by blast
  qed
qed

lemma respond_loop_inv:
  "mgr_inv sm \<Longrightarrow> \<exists>sm'. respond_loop ws sm = Some sm' \<and> mgr_inv sm'"
proof (induction ws arbitrary: sm)
  case Nil
  then show ?case by simp
next
  case (Cons w ws)
  obtain sm1 where "respond_one w sm = Some sm1" and "mgr_inv sm1"
    using respond_one_inv [OF Cons.prems] by blast
  with Cons.IH show ?case by simp
qed

lemma respond_inv:
  "mgr_inv sm \<Longrightarrow> \<exists>sm'. respond sm = Some sm' \<and> mgr_inv sm'"
  unfolding respond_def by (rule respond_loop_inv)

subsection \<open>handle keeps the invariant\<close>

lemma leave_res_counts:
  assumes "\<not> w_stopped wt" and "w_revno wt = r" and "leave_res r e = Some e'"
  shows "e' = e\<lparr>refCount := refCount e - (if counts wt e then 1 else 0)
                                       + (if counts (wt\<lparr>w_stopped := True\<rparr>) e then 1 else 0)\<rparr>"
  using assms by (auto simp: leave_res_def dec_res_def counts_def Let_def split: if_splits)

lemma leave_keeps_counts:
  assumes inv: "mgr_inv sm" and w: "w < length (sm_watchers sm)"
    and live: "\<not> w_stopped (sm_watchers sm ! w)"
  defines "wt \<equiv> sm_watchers sm ! w" and "st \<equiv> sm_all sm"
  shows "\<exists>st'. leave wt st = Some st' \<and> store_inv st' \<and> latestRevno st' = latestRevno st
     \<and> (\<forall>x \<in> set (entries st'). refCount (snd x) =
           holders ((sm_watchers sm)[w := wt\<lparr>w_stopped := True\<rparr>]) (snd x))"
proof -
  let ?r = "w_revno wt" and ?ws = "sm_watchers sm"
  let ?ws' = "?ws[w := wt\<lparr>w_stopped := True\<rparr>]"
  have sinv: "store_inv st" using inv by (simp add: mgr_inv_def st_def)
  have rc: "\<And>x. x \<in> set (entries st) \<Longrightarrow> refCount (snd x) = holders ?ws (snd x)"
    using inv by (simp add: mgr_inv_def st_def)
  have ok: "\<And>x. x \<in> set (entries st) \<Longrightarrow> entry_ok (latestRevno st) (snd x)"
    using sinv by (simp add: store_inv_def)
  have same: "holders ?ws' e = holders ?ws e - (if counts wt e then 1 else 0)" for e
  proof -
    have "\<not> counts (wt\<lparr>w_stopped := True\<rparr>) e" by (simp add: counts_def)
    then show ?thesis using holders_update [OF w, of "wt\<lparr>w_stopped := True\<rparr>" e] by (simp add: wt_def)
  qed
  show ?thesis
  proof (cases "0 < ?r")
    case False
    have nocount: "\<not> counts wt (snd x)" if "x \<in> set (entries st)" for x
      using False ok [OF that] by (auto simp: counts_def entry_ok_def)
    have "refCount (snd x) = holders ?ws' (snd x)" if "x \<in> set (entries st)" for x
      using rc [OF that] same [of "snd x"] nocount [OF that] by simp
    then have "\<forall>x \<in> set (entries st). refCount (snd x) = holders ?ws' (snd x)" by blast
    then show ?thesis using False sinv by (simp add: leave_def)
  next
    case True
    let ?es = "rev (entries st)"
    have d: "distinct (map fst ?es)" using store_inv_distinct_keys [OF sinv] by (simp add: rev_map [symmetric])
    have at: "\<forall>x \<in> set ?es. entities st (fst x) = Some (snd x)"
      using store_inv_entries_iff [OF sinv] by simp
    have nofail: "\<not> (\<exists>x \<in> set ?es. leave_fails ?r (snd x))"
    proof
      assume "\<exists>x \<in> set ?es. leave_fails ?r (snd x)"
      then obtain x where x: "x \<in> set (entries st)" "leave_fails ?r (snd x)" by auto
      then have "counts wt (snd x)" using live by (auto simp: counts_def leave_fails_def wt_def)
      then have "1 \<le> holders ?ws (snd x)" using w holders_pos by (simp add: wt_def)
      with rc [OF x(1)] x(2) show False by (simp add: leave_fails_def)
    qed
    have leave_eq: "leave wt st = Some (put_all (\<lambda>k. leave_res ?r) ?es st)"
      using foreach_entry_local [OF leave_step_local d at] nofail True by (simp add: leave_def)
    let ?st' = "put_all (\<lambda>k. leave_res ?r) ?es st"
    have "\<forall>x \<in> set ?es. outcome_ok (snd x) (leave_res ?r (snd x))"
    proof
      fix x assume x: "x \<in> set ?es"
      have "\<not> leave_fails ?r (snd x)" using nofail x by auto
      then show "outcome_ok (snd x) (leave_res ?r (snd x))"
        using ok x
        by (auto simp: outcome_ok_def leave_res_def dec_res_def leave_fails_def entry_ok_def Let_def)
    qed
    then have sinv': "store_inv ?st'"
      using store_inv_put_all [OF sinv d at, where res = "\<lambda>k. leave_res ?r"] by simp
    have ent: "\<And>k. entities ?st' k = (case map_of ?es k of None \<Rightarrow> entities st k | Some e \<Rightarrow> leave_res ?r e)"
      using entities_put_all [OF d] by simp
    have "\<forall>x \<in> set (entries ?st'). refCount (snd x) = holders ?ws' (snd x)"
    proof
      fix x assume x': "x \<in> set (entries ?st')"
      then have at': "entities ?st' (fst x) = Some (snd x)" using store_inv_entries_iff [OF sinv'] by blast
      show "refCount (snd x) = holders ?ws' (snd x)"
      proof (cases "map_of ?es (fst x)")
        case None
        then have "x \<in> set (entries st)"
          using at' ent store_inv_entries_iff [OF sinv] by simp
        with None show ?thesis by (force simp: map_of_eq_None_iff)
      next
        case (Some e0)
        then have e0: "(fst x, e0) \<in> set (entries st)" using map_of_SomeD by fastforce
        have "leave_res ?r e0 = Some (snd x)" using at' ent Some by simp
        then have sx: "snd x = e0\<lparr>refCount := refCount e0 - (if counts wt e0 then 1 else 0)
                             + (if counts (wt\<lparr>w_stopped := True\<rparr>) e0 then 1 else 0)\<rparr>"
          using live by (intro leave_res_counts) (auto simp: wt_def)
        have "refCount (snd x) = holders ?ws e0 - (if counts wt e0 then 1 else 0)"
          using rc [OF e0] sx by (simp add: counts_def)
        also have "\<dots> = holders ?ws' e0" using same [of e0] by simp
        also have "\<dots> = holders ?ws' (snd x)" using sx by simp
        finally show ?thesis .
      qed
    qed
    then show ?thesis using leave_eq sinv' by simp
  qed
qed

lemma handle_inv:
  assumes inv: "mgr_inv sm" and valid: "w < length (sm_watchers sm)"
    and req: "req = NextReq w r \<or> req = StopReq w"
  shows "\<exists>sm'. handle req sm = Some sm' \<and> mgr_inv sm'"
proof (cases "w_stopped (sm_watchers sm ! w)")
  case True
  with req inv show ?thesis by (auto simp: handle_def mgr_inv_def)
next
  case False
  show ?thesis
  proof (cases "req = StopReq w")
    case True
    let ?wt = "sm_watchers sm ! w"
    obtain st' where lv: "leave ?wt (sm_all sm) = Some st'" and sinv': "store_inv st'"
      and lat: "latestRevno st' = latestRevno (sm_all sm)"
      and rc: "\<forall>x \<in> set (entries st'). refCount (snd x) =
                 holders ((sm_watchers sm)[w := ?wt\<lparr>w_stopped := True\<rparr>]) (snd x)"
      using leave_keeps_counts [OF inv valid False] by blast
    let ?sm' = "sm\<lparr>sm_all := st',
                   sm_watchers := (sm_watchers sm)[w := ?wt\<lparr>w_stopped := True\<rparr>],
                   sm_waiting := (sm_waiting sm)(w := []),
                   sm_replies := sm_replies sm @ map (\<lambda>r. (w, r, Reply False [])) (sm_waiting sm w)\<rparr>"
    have step: "handle req sm = Some ?sm'" using True False lv by (simp add: handle_def)
    have revs: "\<forall>v \<in> set (sm_watchers ?sm'). 0 \<le> w_revno v \<and> w_revno v \<le> latestRevno (sm_all ?sm')"
    proof
      fix v assume "v \<in> set (sm_watchers ?sm')"
      then have "v \<in> set (sm_watchers sm) \<or> v = ?wt\<lparr>w_stopped := True\<rparr>"
        using set_update_subset_insert by fastforce
      then show "0 \<le> w_revno v \<and> w_revno v \<le> latestRevno (sm_all ?sm')"
        using inv lat valid by (auto simp: mgr_inv_def)
    qed
    have waits: "\<forall>v. sm_waiting ?sm' v \<noteq> [] \<longrightarrow>
                   v < length (sm_watchers ?sm') \<and> \<not> w_stopped (sm_watchers ?sm' ! v)"
      using inv by (auto simp: mgr_inv_def nth_list_update)
    have "mgr_inv ?sm'" using sinv' rc revs waits by (simp add: mgr_inv_def)
    with step show ?thesis by blast
  next
    case notstop: False
    then have "req = NextReq w r" using req by blast
    with False inv valid show ?thesis by (auto simp: handle_def mgr_inv_def)
  qed
qed

subsection \<open>Store changes and new watchers keep the invariant\<close>

text \<open>
  A change from the backing is an \<open>Update\<close> of the manager's store. Every such change
  keeps the invariant except one the specification does not describe: new info for an
  entity whose tombstone is still in the store (see \<open>Update\<close>).
\<close>

definition revives :: "('k, 'info) store \<Rightarrow> 'k \<Rightarrow> 'info option \<Rightarrow> bool" where
  "revives st k v \<longleftrightarrow> tombstone st k \<and> v \<noteq> None"

lemma live_Update_no_revive:
  assumes "\<not> revives st k v"
  shows "live (Update k v st) = (live st)(k := v)"
  using assms
  by (auto simp: live_def tombstone_def revives_def Update_def store_defs Let_def fun_eq_iff
      split: option.splits if_splits)

lemma Update_entry_cases:
  assumes "entities (Update k v st) k = Some e'"
  shows "(entities st k = None \<and> v = Some (info e') \<and> e' = \<lparr>creationRevno = latestRevno st + 1,
            revno = latestRevno st + 1, refCount = 0, removed = False, info = info e'\<rparr>)
       \<or> (\<exists>e. entities st k = Some e \<and> removed e \<and> v = None \<and> e' = e)
       \<or> (\<exists>e. entities st k = Some e \<and> \<not> removed e \<and> v = None \<and> refCount e \<noteq> 0
              \<and> e' = e\<lparr>revno := latestRevno st + 1, removed := True\<rparr>)
       \<or> (\<exists>e i. entities st k = Some e \<and> v = Some i \<and> e' = e\<lparr>revno := latestRevno st + 1, info := i\<rparr>)"
  using assms by (auto simp: Update_def store_defs Let_def split: option.splits if_splits)

lemma mgr_inv_Update:
  assumes inv: "mgr_inv sm" and ok: "\<not> revives (sm_all sm) k v"
  shows "mgr_inv (sm\<lparr>sm_all := Update k v (sm_all sm)\<rparr>)"
proof -
  let ?st = "sm_all sm" and ?ws = "sm_watchers sm"
  let ?st' = "Update k v ?st" and ?L = "latestRevno (sm_all sm)"
  have sinv: "store_inv ?st" using inv by (simp add: mgr_inv_def)
  have sinv': "store_inv ?st'" using sinv by (rule store_inv_Update)
  have rc: "\<And>x. x \<in> set (entries ?st) \<Longrightarrow> refCount (snd x) = holders ?ws (snd x)"
    using inv by (simp add: mgr_inv_def)
  have wl: "\<And>w. w \<in> set ?ws \<Longrightarrow> w_revno w \<le> ?L" using inv by (simp add: mgr_inv_def)
  have up: "?L \<le> latestRevno ?st'" by (rule conjunct1 [OF Update_revision_step])
  have "refCount (snd x) = holders ?ws (snd x)" if x: "x \<in> set (entries ?st')" for x
  proof -
    have at': "entities ?st' (fst x) = Some (snd x)" using x store_inv_entries_iff [OF sinv'] by blast
    show ?thesis
    proof (cases "fst x = k")
      case False
      then have "x \<in> set (entries ?st)"
        using at' entities_Update_other store_inv_entries_iff [OF sinv] by metis
      then show ?thesis by (rule rc)
    next
      case True
      with at' have cases: "entities ?st' k = Some (snd x)" by simp
      have same_counts: "refCount (snd x) = holders ?ws (snd x)"
        if e: "entities ?st k = Some e" and c: "\<forall>w \<in> set ?ws. counts w (snd x) = counts w e"
          and r: "refCount (snd x) = refCount e" for e
      proof -
        have "(k, e) \<in> set (entries ?st)" using e store_inv_entries_iff [OF sinv] by simp
        then have "refCount e = holders ?ws e" using rc by fastforce
        moreover have "holders ?ws (snd x) = holders ?ws e"
          unfolding holders_def using c by (metis filter_cong)
        ultimately show ?thesis using r by simp
      qed
      from Update_entry_cases [OF cases] show ?thesis
      proof (elim disjE exE conjE)
        assume eqx: "snd x = \<lparr>creationRevno = ?L + 1, revno = ?L + 1,
                  refCount = 0, removed = False, info = info (snd x)\<rparr>"
        have cr: "creationRevno (snd x) = ?L + 1" and rz: "refCount (snd x) = 0"
          using arg_cong [OF eqx, of creationRevno] arg_cong [OF eqx, of refCount] by simp_all
        have "\<forall>w \<in> set ?ws. \<not> counts w (snd x)" using wl cr by (fastforce simp: counts_def)
        then show ?thesis using rz by (simp add: holders_def filter_empty_conv)
      next
        fix e assume "entities ?st k = Some e" "snd x = e"
        then show ?thesis using same_counts by simp
      next
        fix e assume e: "entities ?st k = Some e" "\<not> removed e"
          and sx: "snd x = e\<lparr>revno := ?L + 1, removed := True\<rparr>"
        have "\<forall>w \<in> set ?ws. counts w (snd x) = counts w e"
          using wl e sx by (fastforce simp: counts_def)
        then show ?thesis using same_counts [OF e(1)] sx by simp
      next
        fix e i assume e: "entities ?st k = Some e" "v = Some i"
          and sx: "snd x = e\<lparr>revno := ?L + 1, info := i\<rparr>"
        have "\<not> removed e" using ok e by (simp add: revives_def tombstone_def)
        then have "\<forall>w \<in> set ?ws. counts w (snd x) = counts w e" using sx by (simp add: counts_def)
        then show ?thesis using same_counts [OF e(1)] sx by simp
      qed
    qed
  qed
  then show ?thesis
    using inv sinv' up by (fastforce simp: mgr_inv_def)
qed

lemma mgr_inv_add_watcher:
  assumes inv: "mgr_inv sm"
  shows "mgr_inv (add_watcher sm)"
proof -
  have sinv: "store_inv (sm_all sm)" using inv by (simp add: mgr_inv_def)
  have "\<not> counts new_watcher (snd x)" if "x \<in> set (entries (sm_all sm))" for x
    using sinv that by (auto simp: store_inv_def entry_ok_def counts_def new_watcher_def)
  then have "\<forall>x \<in> set (entries (sm_all sm)). holders (sm_watchers sm @ [new_watcher]) (snd x)
               = holders (sm_watchers sm) (snd x)"
    by (simp add: holders_def)
  then show ?thesis
    using inv sinv by (auto simp: mgr_inv_def add_watcher_def new_watcher_def store_inv_def nth_append)
qed

subsection \<open>Which requests respond serves\<close>

lemma foreach_entry_latestRevno:
  assumes "\<And>k e st st'. f k e st = Some st' \<Longrightarrow> latestRevno st' = latestRevno st"
  shows "foreach_entry f es st = Some st' \<Longrightarrow> latestRevno st' = latestRevno st"
proof (induction es arbitrary: st)
  case Nil
  then show ?case by simp
next
  case (Cons x es)
  then show ?case by (cases x) (auto split: option.splits dest: assms)
qed

lemma seen_latestRevno: "seen r st = Some st' \<Longrightarrow> latestRevno st' = latestRevno st"
  unfolding seen_def
  by (rule foreach_entry_latestRevno)
     (auto simp: seen_step_def decRef_def store_defs Let_def split: if_splits)

lemma respond_one_other:
  assumes "respond_one j sm = Some sm'" and "i \<noteq> j"
  shows "sm_waiting sm' i = sm_waiting sm i \<and> sm_watchers sm' ! i = sm_watchers sm ! i
         \<and> latestRevno (sm_all sm') = latestRevno (sm_all sm) \<and> set (sm_replies sm) \<subseteq> set (sm_replies sm')"
  using assms seen_latestRevno
  by (auto simp: respond_one_def Let_def split: list.splits if_splits option.splits)

lemma respond_one_served:
  assumes "respond_one i sm = Some sm'" and "sm_waiting sm i = r # rest"
    and "w_revno (sm_watchers sm ! i) < latestRevno (sm_all sm)"
  shows "(i, r, Reply True (ChangesSince (w_revno (sm_watchers sm ! i)) (sm_all sm))) \<in> set (sm_replies sm')
         \<and> sm_waiting sm' i = rest"
  using assms by (auto simp: respond_one_def Let_def split: option.splits)

lemma respond_loop_other:
  "respond_loop js sm = Some sm' \<Longrightarrow> i \<notin> set js \<Longrightarrow>
     sm_waiting sm' i = sm_waiting sm i \<and> set (sm_replies sm) \<subseteq> set (sm_replies sm')"
proof (induction js arbitrary: sm)
  case Nil
  then show ?case by simp
next
  case (Cons j js)
  obtain sm1 where r1: "respond_one j sm = Some sm1" and r: "respond_loop js sm1 = Some sm'"
    using Cons.prems(1) by (auto split: option.splits)
  have "i \<noteq> j" "i \<notin> set js" using Cons.prems(2) by auto
  then show ?case using respond_one_other [OF r1] Cons.IH [OF r] by auto
qed

lemma respond_loop_served:
  "respond_loop js sm = Some sm' \<Longrightarrow> distinct js \<Longrightarrow> i \<in> set js \<Longrightarrow> sm_waiting sm i = r # rest \<Longrightarrow>
     w_revno (sm_watchers sm ! i) < latestRevno (sm_all sm) \<Longrightarrow>
     (\<exists>ds. (i, r, Reply True ds) \<in> set (sm_replies sm')) \<and> sm_waiting sm' i = rest"
proof (induction js arbitrary: sm)
  case Nil
  then show ?case by simp
next
  case (Cons j js)
  obtain sm1 where r1: "respond_one j sm = Some sm1" and r: "respond_loop js sm1 = Some sm'"
    using Cons.prems(1) by (auto split: option.splits)
  show ?case
  proof (cases "i = j")
    case True
    then have "i \<notin> set js" using Cons.prems(2) by simp
    then show ?thesis using respond_one_served [OF r1 [unfolded True[symmetric]] Cons.prems(4,5)]
        respond_loop_other [OF r] by blast
  next
    case False
    then show ?thesis using respond_one_other [OF r1 False] Cons.IH [OF r] Cons.prems(2-5) by auto
  qed
qed

end
