(* ===== verification/Views.thy ===== *)
theory Views
  imports Manager
begin

text \<open>
  The client's view of the state, as the multiwatcher tests keep it
  (\<open>src/state/open.go\<close>, lines 856--908): \<open>watcherState\<close> maps each entity identifier
  to the last delta the watcher received for it; \<open>update\<close> applies a batch of deltas
  and panics when a removal arrives for an entity the view does not hold; \<open>check\<close>
  compares the view with the live entries of the store; \<open>deltaMap\<close> turns a batch into
  a map and panics when an entity is mentioned twice. The tests find an entity's
  identifier with \<open>idForInfo\<close>; here it is a parameter \<open>idf\<close>, instantiated by the
  test backing's \<open>idForInfo\<close>.

  The lemmas relate a view to the manager's store: \<open>view_ok\<close> says the view holds
  exactly the entities the watcher is counted for (spec invariant 4), with the info of
  every entry the watcher has caught up with. Applying the changes of one reply keeps
  that relation at the watcher's new revision, without a panic.
\<close>

type_synonym ('k, 'info) watcherState = "'k \<rightharpoonup> 'info delta"

fun watcherState_update ::
  "('info \<Rightarrow> 'k) \<Rightarrow> 'info delta list \<Rightarrow> ('k, 'info) watcherState \<Rightarrow> ('k, 'info) watcherState option" where
  "watcherState_update idf [] s = Some s"
| "watcherState_update idf (d # ds) s =
     (let k = idf (delta_entity d) in
      if delta_removed d then
        (if s k = None then None else watcherState_update idf ds (s(k := None)))
      else watcherState_update idf ds (s(k \<mapsto> d)))"

text \<open>\<open>check\<close>: the view equals the map built from the store's entries that are not removed.\<close>

definition current_entities :: "('k, 'info) store \<Rightarrow> ('k, 'info) watcherState" where
  "current_entities st k = (case entities st k of None \<Rightarrow> None
     | Some e \<Rightarrow> if removed e then None else Some \<lparr>delta_removed = False, delta_entity = info e\<rparr>)"

definition watcherState_check :: "('k, 'info) watcherState \<Rightarrow> ('k, 'info) store \<Rightarrow> bool" where
  "watcherState_check s current \<longleftrightarrow> s = current_entities current"

text \<open>\<open>deltaMap\<close>: a removal maps to \<open>nil\<close> (\<open>Some None\<close>), an entity mentioned twice panics.\<close>

fun deltaMap_acc ::
  "('info \<Rightarrow> 'k) \<Rightarrow> 'info delta list \<Rightarrow> ('k \<rightharpoonup> 'info option) \<Rightarrow> ('k \<rightharpoonup> 'info option) option" where
  "deltaMap_acc idf [] m = Some m"
| "deltaMap_acc idf (d # ds) m =
     (let k = idf (delta_entity d) in
      if m k \<noteq> None then None
      else deltaMap_acc idf ds (m(k \<mapsto> (if delta_removed d then None else Some (delta_entity d)))))"

definition deltaMap :: "('info \<Rightarrow> 'k) \<Rightarrow> 'info delta list \<Rightarrow> ('k \<rightharpoonup> 'info option) option" where
  "deltaMap idf ds = deltaMap_acc idf ds Map.empty"

subsection \<open>Views of a store\<close>

text \<open>Every entry is filed under the identifier of its info.\<close>

definition keyed :: "('info \<Rightarrow> 'k) \<Rightarrow> ('k, 'info) store \<Rightarrow> bool" where
  "keyed idf st \<longleftrightarrow> (\<forall>x \<in> set (entries st). idf (info (snd x)) = fst x)"

definition view_ok :: "watcher \<Rightarrow> ('k, 'info) watcherState \<Rightarrow> ('k, 'info) store \<Rightarrow> bool" where
  "view_ok w v st \<longleftrightarrow>
     (\<forall>k. (v k \<noteq> None) = (\<exists>e. entities st k = Some e \<and> counts w e))
     \<and> (\<forall>k e. entities st k = Some e \<longrightarrow> counts w e \<longrightarrow> revno e \<le> w_revno w \<longrightarrow> v k = Some (to_delta e))"

declare keyed_def [inv_defs] view_ok_def [inv_defs]

lemma keyed_entities:
  assumes "store_inv st" and "keyed idf st" and "entities st k = Some e"
  shows "idf (info e) = k"
  using assms store_inv_entries_iff [OF assms(1), of "(k, e)"] by (auto simp: keyed_def)

lemma entry_ok_entities:
  assumes "store_inv st" and "entities st k = Some e"
  shows "entry_ok (latestRevno st) e"
  using assms store_inv_entries_iff [OF assms(1), of "(k, e)"] by (auto simp: store_inv_def)

text \<open>A batch of deltas for distinct entities, in list order, overrides the view.\<close>

lemma watcherState_update_override:
  assumes "distinct (map fst xs)" and "\<forall>x \<in> set xs. idf (info (snd x)) = fst x"
    and "\<forall>x \<in> set xs. removed (snd x) \<longrightarrow> (visible_to r (snd x) \<longleftrightarrow> v (fst x) \<noteq> None)"
  shows "watcherState_update idf (map (to_delta \<circ> snd) (filter (\<lambda>x. visible_to r (snd x)) xs)) v =
           Some (\<lambda>k. case map_of xs k of None \<Rightarrow> v k
                      | Some e \<Rightarrow> if removed e then None else Some (to_delta e))"
  using assms
proof (induction xs arbitrary: v)
  case Nil
  then show ?case by simp
next
  case (Cons x xs)
  obtain k e where x: "x = (k, e)" by fastforce
  define v1 where "v1 = (if removed e then v(k := None) else v(k \<mapsto> to_delta e))"
  have kx: "k \<notin> fst ` set xs" and d: "distinct (map fst xs)" using Cons.prems(1) x by auto
  have id: "\<forall>y \<in> set xs. idf (info (snd y)) = fst y" and ide: "idf (info e) = k"
    using Cons.prems(2) x by auto
  have same: "v1 (fst y) = v (fst y)" if "y \<in> set xs" for y
    using that kx by (force simp: v1_def)
  have vis: "\<forall>y \<in> set xs. removed (snd y) \<longrightarrow> (visible_to r (snd y) \<longleftrightarrow> v1 (fst y) \<noteq> None)"
    using Cons.prems(3) same by auto
  note IH = Cons.IH [OF d id vis]
  have step: "watcherState_update idf (map (to_delta \<circ> snd) (filter (\<lambda>x. visible_to r (snd x)) (x # xs))) v
            = watcherState_update idf (map (to_delta \<circ> snd) (filter (\<lambda>x. visible_to r (snd x)) xs)) v1"
  proof (cases "removed e")
    case True
    show ?thesis
    proof (cases "visible_to r e")
      case vt: True
      then have "v k \<noteq> None" using Cons.prems(3) x True by auto
      then show ?thesis using True vt ide by (auto simp: x v1_def to_delta_def)
    next
      case False
      then have "v k = None" using Cons.prems(3) x True by auto
      then have "v1 = v" using True by (auto simp: v1_def)
      then show ?thesis using False x by simp
    qed
  next
    case False
    then have "visible_to r e" by (simp add: visible_to_def)
    then show ?thesis using False ide by (simp add: x v1_def to_delta_def)
  qed
  have "map_of xs k = None" using kx by (simp add: map_of_eq_None_iff)
  then have "(\<lambda>k'. case map_of xs k' of None \<Rightarrow> v1 k'
                   | Some e' \<Rightarrow> if removed e' then None else Some (to_delta e'))
           = (\<lambda>k'. case map_of (x # xs) k' of None \<Rightarrow> v k'
                   | Some e' \<Rightarrow> if removed e' then None else Some (to_delta e'))"
    by (auto simp: x v1_def fun_eq_iff split: option.splits)
  then show ?case by (simp only: step IH)
qed

text \<open>
  The changes since a watcher's revision, applied to a view that is right for that
  revision, give a view that is right for the store's latest revision.
\<close>

lemma changes_view:
  assumes sinv: "store_inv st" and kd: "keyed idf st" and vw: "view_ok wt v st"
    and live: "\<not> w_stopped wt" and le: "w_revno wt \<le> latestRevno st"
  shows "\<exists>v'. watcherState_update idf (ChangesSince (w_revno wt) st) v = Some v'
              \<and> view_ok (wt\<lparr>w_revno := latestRevno st\<rparr>) v' st"
proof -
  let ?r = "w_revno wt" and ?L = "latestRevno st"
  let ?xs = "filter (\<lambda>x. ?r < revno (snd x)) (entries st)"
  let ?v' = "\<lambda>k. case map_of ?xs k of None \<Rightarrow> v k | Some e \<Rightarrow> if removed e then None else Some (to_delta e)"
  have cs: "ChangesSince ?r st = map (to_delta \<circ> snd) (filter (\<lambda>x. visible_to ?r (snd x)) ?xs)"
    using rev_takeWhile_rev_sorted [OF store_inv_sorted [OF sinv]] by (simp add: ChangesSince_def)
  have inxs: "x \<in> set ?xs \<longleftrightarrow> entities st (fst x) = Some (snd x) \<and> ?r < revno (snd x)" for x
    using store_inv_entries_iff [OF sinv] by auto
  have d: "distinct (map fst ?xs)"
    using store_inv_distinct_keys [OF sinv] by (simp add: distinct_map_filter)
  have id: "\<forall>x \<in> set ?xs. idf (info (snd x)) = fst x" using kd by (auto simp: keyed_def)
  have cnt: "(v k \<noteq> None) = (\<exists>e. entities st k = Some e \<and> counts wt e)" for k
    using vw by (simp add: view_ok_def)
  have vis: "\<forall>x \<in> set ?xs. removed (snd x) \<longrightarrow> (visible_to ?r (snd x) \<longleftrightarrow> v (fst x) \<noteq> None)"
    using cnt inxs live by (auto simp: visible_to_def counts_def)
  have upd: "watcherState_update idf (ChangesSince ?r st) v = Some ?v'"
    unfolding cs by (rule watcherState_update_override [OF d id vis])
  have mo: "map_of ?xs k = (case entities st k of None \<Rightarrow> None
              | Some e \<Rightarrow> if ?r < revno e then Some e else None)" for k
  proof (cases "map_of ?xs k")
    case None
    then have nk: "\<forall>e. (k, e) \<notin> set ?xs" by (simp add: map_of_eq_None_iff image_iff)
    show ?thesis
    proof (cases "entities st k")
      case (Some e)
      then have "\<not> ?r < revno e" using nk inxs [of "(k, e)"] by auto
      then show ?thesis using None Some by simp
    qed (simp add: None)
  next
    case (Some e)
    then have "(k, e) \<in> set ?xs" by (rule map_of_SomeD)
    then show ?thesis using Some inxs [of "(k, e)"] by simp
  qed
  have ok: "entry_ok ?L e" if "entities st k = Some e" for k e
    using entry_ok_entities [OF sinv that] .
  have "view_ok (wt\<lparr>w_revno := ?L\<rparr>) ?v' st"
    unfolding view_ok_def
  proof (intro conjI allI impI)
    fix k
    show "(?v' k \<noteq> None) = (\<exists>e. entities st k = Some e \<and> counts (wt\<lparr>w_revno := ?L\<rparr>) e)"
    proof (cases "entities st k")
      case None
      then show ?thesis using cnt [of k] mo [of k] by simp
    next
      case (Some e)
      then show ?thesis
        using cnt [of k] mo [of k] ok [OF Some] le live by (auto simp: counts_def entry_ok_def)
    qed
  next
    fix k e
    assume e: "entities st k = Some e" and c: "counts (wt\<lparr>w_revno := ?L\<rparr>) e"
      and "revno e \<le> w_revno (wt\<lparr>w_revno := ?L\<rparr>)"
    show "?v' k = Some (to_delta e)"
    proof (cases "?r < revno e")
      case True
      then show ?thesis using e c mo [of k] ok [OF e] by (simp add: counts_def entry_ok_def)
    next
      case False
      then have "counts wt e" using c ok [OF e] by (auto simp: counts_def entry_ok_def)
      then show ?thesis using vw e False mo [of k] by (simp add: view_ok_def)
    qed
  qed
  with upd show ?thesis by blast
qed

text \<open>A view that is right at the latest revision passes the test's \<open>check\<close>.\<close>

lemma view_ok_check:
  assumes sinv: "store_inv st" and vw: "view_ok w v st" and live: "\<not> w_stopped w"
    and cur: "w_revno w = latestRevno st"
  shows "watcherState_check v st"
  unfolding watcherState_check_def
proof
  fix k
  have vk: "(v k \<noteq> None) = (\<exists>e. entities st k = Some e \<and> counts w e)"
    using vw by (simp add: view_ok_def)
  show "v k = current_entities st k"
  proof (cases "entities st k")
    case None
    then show ?thesis using vk by (simp add: current_entities_def)
  next
    case (Some e)
    have ok: "entry_ok (latestRevno st) e" by (rule entry_ok_entities [OF sinv Some])
    show ?thesis
    proof (cases "removed e")
      case True
      then have "\<not> counts w e" using ok cur by (simp add: counts_def entry_ok_def)
      then show ?thesis using vk Some True by (simp add: current_entities_def)
    next
      case False
      then have "counts w e" "revno e \<le> w_revno w" using ok cur live by (auto simp: counts_def entry_ok_def)
      then show ?thesis using vw Some False by (simp add: view_ok_def current_entities_def to_delta_def)
    qed
  qed
qed

text \<open>
  A store change that only adjusts reference counts, or drops entries the watcher is
  not counted for, keeps the watcher's view right.
\<close>

definition refcount_change :: "watcher \<Rightarrow> ('k, 'info) store \<Rightarrow> ('k, 'info) store \<Rightarrow> bool" where
  "refcount_change w st st' \<longleftrightarrow>
     (\<forall>k. case entities st' k of
            None \<Rightarrow> (\<forall>e. entities st k = Some e \<longrightarrow> \<not> counts w e)
          | Some e' \<Rightarrow> (\<exists>e. entities st k = Some e \<and> e' = e\<lparr>refCount := refCount e'\<rparr>))"

lemma view_ok_transfer:
  assumes vw: "view_ok w v st" and rc: "refcount_change w st st'"
  shows "view_ok w v st'"
  unfolding view_ok_def
proof (intro conjI allI impI)
  fix k
  have v: "(v k \<noteq> None) = (\<exists>e. entities st k = Some e \<and> counts w e)"
    using vw by (simp add: view_ok_def)
  have r: "case entities st' k of None \<Rightarrow> (\<forall>e. entities st k = Some e \<longrightarrow> \<not> counts w e)
             | Some e' \<Rightarrow> (\<exists>e. entities st k = Some e \<and> e' = e\<lparr>refCount := refCount e'\<rparr>)"
    using rc by (simp add: refcount_change_def)
  show "(v k \<noteq> None) = (\<exists>e. entities st' k = Some e \<and> counts w e)"
  proof (cases "entities st' k")
    case None
    then show ?thesis using v r by auto
  next
    case (Some e')
    then obtain e where e: "entities st k = Some e" and eq: "e' = e\<lparr>refCount := refCount e'\<rparr>"
      using r by auto
    have "counts w e' = counts w e" by (subst eq) simp
    then show ?thesis using v Some e by auto
  qed
next
  fix k e'
  assume e': "entities st' k = Some e'" and c: "counts w e'" and r: "revno e' \<le> w_revno w"
  have "case entities st' k of None \<Rightarrow> (\<forall>e. entities st k = Some e \<longrightarrow> \<not> counts w e)
          | Some e' \<Rightarrow> (\<exists>e. entities st k = Some e \<and> e' = e\<lparr>refCount := refCount e'\<rparr>)"
    using rc by (simp add: refcount_change_def)
  then obtain e where e: "entities st k = Some e" and eq: "e' = e\<lparr>refCount := refCount e'\<rparr>"
    using e' by auto
  have "counts w e" "revno e \<le> w_revno w" "to_delta e' = to_delta e"
    using c r by (subst (asm) eq, simp, subst (asm) eq, simp, subst eq, simp add: to_delta_def)
  then show "v k = Some (to_delta e')" using vw e by (simp add: view_ok_def)
qed

lemma refcount_change_res:
  assumes st': "\<And>k. entities st' k = (case entities st k of None \<Rightarrow> None | Some e \<Rightarrow> res e)"
    and some: "\<And>k e e'. entities st k = Some e \<Longrightarrow> res e = Some e' \<Longrightarrow> e' = e\<lparr>refCount := refCount e'\<rparr>"
    and none: "\<And>k e. entities st k = Some e \<Longrightarrow> res e = None \<Longrightarrow> \<not> counts w e"
  shows "refcount_change w st st'"
  unfolding refcount_change_def
proof
  fix k
  show "case entities st' k of None \<Rightarrow> \<forall>e. entities st k = Some e \<longrightarrow> \<not> counts w e
          | Some e' \<Rightarrow> \<exists>e. entities st k = Some e \<and> e' = e\<lparr>refCount := refCount e'\<rparr>"
  proof (cases "entities st k")
    case None
    then show ?thesis using st' [of k] by simp
  next
    case (Some e)
    then show ?thesis using st' [of k] some [OF Some] none [OF Some] by (cases "res e") auto
  qed
qed

lemma refcount_change_refl: "refcount_change w st st"
  by (rule refcount_change_res [where res = Some]) (simp_all split: option.splits)

text \<open>Two watchers counted for an entry hold two references to it.\<close>

lemma holders_two:
  assumes "i < length ws" and "j < length ws" and "i \<noteq> j"
    and "counts (ws ! i) e" and "counts (ws ! j) e"
  shows "2 \<le> holders ws e"
proof -
  let ?x = "(ws ! i)\<lparr>w_stopped := True\<rparr>"
  have "counts (ws[i := ?x] ! j) e" using assms by simp
  then have "1 \<le> holders (ws[i := ?x]) e" using holders_pos [of j "ws[i := ?x]" e] assms by simp
  moreover have "holders (ws[i := ?x]) e = holders ws e - 1"
    using holders_update [OF assms(1), of ?x e] assms(4) by (simp add: counts_def)
  ultimately show ?thesis by simp
qed

lemma counted_alone:
  assumes inv: "mgr_inv sm" and e: "entities (sm_all sm) k = Some e" and rc: "refCount e = 1"
    and i: "i < length (sm_watchers sm)" and ci: "counts (sm_watchers sm ! i) e"
    and j: "j < length (sm_watchers sm)" and ij: "j \<noteq> i"
  shows "\<not> counts (sm_watchers sm ! j) e"
proof
  assume "counts (sm_watchers sm ! j) e"
  then have "2 \<le> holders (sm_watchers sm) e" using holders_two [OF i j] ij ci by simp
  moreover have "(k, e) \<in> set (entries (sm_all sm))"
    using e store_inv_entries_iff [of "sm_all sm"] inv by (simp add: mgr_inv_def)
  then have "refCount e = holders (sm_watchers sm) e" using inv by (auto simp: mgr_inv_def)
  ultimately show False using rc by simp
qed

subsection \<open>The entries the manager's walks change\<close>

lemma map_of_newer:
  assumes sinv: "store_inv st" and d: "distinct (map fst xs)"
    and xs: "set xs = {x \<in> set (entries st). r < revno (snd x)}"
  shows "map_of xs k = (case entities st k of None \<Rightarrow> None | Some e \<Rightarrow> if r < revno e then Some e else None)"
proof (cases "map_of xs k")
  case None
  then have nk: "\<forall>e. (k, e) \<notin> set xs" by (force simp: map_of_eq_None_iff)
  show ?thesis
  proof (cases "entities st k")
    case (Some e)
    then have "\<not> r < revno e" using nk xs store_inv_entries_iff [OF sinv, of "(k, e)"] by auto
    then show ?thesis using None Some by simp
  qed (simp add: None)
next
  case (Some e)
  then have "(k, e) \<in> set xs" by (rule map_of_SomeD)
  then show ?thesis using Some xs store_inv_entries_iff [OF sinv, of "(k, e)"] by simp
qed

lemma seen_entities:
  assumes sinv: "store_inv st" and s: "seen r st = Some st'"
  shows "entities st' k = (case entities st k of None \<Rightarrow> None
                             | Some e \<Rightarrow> if r < revno e then seen_res r e else Some e)"
proof -
  let ?es = "takeWhile (\<lambda>x. r < revno (snd x)) (rev (entries st))"
  note es = newer_entries [OF sinv, of r]
  have "st' = put_all (\<lambda>k e. seen_res r e) ?es st"
    using s foreach_entry_local [OF seen_step_local es(1) es(2)] by (simp add: seen_def split: if_splits)
  then have "entities st' k = (case map_of ?es k of None \<Rightarrow> entities st k | Some e \<Rightarrow> seen_res r e)"
    using entities_put_all [OF es(1)] by simp
  then show ?thesis using map_of_newer [OF sinv es(1) es(3), of k] by (simp split: option.splits)
qed

lemma seen_res_shape:
  shows "seen_res r e = Some e' \<Longrightarrow> e' = e\<lparr>refCount := refCount e'\<rparr>"
    and "seen_res r e = None \<Longrightarrow> removed e \<and> creationRevno e \<le> r \<and> refCount e = 1"
  by (auto simp: seen_res_def dec_res_def Let_def split: if_splits)

lemma leave_entities:
  assumes sinv: "store_inv st" and l: "leave w st = Some st'"
  shows "entities st' k = (case entities st k of None \<Rightarrow> None
                             | Some e \<Rightarrow> if 0 < w_revno w then leave_res (w_revno w) e else Some e)"
proof (cases "0 < w_revno w")
  case True
  have d: "distinct (map fst (rev (entries st)))"
    using store_inv_distinct_keys [OF sinv] by (simp add: rev_map [symmetric])
  have at: "\<forall>x \<in> set (rev (entries st)). entities st (fst x) = Some (snd x)"
    using store_inv_entries_iff [OF sinv] by simp
  have "st' = put_all (\<lambda>k e. leave_res (w_revno w) e) (rev (entries st)) st"
    using l True foreach_entry_local [OF leave_step_local d at]
    by (simp add: leave_def split: if_splits)
  then have "entities st' k = (case map_of (rev (entries st)) k of None \<Rightarrow> entities st k
                                | Some e \<Rightarrow> leave_res (w_revno w) e)"
    using entities_put_all [OF d] by simp
  moreover have "map_of (rev (entries st)) k = entities st k"
  proof (cases "entities st k")
    case None
    then have "k \<notin> fst ` set (rev (entries st))" using at by force
    then show ?thesis using None by (simp add: map_of_eq_None_iff)
  next
    case (Some e)
    then have "(k, e) \<in> set (rev (entries st))" using store_inv_entries_iff [OF sinv, of "(k, e)"] by simp
    then show ?thesis using Some map_of_is_SomeI [OF d] by simp
  qed
  ultimately show ?thesis using True by (simp split: option.splits)
next
  case False
  then show ?thesis using l by (simp add: leave_def split: option.splits)
qed

lemma leave_res_shape:
  shows "leave_res r e = Some e' \<Longrightarrow> e' = e\<lparr>refCount := refCount e'\<rparr>"
    and "leave_res r e = None \<Longrightarrow> removed e \<and> creationRevno e \<le> r \<and> \<not> revno e \<le> r \<and> refCount e = 1"
  by (auto simp: leave_res_def dec_res_def Let_def split: if_splits)

end
