(* ===== verification/System.thy ===== *)
theory System
  imports Views
begin

text \<open>
  The store manager together with its watchers' clients, as \<open>TestRespondResults\<close>
  (\<open>src/state/open.go\<close>, lines 564--652) drives them: store changes, new watchers,
  \<open>Next\<close> and \<open>Stop\<close> requests handled by the manager, and \<open>respond\<close>, after which every
  client that receives a reply applies its changes to its \<open>watcherState\<close>. The state
  pairs the manager with one view per watcher; every failure on the way (a failing
  \<open>decRef\<close>, a panic of \<open>watcherState.update\<close>, a request of an unknown watcher) is
  \<open>None\<close>. The reachable states are an inductive set; the theorems show that every
  step from a reachable state succeeds, that the reference counts stay exact, and
  that a client that was waiting sees the live entities of the store after
  \<open>respond\<close> (spec properties 8.2 and 8.3).
\<close>

record ('k, 'info) sys =
  sys_sm :: "('k, 'info) manager"
  sys_views :: "('k, 'info) watcherState list"

datatype ('k, 'info) sys_op =
    SysChange 'k "'info option"
  | SysWatch
  | SysNext nat nat
  | SysStop nat
  | SysRespond

text \<open>
  A client reads the replies sent to it: \<open>true\<close> carries changes it applies to its
  view; \<open>false\<close> (stopped) leaves the view as it is.
\<close>

fun client_receive ::
  "('info \<Rightarrow> 'k) \<Rightarrow> (nat \<times> nat \<times> 'info reply) list \<Rightarrow> ('k, 'info) watcherState list
   \<Rightarrow> ('k, 'info) watcherState list option" where
  "client_receive idf [] vs = Some vs"
| "client_receive idf ((w, r, Reply b ds) # rs) vs =
     (if b then (case watcherState_update idf ds (vs ! w) of
                   None \<Rightarrow> None
                 | Some v' \<Rightarrow> client_receive idf rs (vs[w := v']))
      else client_receive idf rs vs)"

definition new_replies :: "('k, 'info) manager \<Rightarrow> ('k, 'info) manager \<Rightarrow> (nat \<times> nat \<times> 'info reply) list" where
  "new_replies sm sm' = drop (length (sm_replies sm)) (sm_replies sm')"

text \<open>
  \<open>respond\<close> with its clients: each watcher's turn of the manager's loop, then the
  client reading what that turn sent. The clients do not act on the manager, so the
  manager's part is \<open>respond\<close> itself (lemma \<open>respond_clients_manager\<close>).
\<close>

fun respond_clients :: "('info \<Rightarrow> 'k) \<Rightarrow> nat list \<Rightarrow> ('k, 'info) sys \<Rightarrow> ('k, 'info) sys option" where
  "respond_clients idf [] s = Some s"
| "respond_clients idf (j # js) s =
     (case respond_one j (sys_sm s) of
        None \<Rightarrow> None
      | Some sm' \<Rightarrow>
          (case client_receive idf (new_replies (sys_sm s) sm') (sys_views s) of
             None \<Rightarrow> None
           | Some vs' \<Rightarrow> respond_clients idf js \<lparr>sys_sm = sm', sys_views = vs'\<rparr>))"

definition sys_init :: "('k, 'info) sys" where
  "sys_init = \<lparr>sys_sm = new_manager NewStore, sys_views = []\<rparr>"

fun sys_step :: "('info \<Rightarrow> 'k) \<Rightarrow> ('k, 'info) sys_op \<Rightarrow> ('k, 'info) sys \<Rightarrow> ('k, 'info) sys option" where
  "sys_step idf (SysChange k v) s =
     Some (s\<lparr>sys_sm := (sys_sm s)\<lparr>sm_all := Update k v (sm_all (sys_sm s))\<rparr>\<rparr>)"
| "sys_step idf SysWatch s =
     Some \<lparr>sys_sm = add_watcher (sys_sm s), sys_views = sys_views s @ [Map.empty]\<rparr>"
| "sys_step idf (SysNext w r) s =
     (if w < length (sm_watchers (sys_sm s))
      then map_option (\<lambda>sm'. s\<lparr>sys_sm := sm'\<rparr>) (handle (NextReq w r) (sys_sm s)) else None)"
| "sys_step idf (SysStop w) s =
     (if w < length (sm_watchers (sys_sm s))
      then map_option (\<lambda>sm'. s\<lparr>sys_sm := sm'\<rparr>) (handle (StopReq w) (sys_sm s)) else None)"
| "sys_step idf SysRespond s =
     respond_clients idf [0..<length (sm_watchers (sys_sm s))] s"

text \<open>
  The changes the backing may send: new info is filed under its own identifier, and
  does not arrive for an entity whose tombstone is still in the store (the case the
  specification leaves open; see the findings).
\<close>

definition change_ok :: "('info \<Rightarrow> 'k) \<Rightarrow> ('k, 'info) store \<Rightarrow> 'k \<Rightarrow> 'info option \<Rightarrow> bool" where
  "change_ok idf st k v \<longleftrightarrow> (case v of None \<Rightarrow> True | Some i \<Rightarrow> idf i = k \<and> \<not> tombstone st k)"

fun op_ok :: "('info \<Rightarrow> 'k) \<Rightarrow> ('k, 'info) sys_op \<Rightarrow> ('k, 'info) sys \<Rightarrow> bool" where
  "op_ok idf (SysChange k v) s = change_ok idf (sm_all (sys_sm s)) k v"
| "op_ok idf (SysNext w r) s = (w < length (sm_watchers (sys_sm s)))"
| "op_ok idf (SysStop w) s = (w < length (sm_watchers (sys_sm s)))"
| "op_ok idf _ s = True"

inductive_set reachable :: "('info \<Rightarrow> 'k) \<Rightarrow> ('k, 'info) sys set" for idf where
  init: "sys_init \<in> reachable idf"
| step: "s \<in> reachable idf \<Longrightarrow> op_ok idf op s \<Longrightarrow> sys_step idf op s = Some s' \<Longrightarrow> s' \<in> reachable idf"

subsection \<open>The invariant of the system\<close>

definition sys_inv :: "('info \<Rightarrow> 'k) \<Rightarrow> ('k, 'info) sys \<Rightarrow> bool" where
  "sys_inv idf s \<longleftrightarrow> mgr_inv (sys_sm s) \<and> keyed idf (sm_all (sys_sm s))
     \<and> length (sys_views s) = length (sm_watchers (sys_sm s))
     \<and> (\<forall>i < length (sys_views s). \<not> w_stopped (sm_watchers (sys_sm s) ! i) \<longrightarrow>
            view_ok (sm_watchers (sys_sm s) ! i) (sys_views s ! i) (sm_all (sys_sm s)))"

declare sys_inv_def [inv_defs]

lemma keyed_iff:
  assumes "store_inv st"
  shows "keyed idf st \<longleftrightarrow> (\<forall>k e. entities st k = Some e \<longrightarrow> idf (info e) = k)"
  unfolding keyed_def
proof
  assume h: "\<forall>x \<in> set (entries st). idf (info (snd x)) = fst x"
  show "\<forall>k e. entities st k = Some e \<longrightarrow> idf (info e) = k"
  proof (intro allI impI)
    fix k e assume "entities st k = Some e"
    then have "(k, e) \<in> set (entries st)" using store_inv_entries_iff [OF assms, of "(k, e)"] by simp
    then show "idf (info e) = k" using h by fastforce
  qed
next
  assume "\<forall>k e. entities st k = Some e \<longrightarrow> idf (info e) = k"
  then show "\<forall>x \<in> set (entries st). idf (info (snd x)) = fst x"
    using store_inv_entries_iff [OF assms] by blast
qed

lemma entities_Update_at:
  "entities (Update k v st) k =
     (case entities st k of
        None \<Rightarrow> map_option (\<lambda>i. \<lparr>creationRevno = latestRevno st + 1, revno = latestRevno st + 1,
                                   refCount = 0, removed = False, info = i\<rparr>) v
      | Some e \<Rightarrow> (case v of
                    None \<Rightarrow> if removed e then Some e else if refCount e = 0 then None
                            else Some (e\<lparr>revno := latestRevno st + 1, removed := True\<rparr>)
                  | Some i \<Rightarrow> Some (e\<lparr>revno := latestRevno st + 1, info := i\<rparr>)))"
  by (simp add: Update_def store_defs Let_def split: option.splits)

lemma keyed_Update:
  assumes sinv: "store_inv st" and kd: "keyed idf st" and ok: "change_ok idf st k v"
  shows "keyed idf (Update k v st)"
proof -
  have kd': "\<And>k e. entities st k = Some e \<Longrightarrow> idf (info e) = k" using kd keyed_iff [OF sinv] by blast
  have "idf (info e') = k'" if e': "entities (Update k v st) k' = Some e'" for k' e'
  proof (cases "k' = k")
    case True
    then show ?thesis using e' ok kd' [of k] entities_Update_at [of k v st]
      by (auto simp: change_ok_def split: option.splits if_splits)
  next
    case False
    then have "entities st k' = Some e'" using e' entities_Update_other [OF False, of v st] by simp
    then show ?thesis by (rule kd')
  qed
  then show ?thesis using keyed_iff [OF store_inv_Update [OF sinv]] by blast
qed

text \<open>A store change keeps the view of every watcher right.\<close>

lemma view_ok_Update:
  assumes inv: "mgr_inv sm" and ok: "\<not> revives (sm_all sm) k v"
    and w: "w \<in> set (sm_watchers sm)" and vw: "view_ok w vv (sm_all sm)"
  shows "view_ok w vv (Update k v (sm_all sm))"
proof -
  let ?st = "sm_all sm" and ?L = "latestRevno (sm_all sm)"
  have wl: "w_revno w \<le> ?L" using inv w by (simp add: mgr_inv_def)
  have sinv: "store_inv ?st" using inv by (simp add: mgr_inv_def)
  have vk: "(vv k' \<noteq> None) = (\<exists>e. entities ?st k' = Some e \<and> counts w e)" for k'
    using vw by (simp add: view_ok_def)
  have vd: "\<And>k' e. entities ?st k' = Some e \<Longrightarrow> counts w e \<Longrightarrow> revno e \<le> w_revno w \<Longrightarrow> vv k' = Some (to_delta e)"
    using vw by (simp add: view_ok_def)
  have rc0: "\<not> counts w e" if "entities ?st k = Some e" "refCount e = 0" for e
  proof
    assume c: "counts w e"
    have "(k, e) \<in> set (entries ?st)" using that store_inv_entries_iff [OF sinv, of "(k, e)"] by simp
    then have "refCount e = holders (sm_watchers sm) e" using inv by (auto simp: mgr_inv_def)
    moreover have "w \<in> set (filter (\<lambda>w. counts w e) (sm_watchers sm))" using w c by simp
    then have "0 < holders (sm_watchers sm) e" unfolding holders_def by (metis length_pos_if_in_set of_nat_0_less_iff)
    ultimately show False using that by simp
  qed
  show ?thesis
    unfolding view_ok_def
  proof (intro conjI allI impI)
    fix k'
    show "(vv k' \<noteq> None) = (\<exists>e. entities (Update k v ?st) k' = Some e \<and> counts w e)"
    proof (cases "k' = k")
      case False
      then show ?thesis using vk [of k'] entities_Update_other [OF False, of v ?st] by simp
    next
      case True
      show ?thesis
      proof (cases "entities ?st k")
        case None
        then show ?thesis using True vk [of k] wl entities_Update_at [of k v ?st]
          by (auto simp: counts_def split: option.splits)
      next
        case (Some e)
        then show ?thesis using True vk [of k] ok wl rc0 [OF Some] entities_Update_at [of k v ?st]
          by (auto simp: counts_def revives_def tombstone_def split: option.splits)
      qed
    qed
  next
    fix k' e'
    assume e': "entities (Update k v ?st) k' = Some e'" and c: "counts w e'" and r: "revno e' \<le> w_revno w"
    show "vv k' = Some (to_delta e')"
    proof (cases "k' = k")
      case False
      then show ?thesis using e' c r vd entities_Update_other [OF False, of v ?st] by simp
    next
      case True
      have "entities ?st k = Some e'"
        using e' True wl r ok entities_Update_at [of k v ?st]
        by (auto simp: revives_def tombstone_def split: option.splits if_splits)
      then show ?thesis using vd c r True by simp
    qed
  qed
qed

lemma keyed_refcount_change:
  assumes sinv: "store_inv st" and sinv': "store_inv st'" and kd: "keyed idf st"
    and rc: "refcount_change w st st'"
  shows "keyed idf st'"
proof -
  have "idf (info e') = k" if e': "entities st' k = Some e'" for k e'
  proof -
    have "case entities st' k of None \<Rightarrow> (\<forall>e. entities st k = Some e \<longrightarrow> \<not> counts w e)
            | Some e' \<Rightarrow> (\<exists>e. entities st k = Some e \<and> e' = e\<lparr>refCount := refCount e'\<rparr>)"
      using rc by (simp add: refcount_change_def)
    then obtain e where e: "entities st k = Some e" and eq: "e' = e\<lparr>refCount := refCount e'\<rparr>"
      using e' by auto
    have "info e' = info e" by (subst eq) simp
    then show ?thesis using keyed_entities [OF sinv kd e] by simp
  qed
  then show ?thesis using keyed_iff [OF sinv'] by blast
qed

lemma seen_refcount_change:
  assumes sinv: "store_inv st" and s: "seen r st = Some st'"
    and gone: "\<And>k e. entities st k = Some e \<Longrightarrow> r < revno e \<Longrightarrow> removed e \<Longrightarrow> creationRevno e \<le> r
                  \<Longrightarrow> refCount e = 1 \<Longrightarrow> \<not> counts w e"
  shows "refcount_change w st st'"
proof (rule refcount_change_res [where res = "\<lambda>e. if r < revno e then seen_res r e else Some e"])
  show "entities st' k = (case entities st k of None \<Rightarrow> None
          | Some e \<Rightarrow> if r < revno e then seen_res r e else Some e)" for k
    by (rule seen_entities [OF sinv s])
  show "e' = e\<lparr>refCount := refCount e'\<rparr>"
    if "(if r < revno e then seen_res r e else Some e) = Some e'" for e e'
    using that seen_res_shape(1) by (auto split: if_splits)
  show "\<not> counts w e" if "entities st k = Some e" "(if r < revno e then seen_res r e else Some e) = None" for k e
    using that seen_res_shape(2) [of r e] gone by (auto split: if_splits)
qed

lemma leave_refcount_change:
  assumes sinv: "store_inv st" and l: "leave wt st = Some st'"
    and gone: "\<And>k e. entities st k = Some e \<Longrightarrow> 0 < w_revno wt \<Longrightarrow> removed e
                  \<Longrightarrow> creationRevno e \<le> w_revno wt \<Longrightarrow> \<not> revno e \<le> w_revno wt
                  \<Longrightarrow> refCount e = 1 \<Longrightarrow> \<not> counts w e"
  shows "refcount_change w st st'"
proof (rule refcount_change_res [where res = "\<lambda>e. if 0 < w_revno wt then leave_res (w_revno wt) e else Some e"])
  show "entities st' k = (case entities st k of None \<Rightarrow> None
          | Some e \<Rightarrow> if 0 < w_revno wt then leave_res (w_revno wt) e else Some e)" for k
    by (rule leave_entities [OF sinv l])
  show "e' = e\<lparr>refCount := refCount e'\<rparr>"
    if "(if 0 < w_revno wt then leave_res (w_revno wt) e else Some e) = Some e'" for e e'
    using that leave_res_shape(1) by (auto split: if_splits)
  show "\<not> counts w e"
    if "entities st k = Some e" "(if 0 < w_revno wt then leave_res (w_revno wt) e else Some e) = None" for k e
    using that leave_res_shape(2) [of "w_revno wt" e] gone by (auto split: if_splits)
qed

subsection \<open>Each step keeps the invariant\<close>

lemma sys_update_eta [simp]: "s\<lparr>sys_sm := sys_sm s\<rparr> = s"
  by (cases s) simp

lemma sys_eta [simp]: "\<lparr>sys_sm = sys_sm s, sys_views = sys_views s\<rparr> = s"
  by (cases s) simp

text \<open>One watcher's turn of \<open>respond\<close>, followed by its client reading the reply.\<close>

lemma respond_one_client:
  assumes si: "sys_inv idf s"
  defines "sm \<equiv> sys_sm s"
  shows "\<exists>sm' vs'. respond_one j sm = Some sm'
           \<and> client_receive idf (new_replies sm sm') (sys_views s) = Some vs'
           \<and> sys_inv idf \<lparr>sys_sm = sm', sys_views = vs'\<rparr>
           \<and> latestRevno (sm_all sm') = latestRevno (sm_all sm)
           \<and> length (sm_watchers sm') = length (sm_watchers sm)
           \<and> (\<forall>i. i \<noteq> j \<longrightarrow> sm_watchers sm' ! i = sm_watchers sm ! i \<and> sm_waiting sm' i = sm_waiting sm i)
           \<and> (\<forall>i. w_stopped (sm_watchers sm' ! i) = w_stopped (sm_watchers sm ! i))
           \<and> (sm_waiting sm j \<noteq> [] \<longrightarrow> w_revno (sm_watchers sm' ! j) = latestRevno (sm_all sm))"
proof -
  let ?ws = "sm_watchers sm" and ?st = "sm_all sm" and ?vs = "sys_views s"
  have inv: "mgr_inv sm" and kd: "keyed idf ?st" and len: "length ?vs = length ?ws"
    and views: "\<And>i. i < length ?ws \<Longrightarrow> \<not> w_stopped (?ws ! i) \<Longrightarrow> view_ok (?ws ! i) (?vs ! i) ?st"
    using si by (auto simp: sys_inv_def sm_def)
  have sinv: "store_inv ?st" using inv by (simp add: mgr_inv_def)
  show ?thesis
  proof (cases "sm_waiting sm j")
    case Nil
    then show ?thesis using si by (simp add: respond_one_def new_replies_def sm_def)
  next
    case (Cons r rest)
    then have j: "j < length ?ws" and live: "\<not> w_stopped (?ws ! j)"
      using inv by (auto simp: mgr_inv_def)
    let ?wt = "?ws ! j" and ?L = "latestRevno ?st"
    have le: "w_revno ?wt \<le> ?L" using inv j by (simp add: mgr_inv_def)
    show ?thesis
    proof (cases "w_revno ?wt < ?L")
      case False
      then show ?thesis using si Cons le by (simp add: respond_one_def new_replies_def sm_def Let_def)
    next
      case True
      obtain st' where seen: "seen (w_revno ?wt) ?st = Some st'" and sinv': "store_inv st'"
        using seen_keeps_counts [OF inv j live] by blast
      define sm' where "sm' = sm\<lparr>sm_all := st',
                   sm_watchers := ?ws[j := ?wt\<lparr>w_revno := ?L\<rparr>],
                   sm_waiting := (sm_waiting sm)(j := rest),
                   sm_replies := sm_replies sm @ [(j, r, Reply True (ChangesSince (w_revno ?wt) ?st))]\<rparr>"
      have step: "respond_one j sm = Some sm'"
        using Cons True seen by (simp add: respond_one_def Let_def sm'_def)
      have inv': "mgr_inv sm'" using respond_one_inv [OF inv, of j] step by auto
      have lat: "latestRevno st' = ?L"
        using seen_keeps_counts [OF inv j live] seen by auto
      obtain v' where upd: "watcherState_update idf (ChangesSince (w_revno ?wt) ?st) (?vs ! j) = Some v'"
        and vj: "view_ok (?wt\<lparr>w_revno := ?L\<rparr>) v' ?st"
        using changes_view [OF sinv kd views [OF j live] live le] by blast
      have recv: "client_receive idf (new_replies sm sm') ?vs = Some (?vs[j := v'])"
        using upd by (simp add: new_replies_def sm'_def)
      have rc_j: "refcount_change (?wt\<lparr>w_revno := ?L\<rparr>) ?st st'"
        using entry_ok_entities [OF sinv]
        by (intro seen_refcount_change [OF sinv seen]) (fastforce simp: counts_def entry_ok_def)
      have rc_i: "refcount_change (?ws ! i) ?st st'" if "i < length ?ws" "i \<noteq> j" for i
      proof (rule seen_refcount_change [OF sinv seen])
        fix k e assume e: "entities ?st k = Some e" "w_revno ?wt < revno e" "removed e"
          "creationRevno e \<le> w_revno ?wt" "refCount e = 1"
        have "counts ?wt e" using e live by (simp add: counts_def)
        then show "\<not> counts (?ws ! i) e" using counted_alone [OF inv e(1) e(5) j _ that(1) that(2)] by simp
      qed
      have views': "view_ok (sm_watchers sm' ! i) ((?vs[j := v']) ! i) (sm_all sm')"
        if "i < length (?vs[j := v'])" "\<not> w_stopped (sm_watchers sm' ! i)" for i
      proof (cases "i = j")
        case True
        then show ?thesis using view_ok_transfer [OF vj rc_j] j len by (simp add: sm'_def)
      next
        case False
        have "i < length ?ws" using that len by simp
        moreover have "\<not> w_stopped (?ws ! i)" using that False by (simp add: sm'_def)
        ultimately show ?thesis
          using view_ok_transfer [OF views rc_i] False by (simp add: sm'_def)
      qed
      have kd': "keyed idf st'" by (rule keyed_refcount_change [OF sinv sinv' kd rc_j])
      have "sys_inv idf \<lparr>sys_sm = sm', sys_views = ?vs[j := v']\<rparr>"
        using inv' kd' len views' by (simp add: sys_inv_def sm'_def)
      moreover have "latestRevno (sm_all sm') = ?L" using lat by (simp add: sm'_def)
      moreover have "w_stopped (sm_watchers sm' ! i) = w_stopped (?ws ! i)" for i
        using j by (cases "i = j") (simp_all add: sm'_def)
      ultimately show ?thesis using step recv Cons j by (auto simp: sm'_def)
    qed
  qed
qed

lemma respond_clients_inv:
  assumes "sys_inv idf s" and "distinct js"
  shows "\<exists>s'. respond_clients idf js s = Some s' \<and> sys_inv idf s'
     \<and> latestRevno (sm_all (sys_sm s')) = latestRevno (sm_all (sys_sm s))
     \<and> length (sm_watchers (sys_sm s')) = length (sm_watchers (sys_sm s))
     \<and> (\<forall>i. w_stopped (sm_watchers (sys_sm s') ! i) = w_stopped (sm_watchers (sys_sm s) ! i))
     \<and> (\<forall>i \<in> set js. sm_waiting (sys_sm s) i \<noteq> [] \<longrightarrow>
           w_revno (sm_watchers (sys_sm s') ! i) = latestRevno (sm_all (sys_sm s)))"
  using assms
proof (induction js arbitrary: s)
  case Nil
  then show ?case by simp
next
  case (Cons j js)
  obtain sm1 vs1 where r1: "respond_one j (sys_sm s) = Some sm1"
    and c1: "client_receive idf (new_replies (sys_sm s) sm1) (sys_views s) = Some vs1"
    and si1: "sys_inv idf \<lparr>sys_sm = sm1, sys_views = vs1\<rparr>"
    and lat1: "latestRevno (sm_all sm1) = latestRevno (sm_all (sys_sm s))"
    and len1: "length (sm_watchers sm1) = length (sm_watchers (sys_sm s))"
    and oth1: "\<forall>i. i \<noteq> j \<longrightarrow> sm_watchers sm1 ! i = sm_watchers (sys_sm s) ! i
                              \<and> sm_waiting sm1 i = sm_waiting (sys_sm s) i"
    and stp1: "\<forall>i. w_stopped (sm_watchers sm1 ! i) = w_stopped (sm_watchers (sys_sm s) ! i)"
    and cur1: "sm_waiting (sys_sm s) j \<noteq> [] \<longrightarrow> w_revno (sm_watchers sm1 ! j) = latestRevno (sm_all (sys_sm s))"
    using respond_one_client [OF Cons.prems(1), of j] by blast
  have d: "distinct js" and jn: "j \<notin> set js" using Cons.prems(2) by auto
  obtain s' where r: "respond_clients idf js \<lparr>sys_sm = sm1, sys_views = vs1\<rparr> = Some s'"
    and si': "sys_inv idf s'"
    and lat: "latestRevno (sm_all (sys_sm s')) = latestRevno (sm_all sm1)"
    and len: "length (sm_watchers (sys_sm s')) = length (sm_watchers sm1)"
    and stp: "\<forall>i. w_stopped (sm_watchers (sys_sm s') ! i) = w_stopped (sm_watchers sm1 ! i)"
    and cur: "\<forall>i \<in> set js. sm_waiting sm1 i \<noteq> [] \<longrightarrow> w_revno (sm_watchers (sys_sm s') ! i) = latestRevno (sm_all sm1)"
    using Cons.IH [OF si1 d] by auto
  have keep: "\<forall>i. i \<notin> set js \<longrightarrow> sm_watchers (sys_sm s') ! i = sm_watchers sm1 ! i"
  proof -
    have "\<exists>s''. respond_clients idf js s1 = Some s'' \<and>
            (\<forall>i. i \<notin> set js \<longrightarrow> sm_watchers (sys_sm s'') ! i = sm_watchers (sys_sm s1) ! i)"
      if "sys_inv idf s1" for s1
      using that d
    proof (induction js arbitrary: s1)
      case Nil
      then show ?case by simp
    next
      case (Cons j' js')
      obtain sm2 vs2 where "respond_one j' (sys_sm s1) = Some sm2"
        "client_receive idf (new_replies (sys_sm s1) sm2) (sys_views s1) = Some vs2"
        "sys_inv idf \<lparr>sys_sm = sm2, sys_views = vs2\<rparr>"
        "\<forall>i. i \<noteq> j' \<longrightarrow> sm_watchers sm2 ! i = sm_watchers (sys_sm s1) ! i"
        using respond_one_client [OF Cons.prems(1), of j'] by blast
      with Cons.IH [of "\<lparr>sys_sm = sm2, sys_views = vs2\<rparr>"] Cons.prems(2) show ?case by auto
    qed
    from this [OF si1] r show ?thesis by auto
  qed
  have "\<forall>i \<in> set (j # js). sm_waiting (sys_sm s) i \<noteq> [] \<longrightarrow>
          w_revno (sm_watchers (sys_sm s') ! i) = latestRevno (sm_all (sys_sm s))"
  proof
    fix i assume i: "i \<in> set (j # js)"
    show "sm_waiting (sys_sm s) i \<noteq> [] \<longrightarrow> w_revno (sm_watchers (sys_sm s') ! i) = latestRevno (sm_all (sys_sm s))"
    proof (cases "i = j")
      case True
      then show ?thesis using keep jn cur1 by simp
    next
      case False
      then have "i \<in> set js" using i by simp
      then show ?thesis using cur oth1 False lat1 by simp
    qed
  qed
  then show ?case using r r1 c1 si' lat lat1 len len1 stp stp1 by simp
qed

lemma respond_clients_manager:
  "respond_clients idf js s = Some s' \<Longrightarrow> respond_loop js (sys_sm s) = Some (sys_sm s')"
  by (induction idf js s rule: respond_clients.induct) (auto split: option.splits)

lemma sys_inv_init: "sys_inv idf sys_init"
proof -
  have "mgr_inv (new_manager NewStore)"
    by (rule mgr_inv_new_manager [OF store_inv_NewStore]) (simp add: entries_def NewStore_def)
  then show ?thesis
    by (simp add: sys_inv_def sys_init_def keyed_def entries_def NewStore_def new_manager_def)
qed

lemma sys_inv_change:
  assumes si: "sys_inv idf s" and ok: "change_ok idf (sm_all (sys_sm s)) k v"
  shows "sys_inv idf (s\<lparr>sys_sm := (sys_sm s)\<lparr>sm_all := Update k v (sm_all (sys_sm s))\<rparr>\<rparr>)"
proof -
  let ?sm = "sys_sm s"
  have inv: "mgr_inv ?sm" and kd: "keyed idf (sm_all ?sm)" using si by (simp_all add: sys_inv_def)
  have nr: "\<not> revives (sm_all ?sm) k v" using ok by (cases v) (auto simp: change_ok_def revives_def)
  have sinv: "store_inv (sm_all ?sm)" using inv by (simp add: mgr_inv_def)
  have "view_ok (sm_watchers ?sm ! i) (sys_views s ! i) (Update k v (sm_all ?sm))"
    if "i < length (sys_views s)" "\<not> w_stopped (sm_watchers ?sm ! i)" for i
    using si that by (intro view_ok_Update [OF inv nr]) (auto simp: sys_inv_def)
  then show ?thesis
    using si mgr_inv_Update [OF inv nr] keyed_Update [OF sinv kd ok] by (simp add: sys_inv_def)
qed

lemma sys_inv_watch:
  assumes si: "sys_inv idf s"
  shows "sys_inv idf \<lparr>sys_sm = add_watcher (sys_sm s), sys_views = sys_views s @ [Map.empty]\<rparr>"
proof -
  let ?sm = "sys_sm s"
  have inv: "mgr_inv ?sm" using si by (simp add: sys_inv_def)
  have sinv: "store_inv (sm_all ?sm)" using inv by (simp add: mgr_inv_def)
  have "view_ok new_watcher Map.empty (sm_all ?sm)"
    using entry_ok_entities [OF sinv] by (fastforce simp: view_ok_def counts_def new_watcher_def entry_ok_def)
  then show ?thesis
    using si mgr_inv_add_watcher [OF inv] by (auto simp: sys_inv_def add_watcher_def nth_append)
qed

lemma sys_inv_next:
  assumes si: "sys_inv idf s" and w: "w < length (sm_watchers (sys_sm s))"
  shows "\<exists>sm'. handle (NextReq w r) (sys_sm s) = Some sm' \<and> sys_inv idf (s\<lparr>sys_sm := sm'\<rparr>)"
proof -
  have inv: "mgr_inv (sys_sm s)" using si by (simp add: sys_inv_def)
  obtain sm' where h: "handle (NextReq w r) (sys_sm s) = Some sm'" and inv': "mgr_inv sm'"
    using handle_inv [OF inv w, of "NextReq w r" r] by blast
  have "sm_all sm' = sm_all (sys_sm s)" "sm_watchers sm' = sm_watchers (sys_sm s)"
    using h by (auto simp: handle_def split: if_splits)
  then show ?thesis using h inv' si by (simp add: sys_inv_def)
qed

lemma sys_inv_stop:
  assumes si: "sys_inv idf s" and w: "w < length (sm_watchers (sys_sm s))"
  shows "\<exists>sm'. handle (StopReq w) (sys_sm s) = Some sm' \<and> sys_inv idf (s\<lparr>sys_sm := sm'\<rparr>)"
proof -
  let ?sm = "sys_sm s" and ?ws = "sm_watchers (sys_sm s)" and ?st = "sm_all (sys_sm s)"
  have inv: "mgr_inv ?sm" and kd: "keyed idf ?st" and len: "length (sys_views s) = length ?ws"
    and views: "\<And>i. i < length ?ws \<Longrightarrow> \<not> w_stopped (?ws ! i) \<Longrightarrow> view_ok (?ws ! i) (sys_views s ! i) ?st"
    using si by (auto simp: sys_inv_def)
  have sinv: "store_inv ?st" using inv by (simp add: mgr_inv_def)
  obtain sm' where h: "handle (StopReq w) ?sm = Some sm'" and inv': "mgr_inv sm'"
    using handle_inv [OF inv w, of "StopReq w"] by blast
  show ?thesis
  proof (cases "w_stopped (?ws ! w)")
    case True
    then have "sm' = sys_sm s" using h by (simp add: handle_def)
    then show ?thesis using h si by simp
  next
    case False
    obtain st' where lv: "leave (?ws ! w) ?st = Some st'"
      using h False by (auto simp: handle_def split: option.splits)
    have sm': "sm' = ?sm\<lparr>sm_all := st', sm_watchers := ?ws[w := (?ws ! w)\<lparr>w_stopped := True\<rparr>],
                  sm_waiting := (sm_waiting ?sm)(w := []),
                  sm_replies := sm_replies ?sm @ map (\<lambda>r. (w, r, Reply False [])) (sm_waiting ?sm w)\<rparr>"
      using h False lv by (simp add: handle_def)
    have sinv': "store_inv st'" using inv' sm' by (simp add: mgr_inv_def)
    have gone: "\<not> counts (?ws ! i) e"
      if i: "i < length ?ws" "i \<noteq> w" and e: "entities ?st k = Some e" "0 < w_revno (?ws ! w)" "removed e"
        "creationRevno e \<le> w_revno (?ws ! w)" "\<not> revno e \<le> w_revno (?ws ! w)" "refCount e = 1" for i k e
    proof -
      have "counts (?ws ! w) e" using e False by (simp add: counts_def)
      then show ?thesis using counted_alone [OF inv e(1) e(6) w _ i(1) i(2)] by simp
    qed
    have rc: "refcount_change (?ws ! i) ?st st'" if "i < length ?ws" "i \<noteq> w" for i
      using gone [OF that] by (intro leave_refcount_change [OF sinv lv]) blast
    have rc0: "refcount_change ((?ws ! w)\<lparr>w_stopped := True\<rparr>) ?st st'"
      by (rule leave_refcount_change [OF sinv lv]) (simp add: counts_def)
    have views': "view_ok (sm_watchers sm' ! i) (sys_views s ! i) st'"
      if "i < length (sys_views s)" "\<not> w_stopped (sm_watchers sm' ! i)" for i
    proof -
      have i: "i < length ?ws" using that len by simp
      then have iw: "i \<noteq> w" using that sm' by auto
      then have "\<not> w_stopped (?ws ! i)" using that sm' by simp
      then show ?thesis using view_ok_transfer [OF views [OF i] rc [OF i iw]] sm' iw by simp
    qed
    have "keyed idf st'" by (rule keyed_refcount_change [OF sinv sinv' kd rc0])
    then show ?thesis using h inv' len views' sm' by (simp add: sys_inv_def)
  qed
qed

lemma sys_step_inv:
  assumes si: "sys_inv idf s" and ok: "op_ok idf op s"
  shows "\<exists>s'. sys_step idf op s = Some s' \<and> sys_inv idf s'"
proof (cases op)
  case (SysChange k v)
  then show ?thesis using sys_inv_change [OF si] ok by simp
next
  case SysWatch
  then show ?thesis using sys_inv_watch [OF si] by simp
next
  case (SysNext w r)
  then show ?thesis using sys_inv_next [OF si, of w r] ok by auto
next
  case (SysStop w)
  then show ?thesis using sys_inv_stop [OF si, of w] ok by auto
next
  case SysRespond
  then show ?thesis using respond_clients_inv [OF si, of "[0..<length (sm_watchers (sys_sm s))]"] by auto
qed

lemma reachable_sys_inv: "s \<in> reachable idf \<Longrightarrow> sys_inv idf s"
proof (induction rule: reachable.induct)
  case init
  then show ?case by (rule sys_inv_init)
next
  case (step s op s')
  then show ?case using sys_step_inv [OF step.IH step.hyps(2)] by auto
qed

lemma reachable_store_inv: "s \<in> reachable idf \<Longrightarrow> store_inv (sm_all (sys_sm s))"
  by (drule reachable_sys_inv) (simp add: sys_inv_def mgr_inv_def)

lemma all_stopped_clean:
  assumes "s \<in> reachable idf" and "\<forall>w \<in> set (sm_watchers (sys_sm s)). w_stopped w"
    and x: "x \<in> set (entries (sm_all (sys_sm s)))"
  shows "\<not> removed (snd x) \<and> refCount (snd x) = 0"
proof -
  have inv: "mgr_inv (sys_sm s)" using reachable_sys_inv [OF assms(1)] by (simp add: sys_inv_def)
  have "refCount (snd x) = holders (sm_watchers (sys_sm s)) (snd x)" using inv x by (simp add: mgr_inv_def)
  moreover have "holders (sm_watchers (sys_sm s)) (snd x) = 0"
    using assms(2) by (simp add: holders_def counts_def filter_empty_conv)
  moreover have "entry_ok (latestRevno (sm_all (sys_sm s))) (snd x)"
    using inv x by (simp add: mgr_inv_def store_inv_def)
  ultimately show ?thesis by (simp add: entry_ok_def)
qed

subsection \<open>A run of the tests' kind\<close>

text \<open>
  One watcher, one entity added, one \<open>Next\<close> request pending: the state in which
  \<open>TestRespondResults\<close> calls \<open>respond\<close> after its first change.
\<close>

definition demo_run :: "(nat, nat) sys_op list" where
  "demo_run = [SysWatch, SysChange 1 (Some 1), SysNext 0 7]"

fun run_ops :: "('info \<Rightarrow> 'k) \<Rightarrow> ('k, 'info) sys_op list \<Rightarrow> ('k, 'info) sys \<Rightarrow> ('k, 'info) sys option" where
  "run_ops idf [] s = Some s"
| "run_ops idf (op # ops) s = (if op_ok idf op s then
                                 (case sys_step idf op s of None \<Rightarrow> None | Some s' \<Rightarrow> run_ops idf ops s')
                               else None)"

lemmas sys_eval = sys_init_def new_manager_def add_watcher_def new_watcher_def Update_def store_defs
  NewStore_def handle_def respond_one_def seen_def entries_def seen_step_def ChangesSince_def
  new_replies_def to_delta_def visible_to_def leave_def leave_step_def decRef_def change_ok_def
  tombstone_def Let_def

lemma run_ops_reachable:
  "s \<in> reachable idf \<Longrightarrow> run_ops idf ops s = Some s' \<Longrightarrow> s' \<in> reachable idf"
proof (induction ops arbitrary: s)
  case Nil
  then show ?case by simp
next
  case (Cons op ops)
  then obtain s1 where ok: "op_ok idf op s" and st: "sys_step idf op s = Some s1"
    and rest: "run_ops idf ops s1 = Some s'"
    by (auto split: if_splits option.splits)
  have "s1 \<in> reachable idf" by (rule reachable.step [OF Cons.prems(1) ok st])
  then show ?case using Cons.IH rest by blast
qed

lemma demo_reachable:
  "\<exists>s. run_ops (\<lambda>x::nat. x) demo_run sys_init = Some s \<and> s \<in> reachable (\<lambda>x::nat. x)"
proof -
  have "\<exists>s. run_ops (\<lambda>x::nat. x) demo_run sys_init = Some s"
    by (simp add: demo_run_def sys_eval)
  then obtain s where "run_ops (\<lambda>x::nat. x) demo_run sys_init = Some s" by blast
  then show ?thesis using run_ops_reachable [OF reachable.init] by blast
qed

subsection \<open>Properties of the system\<close>

text \<open>
  C1. No step of a reachable state fails: \<open>decRef\<close> never finds a reference count at
  zero, and no client's \<open>watcherState.update\<close> panics, so every removal a watcher is
  sent is of an entity its view holds (spec property 8.3, at most once), for any
  interleaving of store changes, new watchers, \<open>Next\<close>, \<open>Stop\<close> and \<open>respond\<close>.
\<close>

theorem reachable_steps_succeed:
  assumes "s \<in> reachable idf" and "op_ok idf op s"
  shows "\<exists>s'. sys_step idf op s = Some s'"
  using sys_step_inv [OF reachable_sys_inv [OF assms(1)] assms(2)] by blast

theorem reachable_steps_succeed_witness:
  "\<exists>s. run_ops (\<lambda>x::nat. x) demo_run sys_init = Some s \<and> s \<in> reachable (\<lambda>x::nat. x)
     \<and> op_ok (\<lambda>x::nat. x) SysRespond s \<and> (\<exists>s'. sys_step (\<lambda>x::nat. x) SysRespond s = Some s')"
proof -
  obtain s where run: "run_ops (\<lambda>x::nat. x) demo_run sys_init = Some s"
    and r: "s \<in> reachable (\<lambda>x::nat. x)"
    using demo_reachable by blast
  have ok: "op_ok (\<lambda>x::nat. x) SysRespond s" by simp
  show ?thesis using reachable_steps_succeed [OF r ok] run r ok by blast
qed

text \<open>
  C2. After \<open>respond\<close>, every watcher that had a request pending holds a view equal to
  the live entities of the store: \<open>watcherState.check\<close> of \<open>TestRespondResults\<close> passes
  for every interleaving, not only the ones the test enumerates (spec property 8.2:
  the deltas a watcher receives, applied in order, reproduce the live entities; with
  C1, every removal of an entity it saw alive reaches it exactly once).
\<close>

theorem respond_client_check:
  assumes "s \<in> reachable idf" and "sys_step idf SysRespond s = Some s'"
    and "i < length (sm_watchers (sys_sm s))" and "sm_waiting (sys_sm s) i \<noteq> []"
  shows "watcherState_check (sys_views s' ! i) (sm_all (sys_sm s'))"
proof -
  have si: "sys_inv idf s" by (rule reachable_sys_inv [OF assms(1)])
  obtain s2 where r: "respond_clients idf [0..<length (sm_watchers (sys_sm s))] s = Some s2"
    and si2: "sys_inv idf s2"
    and lat: "latestRevno (sm_all (sys_sm s2)) = latestRevno (sm_all (sys_sm s))"
    and len: "length (sm_watchers (sys_sm s2)) = length (sm_watchers (sys_sm s))"
    and stp: "\<forall>j. w_stopped (sm_watchers (sys_sm s2) ! j) = w_stopped (sm_watchers (sys_sm s) ! j)"
    and cur: "\<forall>j \<in> set [0..<length (sm_watchers (sys_sm s))]. sm_waiting (sys_sm s) j \<noteq> [] \<longrightarrow>
                w_revno (sm_watchers (sys_sm s2) ! j) = latestRevno (sm_all (sys_sm s))"
    using respond_clients_inv [OF si, of "[0..<length (sm_watchers (sys_sm s))]"] by auto
  have s2: "s2 = s'" using r assms(2) by simp
  have live: "\<not> w_stopped (sm_watchers (sys_sm s) ! i)"
    using si assms(4) by (simp add: sys_inv_def mgr_inv_def)
  have vw: "view_ok (sm_watchers (sys_sm s2) ! i) (sys_views s2 ! i) (sm_all (sys_sm s2))"
    using si2 live stp assms(3) len by (simp add: sys_inv_def)
  have sinv: "store_inv (sm_all (sys_sm s2))" using si2 by (simp add: sys_inv_def mgr_inv_def)
  have live2: "\<not> w_stopped (sm_watchers (sys_sm s2) ! i)" using live stp by simp
  have cur2: "w_revno (sm_watchers (sys_sm s2) ! i) = latestRevno (sm_all (sys_sm s2))"
    using cur assms(3,4) lat by simp
  show ?thesis using view_ok_check [OF sinv vw live2 cur2] s2 by simp
qed

theorem respond_client_check_witness:
  "\<exists>s s'. run_ops (\<lambda>x::nat. x) demo_run sys_init = Some s \<and> s \<in> reachable (\<lambda>x::nat. x)
     \<and> sys_step (\<lambda>x::nat. x) SysRespond s = Some s' \<and> 0 < length (sm_watchers (sys_sm s))
     \<and> sm_waiting (sys_sm s) 0 \<noteq> []
     \<and> watcherState_check (sys_views s' ! 0) (sm_all (sys_sm s'))"
proof -
  have "\<exists>s s'. run_ops (\<lambda>x::nat. x) demo_run sys_init = Some s
          \<and> sys_step (\<lambda>x::nat. x) SysRespond s = Some s'
          \<and> 0 < length (sm_watchers (sys_sm s)) \<and> sm_waiting (sys_sm s) 0 \<noteq> []"
    by (simp add: demo_run_def sys_eval)
  then obtain s s' where run: "run_ops (\<lambda>x::nat. x) demo_run sys_init = Some s"
    and resp: "sys_step (\<lambda>x::nat. x) SysRespond s = Some s'"
    and h: "0 < length (sm_watchers (sys_sm s))" "sm_waiting (sys_sm s) 0 \<noteq> []"
    by blast
  have r: "s \<in> reachable (\<lambda>x::nat. x)" by (rule run_ops_reachable [OF reachable.init run])
  show ?thesis using respond_client_check [OF r resp h] run r resp h by blast
qed

text \<open>
  C3. Spec invariant 4 holds in every reachable state: the reference count of every
  entry is the number of watchers, not stopped, that saw it created and have not been
  told it is removed.
\<close>

theorem reachable_refcount_exact:
  assumes "s \<in> reachable idf"
  shows "\<forall>x \<in> set (entries (sm_all (sys_sm s))). refCount (snd x) = holders (sm_watchers (sys_sm s)) (snd x)"
  using reachable_sys_inv [OF assms] by (simp add: sys_inv_def mgr_inv_def)

theorem reachable_refcount_exact_witness:
  "\<exists>s. run_ops (\<lambda>x::nat. x) demo_run sys_init = Some s \<and> s \<in> reachable (\<lambda>x::nat. x)
     \<and> (\<forall>x \<in> set (entries (sm_all (sys_sm s))). refCount (snd x) = holders (sm_watchers (sys_sm s)) (snd x))"
  using demo_reachable reachable_refcount_exact by blast

text \<open>
  C4. Memory is bounded by the watchers' needs: once every watcher has stopped, no
  tombstone is left and every reference count is zero, as \<open>TestRespondResults\<close>
  checks at the end of each run (\<open>respondTestFinalState\<close>).
\<close>

theorem all_stopped_no_tombstones:
  assumes "s \<in> reachable idf" and "\<forall>w \<in> set (sm_watchers (sys_sm s)). w_stopped w"
  shows "\<forall>x \<in> set (entries (sm_all (sys_sm s))). \<not> removed (snd x) \<and> refCount (snd x) = 0"
  using all_stopped_clean [OF assms] by blast

theorem all_stopped_no_tombstones_witness:
  "\<exists>s. run_ops (\<lambda>x::nat. x) (demo_run @ [SysRespond, SysChange 1 None, SysStop 0]) sys_init = Some s
     \<and> s \<in> reachable (\<lambda>x::nat. x)
     \<and> (\<forall>w \<in> set (sm_watchers (sys_sm s)). w_stopped w)
     \<and> (\<forall>x \<in> set (entries (sm_all (sys_sm s))). \<not> removed (snd x) \<and> refCount (snd x) = 0)"
proof -
  have "\<exists>s. run_ops (\<lambda>x::nat. x) (demo_run @ [SysRespond, SysChange 1 None, SysStop 0]) sys_init = Some s
          \<and> (\<forall>w \<in> set (sm_watchers (sys_sm s)). w_stopped w)"
    by (simp add: demo_run_def sys_eval)
  then obtain s where run: "run_ops (\<lambda>x::nat. x) (demo_run @ [SysRespond, SysChange 1 None, SysStop 0]) sys_init = Some s"
    and st: "\<forall>w \<in> set (sm_watchers (sys_sm s)). w_stopped w"
    by blast
  have r: "s \<in> reachable (\<lambda>x::nat. x)" by (rule run_ops_reachable [OF reachable.init run])
  show ?thesis using all_stopped_no_tombstones [OF r st] run r st by blast
qed

text \<open>
  C5. Progress of \<open>Next\<close>: in every reachable state, the next \<open>respond\<close> succeeds and
  answers \<open>true\<close> to the newest pending request of every watcher that is behind the
  store, and removes it from the watcher's pending requests; a pending request never
  waits for more than one \<open>respond\<close> after a change it has not seen.
\<close>

theorem respond_answers_behind:
  assumes "s \<in> reachable idf" and "i < length (sm_watchers (sys_sm s))"
    and "sm_waiting (sys_sm s) i = r # rest"
    and "w_revno (sm_watchers (sys_sm s) ! i) < latestRevno (sm_all (sys_sm s))"
  shows "\<exists>s'. sys_step idf SysRespond s = Some s'
           \<and> (\<exists>ds. (i, r, Reply True ds) \<in> set (sm_replies (sys_sm s')))
           \<and> sm_waiting (sys_sm s') i = rest"
proof -
  obtain s' where st: "sys_step idf SysRespond s = Some s'"
    using sys_step_inv [OF reachable_sys_inv [OF assms(1)], of SysRespond] by auto
  then have "respond_loop [0..<length (sm_watchers (sys_sm s))] (sys_sm s) = Some (sys_sm s')"
    by (simp add: respond_clients_manager)
  then have "(\<exists>ds. (i, r, Reply True ds) \<in> set (sm_replies (sys_sm s'))) \<and> sm_waiting (sys_sm s') i = rest"
    by (rule respond_loop_served) (simp_all add: assms(2-4))
  then show ?thesis using st by blast
qed

theorem respond_answers_behind_witness:
  "\<exists>s. run_ops (\<lambda>x::nat. x) demo_run sys_init = Some s \<and> s \<in> reachable (\<lambda>x::nat. x)
     \<and> 0 < length (sm_watchers (sys_sm s)) \<and> sm_waiting (sys_sm s) 0 = [7]
     \<and> w_revno (sm_watchers (sys_sm s) ! 0) < latestRevno (sm_all (sys_sm s))
     \<and> (\<exists>s'. sys_step (\<lambda>x::nat. x) SysRespond s = Some s'
           \<and> (\<exists>ds. (0, 7, Reply True ds) \<in> set (sm_replies (sys_sm s')))
           \<and> sm_waiting (sys_sm s') 0 = [])"
proof -
  have "\<exists>s. run_ops (\<lambda>x::nat. x) demo_run sys_init = Some s
          \<and> 0 < length (sm_watchers (sys_sm s)) \<and> sm_waiting (sys_sm s) 0 = [7]
          \<and> w_revno (sm_watchers (sys_sm s) ! 0) < latestRevno (sm_all (sys_sm s))"
    by (simp add: demo_run_def sys_eval)
  then obtain s where run: "run_ops (\<lambda>x::nat. x) demo_run sys_init = Some s"
    and h: "0 < length (sm_watchers (sys_sm s))" "sm_waiting (sys_sm s) 0 = [7]"
      "w_revno (sm_watchers (sys_sm s) ! 0) < latestRevno (sm_all (sys_sm s))"
    by blast
  have r: "s \<in> reachable (\<lambda>x::nat. x)" by (rule run_ops_reachable [OF reachable.init run])
  show ?thesis using respond_answers_behind [OF r h] run r h by blast
qed

text \<open>
  Spec scenario (B): an entity added and removed before any watcher looked is
  deleted at once; a watcher created afterwards is behind the store (its revision 0,
  the store's 2), so its \<open>Next\<close> is answered \<open>true\<close> with no changes at all. The
  assertion \<open>len(req.changes) > 0\<close> of \<open>TestRespondResults\<close> therefore holds only for
  the changes that test makes.
\<close>

theorem scenario_B_empty_reply:
  "\<exists>s. run_ops (\<lambda>x::nat. x) [SysChange 1 (Some (1::nat)), SysChange 1 None, SysWatch, SysNext 0 7, SysRespond]
          sys_init = Some s
     \<and> sm_replies (sys_sm s) = [(0, 7, Reply True [])]
     \<and> entries (sm_all (sys_sm s)) = [] \<and> latestRevno (sm_all (sys_sm s)) = 2
     \<and> sys_views s = [Map.empty]"
  by (simp add: sys_eval)

text \<open>
  Spec scenario (C): a watcher that saw machine 1 keeps its tombstone alive
  (removed, one reference) after the removal; its next \<open>Next\<close> is answered with the
  removal, and the tombstone is gone from the store.
\<close>

theorem scenario_C_tombstone:
  "\<exists>s. run_ops (\<lambda>x::nat. x) [SysChange 1 (Some (1::nat)), SysWatch, SysNext 0 7, SysRespond, SysChange 1 None]
          sys_init = Some s
     \<and> entries (sm_all (sys_sm s)) =
         [(1, \<lparr>creationRevno = 1, revno = 2, refCount = 1, removed = True, info = 1\<rparr>)]
     \<and> (\<exists>s'. run_ops (\<lambda>x::nat. x) [SysNext 0 8, SysRespond] s = Some s'
           \<and> sm_replies (sys_sm s') = sm_replies (sys_sm s) @ [(0, 8, Reply True [\<lparr>delta_removed = True, delta_entity = 1\<rparr>])]
           \<and> entries (sm_all (sys_sm s')) = [] \<and> sys_views s' = [Map.empty])"
  by (simp add: sys_eval)

text \<open>
  C6. Every reachable state is well formed: the store's list and map agree, the list
  is ordered by strictly increasing revision, every entry is well formed (created
  no later than it was last changed, which is no later than the latest revision; a
  tombstone has a reference) and filed under its own identifier, and there is one
  client view per watcher (spec invariants 1 to 3).
\<close>

theorem reachable_well_formed:
  assumes "s \<in> reachable idf"
  shows "store_inv (sm_all (sys_sm s)) \<and> keyed idf (sm_all (sys_sm s))
         \<and> length (sys_views s) = length (sm_watchers (sys_sm s))"
  using reachable_store_inv [OF assms] reachable_sys_inv [OF assms] by (simp add: sys_inv_def)

theorem reachable_well_formed_witness:
  "\<exists>s. run_ops (\<lambda>x::nat. x) demo_run sys_init = Some s \<and> s \<in> reachable (\<lambda>x::nat. x)
     \<and> store_inv (sm_all (sys_sm s)) \<and> keyed (\<lambda>x::nat. x) (sm_all (sys_sm s))
     \<and> length (sys_views s) = length (sm_watchers (sys_sm s))"
  using demo_reachable reachable_well_formed by blast

text \<open>
  C7. In every reachable state, \<open>ChangesSince\<close>, which walks back from the newest
  entry only as far as the requested revision, returns exactly what the reference
  reading of spec 4.1 returns: every entry changed after the revision, in list order,
  except the tombstones of entities created after it.
\<close>

theorem reachable_ChangesSince_equiv:
  assumes "s \<in> reachable idf"
  shows "ChangesSince r (sm_all (sys_sm s)) = changes_since_spec r (sm_all (sys_sm s))"
  using reachable_store_inv [OF assms] by (rule ChangesSince_eq_spec)

theorem reachable_ChangesSince_equiv_witness:
  "\<exists>s. run_ops (\<lambda>x::nat. x) demo_run sys_init = Some s \<and> s \<in> reachable (\<lambda>x::nat. x)
     \<and> ChangesSince 0 (sm_all (sys_sm s)) = changes_since_spec 0 (sm_all (sys_sm s))"
  using demo_reachable reachable_ChangesSince_equiv by blast

end
