(* ===== verification/TestBacking.thy ===== *)
theory TestBacking
  imports Manager "HOL-Library.AList"
begin

text \<open>
  The backing and entity types the multiwatcher tests run the engine with
  (\<open>src/state/open.go\<close>, lines 797--1081): two kinds of entity info, their identifier
  \<open>testInfoId\<close>, the helpers \<open>storeAdd\<close> and \<open>StoreIncRef\<close>, and
  \<open>storeManagerTestBacking\<close>, an in-memory database that serves \<open>GetAll\<close>,
  \<open>Changed\<close> and \<open>IdForInfo\<close> and sends a change on the watched channel whenever a test
  updates or deletes an entity. The mutex that guards it is not modelled: every
  operation is one atomic step of the model. Go's map \<open>b.entities\<close> is an association
  list (its iteration order in \<open>GetAll\<close> is unspecified in Go; the model iterates in list
  order, and the theorems hold for every order since they quantify over the list).
\<close>

subsection \<open>Entities of the tests\<close>

datatype testInfo =
    MachineInfo (machine_Id: string) (machine_InstanceId: string)
  | ServiceInfo (service_Name: string) (service_Exposed: bool)

fun EntityId :: "testInfo \<Rightarrow> string" where
  "EntityId (MachineInfo i _) = i"
| "EntityId (ServiceInfo n _) = n"

fun EntityKind :: "testInfo \<Rightarrow> string" where
  "EntityKind (MachineInfo _ _) = ''machine''"
| "EntityKind (ServiceInfo _ _) = ''service''"

text \<open>\<open>testInfoId{kind, id}\<close>; the field \<open>id\<close> is \<open>ident\<close> here (\<open>id\<close> is HOL's identity).\<close>

record testInfoId =
  kind :: string
  ident :: string

definition idForInfo :: "testInfo \<Rightarrow> testInfoId" where
  "idForInfo i = \<lparr>kind = EntityKind i, ident = EntityId i\<rparr>"

type_synonym test_store = "(testInfoId, testInfo) store"

definition storeAdd :: "test_store \<Rightarrow> testInfo \<Rightarrow> test_store" where
  "storeAdd a i = store_add (idForInfo i) i a"

text \<open>\<open>StoreIncRef\<close> dereferences \<open>a.entities[id]\<close>: an absent entity is a nil dereference.\<close>

definition StoreIncRef :: "test_store \<Rightarrow> testInfoId \<Rightarrow> test_store option" where
  "StoreIncRef a k = (case entities a k of None \<Rightarrow> None
                       | Some e \<Rightarrow> Some (set_entry k (e\<lparr>refCount := refCount e + 1\<rparr>) a))"

subsection \<open>The test backing\<close>

datatype backing_error = ErrNotFound | BackingErr string

text \<open>\<open>watcher.Change\<close>: the collection, the document id and the transaction revision.\<close>

record change =
  change_C :: string
  change_Id :: string
  change_Revno :: int

text \<open>The watched channel is identified by a number; \<open>None\<close> is Go's nil channel.\<close>

record storeManagerTestBacking =
  fetchErr :: "backing_error option"
  b_entities :: "(testInfoId \<times> testInfo) list"
  watchc :: "nat option"
  txnRevno :: int

definition newTestBacking :: "testInfo list \<Rightarrow> storeManagerTestBacking" where
  "newTestBacking initial =
     \<lparr>fetchErr = None,
      b_entities = fold (\<lambda>i m. AList.update (idForInfo i) i m) initial [],
      watchc = None, txnRevno = 0\<rparr>"

definition fetch :: "storeManagerTestBacking \<Rightarrow> testInfoId \<Rightarrow> backing_error + testInfo" where
  "fetch b k = (case fetchErr b of Some err \<Rightarrow> Inl err
                | None \<Rightarrow> (case map_of (b_entities b) k of Some i \<Rightarrow> Inr i | None \<Rightarrow> Inl ErrNotFound))"

text \<open>
  \<open>Changed\<close>: fetch the changed entity; not found is a removal, any other error is
  returned unchanged and leaves the store as it was.
\<close>

definition Changed :: "storeManagerTestBacking \<Rightarrow> test_store \<Rightarrow> change \<Rightarrow> backing_error + test_store" where
  "Changed b a ch =
     (let k = \<lparr>kind = change_C ch, ident = change_Id ch\<rparr> in
      case fetch b k of
        Inl err \<Rightarrow> (if err = ErrNotFound then Inr (Update k None a) else Inl err)
      | Inr i \<Rightarrow> Inr (Update k (Some i) a))"

definition IdForInfo :: "storeManagerTestBacking \<Rightarrow> testInfo \<Rightarrow> testInfoId" where
  "IdForInfo b i = idForInfo i"

text \<open>\<open>Watch\<close> and \<open>Unwatch\<close> panic (\<open>None\<close>) when misused.\<close>

definition Watch :: "nat \<Rightarrow> storeManagerTestBacking \<Rightarrow> storeManagerTestBacking option" where
  "Watch c b = (if watchc b \<noteq> None then None else Some (b\<lparr>watchc := Some c\<rparr>))"

definition Unwatch :: "nat \<Rightarrow> storeManagerTestBacking \<Rightarrow> storeManagerTestBacking option" where
  "Unwatch c b = (if Some c \<noteq> watchc b then None else Some (b\<lparr>watchc := None\<rparr>))"

definition GetAll :: "storeManagerTestBacking \<Rightarrow> test_store \<Rightarrow> backing_error + test_store" where
  "GetAll b a = Inr (fold (\<lambda>(k, i). Update k (Some i)) (b_entities b) a)"

text \<open>
  \<open>updateEntity\<close> and \<open>deleteEntity\<close> change the database and, when a channel is
  watched, send one change on it (returned as the list of changes sent).
\<close>

definition updateEntity :: "testInfo \<Rightarrow> storeManagerTestBacking \<Rightarrow> storeManagerTestBacking \<times> change list" where
  "updateEntity i b =
     (let k = IdForInfo b i; r = txnRevno b + 1;
          b' = b\<lparr>b_entities := AList.update k i (b_entities b), txnRevno := r\<rparr> in
      (b', if watchc b \<noteq> None then [\<lparr>change_C = kind k, change_Id = ident k, change_Revno = r\<rparr>] else []))"

definition setFetchError :: "backing_error option \<Rightarrow> storeManagerTestBacking \<Rightarrow> storeManagerTestBacking" where
  "setFetchError err b = b\<lparr>fetchErr := err\<rparr>"

definition deleteEntity :: "testInfoId \<Rightarrow> storeManagerTestBacking \<Rightarrow> storeManagerTestBacking \<times> change list" where
  "deleteEntity k b =
     (let b' = b\<lparr>b_entities := AList.delete k (b_entities b), txnRevno := txnRevno b + 1\<rparr> in
      (b', if watchc b \<noteq> None then [\<lparr>change_C = kind k, change_Id = ident k, change_Revno = -1\<rparr>] else []))"


text \<open>
  The store manager's loop hands each change received on the watched channel to
  \<open>Changed\<close> and stops at the first error (spec section 4.2; the loop itself is not
  among the sources).
\<close>

fun deliver :: "storeManagerTestBacking \<Rightarrow> test_store \<Rightarrow> change list \<Rightarrow> backing_error + test_store" where
  "deliver b a [] = Inr a"
| "deliver b a (ch # chs) = (case Changed b a ch of Inl err \<Rightarrow> Inl err | Inr a' \<Rightarrow> deliver b a' chs)"

text \<open>The two database edits the tests make while the store manager watches.\<close>

datatype backing_op = UpdateEntity testInfo | DeleteEntity testInfoId

fun backing_step :: "backing_op \<Rightarrow> storeManagerTestBacking \<Rightarrow> storeManagerTestBacking \<times> change list" where
  "backing_step (UpdateEntity i) b = updateEntity i b"
| "backing_step (DeleteEntity k) b = deleteEntity k b"

fun op_key :: "backing_op \<Rightarrow> testInfoId" where
  "op_key (UpdateEntity i) = idForInfo i"
| "op_key (DeleteEntity k) = k"

subsection \<open>The backing's database is keyed by the entities' identifiers\<close>

definition backing_ok :: "storeManagerTestBacking \<Rightarrow> bool" where
  "backing_ok b \<longleftrightarrow> distinct (map fst (b_entities b))
     \<and> (\<forall>x \<in> set (b_entities b). idForInfo (snd x) = fst x)"

lemma set_alist_update: "set (AList.update k v al) \<subseteq> insert (k, v) (set al)"
  by (induction al) auto

lemma keyed_alist_update:
  assumes "\<forall>x \<in> set al. idForInfo (snd x) = fst x"
  shows "\<forall>x \<in> set (AList.update (idForInfo i) i al). idForInfo (snd x) = fst x"
  using assms set_alist_update [of "idForInfo i" i al] by auto

lemma backing_ok_newTestBacking: "backing_ok (newTestBacking initial)"
proof -
  have "distinct (map fst (fold (\<lambda>i m. AList.update (idForInfo i) i m) xs al))
        \<and> (\<forall>x \<in> set (fold (\<lambda>i m. AList.update (idForInfo i) i m) xs al). idForInfo (snd x) = fst x)"
    if "distinct (map fst al)" "\<forall>x \<in> set al. idForInfo (snd x) = fst x" for xs al
    using that
  proof (induction xs arbitrary: al)
    case Nil
    then show ?case by simp
  next
    case (Cons x xs)
    have d: "distinct (map fst (AList.update (idForInfo x) x al))"
      using Cons.prems(1) by (simp add: distinct_update)
    have m: "\<forall>y \<in> set (AList.update (idForInfo x) x al). idForInfo (snd y) = fst y"
      using Cons.prems(2) by (rule keyed_alist_update)
    from Cons.IH [OF d m] show ?case unfolding fold_Cons o_apply .
  qed
  from this [where al = "[]" and xs = initial] show ?thesis
    by (simp add: backing_ok_def newTestBacking_def)
qed

lemma backing_ok_updateEntity:
  "backing_ok b \<Longrightarrow> backing_ok (fst (updateEntity i b))"
  using keyed_alist_update [of "b_entities b" i]
  by (simp add: backing_ok_def updateEntity_def IdForInfo_def Let_def distinct_update)

lemma set_alist_delete: "set (AList.delete k al) \<subseteq> set al"
  by (auto simp: AList.delete_eq)

lemma backing_ok_deleteEntity:
  "backing_ok b \<Longrightarrow> backing_ok (fst (deleteEntity k b))"
  using set_alist_delete [of k "b_entities b"]
  by (auto simp: backing_ok_def deleteEntity_def Let_def distinct_delete)

lemma backing_ok_setFetchError:
  "backing_ok b \<Longrightarrow> backing_ok (setFetchError err b)"
  by (simp add: backing_ok_def setFetchError_def)

subsection \<open>The store mirrors the backing\<close>

definition no_tombstones :: "('k, 'info) store \<Rightarrow> bool" where
  "no_tombstones st \<longleftrightarrow> (\<forall>x \<in> set (entries st). \<not> removed (snd x) \<and> refCount (snd x) = 0)"

lemma fold_Update_mirror:
  assumes "store_inv st" and "no_tombstones st" and "distinct (map fst al)"
  shows "store_inv (fold (\<lambda>(k, i). Update k (Some i)) al st)
       \<and> no_tombstones (fold (\<lambda>(k, i). Update k (Some i)) al st)
       \<and> live (fold (\<lambda>(k, i). Update k (Some i)) al st) = live st ++ map_of al"
  using assms
proof (induction al arbitrary: st rule: rev_induct)
  case Nil
  then show ?case by simp
next
  case (snoc x al)
  obtain k i where x: "x = (k, i)" by fastforce
  let ?st = "fold (\<lambda>(k, i). Update k (Some i)) al st"
  have IH: "store_inv ?st" "no_tombstones ?st" "live ?st = live st ++ map_of al"
    using snoc by auto
  have nt: "\<not> tombstone ?st k"
  proof (cases "entities ?st k")
    case (Some e)
    then have "(k, e) \<in> set (entries ?st)" using store_inv_entries_iff [OF IH(1)] by simp
    then show ?thesis using IH(2) Some by (auto simp: tombstone_def no_tombstones_def)
  qed (simp add: tombstone_def)
  have inv': "store_inv (Update k (Some i) ?st)" using IH(1) by (rule store_inv_Update)
  have "no_tombstones (Update k (Some i) ?st)"
  proof (unfold no_tombstones_def, rule ballI)
    fix y assume y: "y \<in> set (entries (Update k (Some i) ?st))"
    then have at: "entities (Update k (Some i) ?st) (fst y) = Some (snd y)"
      using store_inv_entries_iff [OF inv'] by blast
    show "\<not> removed (snd y) \<and> refCount (snd y) = 0"
    proof (cases "fst y = k")
      case True
      with at have "entities (Update k (Some i) ?st) k = Some (snd y)" by simp
      from Update_entry_cases [OF this] show ?thesis
      proof (elim disjE exE conjE)
        assume eq: "snd y = \<lparr>creationRevno = latestRevno ?st + 1, revno = latestRevno ?st + 1,
                              refCount = 0, removed = False, info = info (snd y)\<rparr>"
        show ?thesis using arg_cong [OF eq, of removed] arg_cong [OF eq, of refCount] by simp
      next
        fix e j assume e: "entities ?st k = Some e" and sy: "snd y = e\<lparr>revno := latestRevno ?st + 1, info := j\<rparr>"
        have "(k, e) \<in> set (entries ?st)" using e store_inv_entries_iff [OF IH(1)] by simp
        then show ?thesis using IH(2) sy by (auto simp: no_tombstones_def)
      qed simp_all
    next
      case False
      then have "y \<in> set (entries ?st)"
        using at entities_Update_other store_inv_entries_iff [OF IH(1)] by metis
      then show ?thesis using IH(2) by (simp add: no_tombstones_def)
    qed
  qed
  moreover have "live (Update k (Some i) ?st) = live st ++ map_of (al @ [x])"
  proof -
    have mk: "map_of al k = None" using snoc.prems(3) x by (simp add: map_of_eq_None_iff)
    have "map_of (al @ [x]) = (map_of al)(k \<mapsto> i)"
      using mk x by (auto simp: map_add_def fun_eq_iff split: option.splits)
    then show ?thesis by (simp add: live_Update [OF nt] IH(3))
  qed
  ultimately show ?case using inv' x by simp
qed

lemma no_tombstones_NewStore: "no_tombstones NewStore"
  by (simp add: no_tombstones_def NewStore_def entries_def)

lemma live_NewStore: "live NewStore = Map.empty"
  by (simp add: live_def NewStore_def fun_eq_iff)

lemma GetAll_mirror:
  assumes "backing_ok b" and "GetAll b NewStore = Inr st"
  shows "store_inv st \<and> no_tombstones st \<and> live st = map_of (b_entities b)"
  using assms fold_Update_mirror [OF store_inv_NewStore no_tombstones_NewStore, of "b_entities b"]
  by (simp add: GetAll_def backing_ok_def live_NewStore)

lemma Changed_ok:
  assumes "fetchErr b = None"
  shows "Changed b st ch = Inr (Update \<lparr>kind = change_C ch, ident = change_Id ch\<rparr>
                                  (map_of (b_entities b) \<lparr>kind = change_C ch, ident = change_Id ch\<rparr>) st)"
  using assms by (simp add: Changed_def fetch_def Let_def split: option.splits)

lemma Changed_error:
  assumes "fetchErr b = Some err" and "err \<noteq> ErrNotFound"
  shows "Changed b st ch = Inl err"
  using assms by (simp add: Changed_def fetch_def Let_def)

subsection \<open>Changes reach the store\<close>

lemma testInfoId_eta [simp]: "\<lparr>kind = kind k, ident = ident k\<rparr> = k"
  by simp

lemma backing_step_change:
  assumes "watchc b \<noteq> None"
  shows "\<exists>ch. snd (backing_step op b) = [ch] \<and> \<lparr>kind = change_C ch, ident = change_Id ch\<rparr> = op_key op"
  using assms by (cases op) (auto simp: updateEntity_def deleteEntity_def IdForInfo_def Let_def)

lemma backing_step_entities:
  "map_of (b_entities (fst (backing_step op b))) =
     (map_of (b_entities b))(op_key op := (case op of UpdateEntity i \<Rightarrow> Some i | DeleteEntity k \<Rightarrow> None))"
  by (cases op) (simp_all add: updateEntity_def deleteEntity_def IdForInfo_def Let_def update_conv' delete_conv')

lemma fetchErr_backing_step [simp]: "fetchErr (fst (backing_step op b)) = fetchErr b"
  by (cases op) (simp_all add: updateEntity_def deleteEntity_def Let_def)

subsection \<open>Properties of the test backing\<close>

text \<open>
  C13. \<open>GetAll\<close> on a fresh store seeds it with exactly the backing's entities: the
  result satisfies the store invariant and its live entities are the backing's map.
\<close>

theorem GetAll_seeds_store:
  assumes "backing_ok b"
  shows "\<exists>a. GetAll b NewStore = Inr a \<and> store_inv a \<and> live a = map_of (b_entities b)"
  using GetAll_mirror [OF assms] by (simp add: GetAll_def)

theorem GetAll_seeds_store_witness:
  "backing_ok (newTestBacking [MachineInfo ''0'' ''i-0'', ServiceInfo ''wordpress'' True]) \<and>
   (\<exists>a. GetAll (newTestBacking [MachineInfo ''0'' ''i-0'', ServiceInfo ''wordpress'' True]) NewStore = Inr a
        \<and> store_inv a
        \<and> live a = map_of (b_entities (newTestBacking [MachineInfo ''0'' ''i-0'', ServiceInfo ''wordpress'' True])))"
  using GetAll_seeds_store [OF backing_ok_newTestBacking] backing_ok_newTestBacking by blast

text \<open>
  C12. Every database edit the test backing makes while watched reaches the store: the
  change it sends, handed to \<open>Changed\<close>, leaves the store's live entities equal to the
  backing's map again, unless new info arrives for an entity whose removal is still
  owed to a watcher (a tombstone, which the specification does not cover).
\<close>

theorem backing_change_mirrored:
  assumes nf: "fetchErr b = None" and w: "watchc b \<noteq> None"
    and m: "live a = map_of (b_entities b)"
    and nt: "case op of UpdateEntity i \<Rightarrow> \<not> tombstone a (idForInfo i) | DeleteEntity k \<Rightarrow> True"
  shows "\<exists>a'. deliver (fst (backing_step op b)) a (snd (backing_step op b)) = Inr a'
              \<and> live a' = map_of (b_entities (fst (backing_step op b)))"
proof -
  let ?b' = "fst (backing_step op b)" and ?k = "op_key op"
  let ?v = "map_of (b_entities ?b') ?k"
  obtain ch where ch: "snd (backing_step op b) = [ch]"
    and k: "\<lparr>kind = change_C ch, ident = change_Id ch\<rparr> = ?k"
    using backing_step_change [OF w] by blast
  have nr: "\<not> revives a ?k ?v"
    using nt backing_step_entities [of op b] by (cases op) (auto simp: revives_def)
  have "deliver ?b' a [ch] = Inr (Update ?k ?v a)"
    using Changed_ok [of ?b' a ch] nf k by simp
  moreover have "live (Update ?k ?v a) = map_of (b_entities ?b')"
    using live_Update_no_revive [OF nr] m by (simp add: backing_step_entities)
  ultimately show ?thesis using ch by auto
qed

theorem backing_change_mirrored_witness:
  "fetchErr ((newTestBacking [])\<lparr>watchc := Some 0\<rparr>) = None \<and> watchc ((newTestBacking [])\<lparr>watchc := Some 0\<rparr>) \<noteq> None
   \<and> live (NewStore :: test_store) = map_of (b_entities ((newTestBacking [])\<lparr>watchc := Some 0\<rparr>))
   \<and> \<not> tombstone (NewStore :: test_store) (idForInfo (MachineInfo ''0'' ''i-0''))
   \<and> (\<exists>a'. deliver (fst (backing_step (UpdateEntity (MachineInfo ''0'' ''i-0'')) ((newTestBacking [])\<lparr>watchc := Some 0\<rparr>)))
              NewStore (snd (backing_step (UpdateEntity (MachineInfo ''0'' ''i-0'')) ((newTestBacking [])\<lparr>watchc := Some 0\<rparr>))) = Inr a'
        \<and> live a' = map_of (b_entities (fst (backing_step (UpdateEntity (MachineInfo ''0'' ''i-0'')) ((newTestBacking [])\<lparr>watchc := Some 0\<rparr>)))))"
proof -
  have h: "fetchErr ((newTestBacking [])\<lparr>watchc := Some 0\<rparr>) = None"
    "watchc ((newTestBacking [])\<lparr>watchc := Some 0\<rparr>) \<noteq> None"
    "live (NewStore :: test_store) = map_of (b_entities ((newTestBacking [])\<lparr>watchc := Some 0\<rparr>))"
    "\<not> tombstone (NewStore :: test_store) (idForInfo (MachineInfo ''0'' ''i-0''))"
      apply (simp_all add: newTestBacking_def live_NewStore)
    by (simp add: tombstone_def NewStore_def)
  show ?thesis
    using h backing_change_mirrored [OF h(1) h(2) h(3), of "UpdateEntity (MachineInfo ''0'' ''i-0'')"] by simp
qed

end
