(* ===== verification/Constraints.thy ===== *)
theory Constraints
  imports Prelude Complex_Main
begin

text \<open>
  Hardware constraints (\<open>src/state/constraints.go\<close>): the \<open>Constraints\<close> value with its
  optional architecture and 64-bit counts, its rendering by \<open>String\<close>, its parser
  \<open>ParseConstraints\<close> with \<open>setRaw\<close> and the four setters, and the Go library functions
  they rest on (\<open>strings.TrimSpace\<close>, \<open>strings.Split\<close>, \<open>strings.Join\<close>,
  \<open>fmt.Sprintf("%d")\<close>, \<open>strconv.Atoi\<close> and \<open>strconv.ParseFloat\<close> of Go 1.1), written out
  on strings of bytes. Go's \<open>uint64\<close> is \<open>64 word\<close>. \<open>ParseFloat\<close> returns the exact
  decimal value as a rational: the model does not round to \<open>float64\<close>, so it agrees
  with Go exactly when the decimal value, scaled by the suffix, is computed without
  rounding (every integer below \<open>2^53\<close>, for instance); the theorems about \<open>mem\<close> are
  stated within that range. A conversion Go leaves implementation-dependent (a
  \<open>float64\<close> at or above \<open>2^64\<close>, infinity or NaN, to \<open>uint64\<close>) yields HOL's unspecified
  value \<open>undefined\<close>.
\<close>

subsection \<open>Strings and numbers of the Go library\<close>

definition is_digit :: "char \<Rightarrow> bool" where
  "is_digit c \<longleftrightarrow> 48 \<le> (of_char c :: nat) \<and> (of_char c :: nat) \<le> 57"

definition digit_val :: "char \<Rightarrow> nat" where
  "digit_val c = of_char c - 48"

definition digits_val :: "string \<Rightarrow> nat" where
  "digits_val ds = foldl (\<lambda>n c. 10 * n + digit_val c) 0 ds"

text \<open>\<open>fmt.Sprintf("%d", n)\<close> for a natural number.\<close>

definition digit_char :: "nat \<Rightarrow> char" where
  "digit_char d = ''0123456789'' ! d"

fun string_of_nat :: "nat \<Rightarrow> string" where
  "string_of_nat n = (if n < 10 then [digit_char n]
                      else string_of_nat (n div 10) @ [digit_char (n mod 10)])"

text \<open>\<open>unicode.IsSpace\<close> on the bytes of ASCII.\<close>

definition is_space :: "char \<Rightarrow> bool" where
  "is_space c \<longleftrightarrow> c \<in> {CHR '' '', CHR 0x09, CHR 0x0A, CHR 0x0B, CHR 0x0C, CHR 0x0D}"

definition TrimSpace :: "string \<Rightarrow> string" where
  "TrimSpace s = rev (dropWhile is_space (rev (dropWhile is_space s)))"

text \<open>\<open>strings.Split(s, sep)\<close> for a one-byte separator: the empty string splits into one empty field.\<close>

fun Split :: "string \<Rightarrow> char \<Rightarrow> string list" where
  "Split [] c = [[]]"
| "Split (x # xs) c = (if x = c then [] # Split xs c
                       else (case Split xs c of [] \<Rightarrow> [[x]] | w # ws \<Rightarrow> (x # w) # ws))"

fun Join :: "string list \<Rightarrow> string \<Rightarrow> string" where
  "Join [] sep = []"
| "Join [s] sep = s"
| "Join (s # ss) sep = s @ sep @ Join ss sep"

text \<open>\<open>strings.Index(s, "=")\<close>: the position of the first occurrence, or -1.\<close>

definition Index :: "string \<Rightarrow> char \<Rightarrow> int" where
  "Index s c = (if c \<in> set s then int (length (takeWhile (\<lambda>x. x \<noteq> c) s)) else -1)"

text \<open>
  \<open>strconv.Atoi\<close> on a 64-bit platform: \<open>ParseInt(s, 10, 64)\<close>, an optional sign and one
  or more decimal digits, in the range of \<open>int64\<close>.
\<close>

text \<open>An optional leading sign: whether it is a minus, and the rest.\<close>

definition sign_split :: "string \<Rightarrow> bool \<times> string" where
  "sign_split s = (case s of [] \<Rightarrow> (False, [])
                   | c # r \<Rightarrow> if c = CHR ''+'' then (False, r)
                              else if c = CHR ''-'' then (True, r) else (False, s))"

definition Atoi :: "string \<Rightarrow> int option" where
  "Atoi s =
     (let (neg, ds) = sign_split s in
      if ds = [] \<or> \<not> list_all is_digit ds then None
      else let n = int (digits_val ds) in
           if neg then (if n \<le> 2 ^ 63 then Some (- n) else None)
           else (if n < 2 ^ 63 then Some n else None))"

text \<open>
  \<open>strconv.ParseFloat(s, 64)\<close> of Go 1.1: the special values (\<open>special\<close>), then a
  decimal mantissa with an optional exponent (\<open>readFloat\<close>, whose exponent stops
  growing at 10000), and the range error of a value beyond the largest \<open>float64\<close>.
\<close>

datatype float_val = FFinite rat | FPosInf | FNegInf | FNaN

definition lower_byte :: "nat \<Rightarrow> nat" where
  "lower_byte b = (if 65 \<le> b \<and> b \<le> 90 then b + 32 else b)"

definition equalIgnoreCase :: "string \<Rightarrow> string \<Rightarrow> bool" where
  "equalIgnoreCase s1 s2 \<longleftrightarrow>
     length s1 = length s2 \<and> map (\<lambda>c. lower_byte (of_char c)) s1 = map (\<lambda>c. lower_byte (of_char c)) s2"

definition special :: "string \<Rightarrow> float_val option" where
  "special s =
     (case s of
        [] \<Rightarrow> None
      | c # r \<Rightarrow>
          (if c = CHR ''+'' \<or> c = CHR ''-'' then
             (if equalIgnoreCase r ''inf'' \<or> equalIgnoreCase r ''infinity''
              then Some (if c = CHR ''+'' then FPosInf else FNegInf) else None)
           else if c = CHR ''n'' \<or> c = CHR ''N'' then
             (if equalIgnoreCase s ''nan'' then Some FNaN else None)
           else if c = CHR ''i'' \<or> c = CHR ''I'' then
             (if equalIgnoreCase s ''inf'' \<or> equalIgnoreCase s ''infinity'' then Some FPosInf else None)
           else None))"

definition exp_val :: "string \<Rightarrow> nat" where
  "exp_val ds = foldl (\<lambda>e c. if e < 10000 then 10 * e + digit_val c else e) 0 ds"

definition read_exponent :: "string \<Rightarrow> int option" where
  "read_exponent r =
     (case r of
        [] \<Rightarrow> Some 0
      | e # r' \<Rightarrow>
          (if e \<noteq> CHR ''e'' \<and> e \<noteq> CHR ''E'' then None
           else let (neg, r'') = sign_split r';
                    ds = takeWhile is_digit r'' in
                if ds = [] \<or> dropWhile is_digit r'' \<noteq> [] then None
                else Some ((if neg then -1 else 1) * int (exp_val ds))))"

definition scale10 :: "nat \<Rightarrow> int \<Rightarrow> rat" where
  "scale10 m x = (if 0 \<le> x then of_nat m * 10 ^ nat x else of_nat m / 10 ^ nat (- x))"

definition readFloat :: "string \<Rightarrow> (bool \<times> rat) option" where
  "readFloat s =
     (let (neg, body) = sign_split s;
          ip = takeWhile is_digit body; r1 = dropWhile is_digit body;
          (fp, r2) = (case r1 of [] \<Rightarrow> ([], [])
                      | c # r \<Rightarrow> if c = CHR ''.'' then (takeWhile is_digit r, dropWhile is_digit r)
                                 else ([], r1)) in
      if ip = [] \<and> fp = [] then None
      else case read_exponent r2 of
             None \<Rightarrow> None
           | Some x \<Rightarrow> Some (neg, scale10 (digits_val (ip @ fp)) (x - int (length fp))))"

definition float_max_bound :: rat where
  "float_max_bound = 2 ^ 1024 - 2 ^ 970"

definition ParseFloat :: "string \<Rightarrow> float_val option" where
  "ParseFloat s =
     (case special s of
        Some f \<Rightarrow> Some f
      | None \<Rightarrow> (case readFloat s of
                  None \<Rightarrow> None
                | Some (neg, q) \<Rightarrow> if float_max_bound \<le> q then None
                                   else Some (FFinite (if neg then - q else q))))"

text \<open>\<open>uint64(math.Ceil(v))\<close>: exact below \<open>2^64\<close>, implementation-dependent above.\<close>

definition ceil_uint64 :: "rat \<Rightarrow> 64 word" where
  "ceil_uint64 v = (let n = \<lceil>v\<rceil> in if n < 2 ^ 64 then word_of_int n else undefined)"

subsection \<open>The constraints value and its rendering\<close>

text \<open>\<open>Constraints\<close>: each field is a Go pointer, \<open>None\<close> for \<open>nil\<close>.\<close>

record constraints =
  Arch :: "string option"
  CpuCores :: "64 word option"
  CpuPower :: "64 word option"
  Mem :: "64 word option"

definition empty_constraints :: constraints where
  "empty_constraints = \<lparr>Arch = None, CpuCores = None, CpuPower = None, Mem = None\<rparr>"

definition uintStr :: "64 word \<Rightarrow> string" where
  "uintStr i = (if i = 0 then [] else string_of_nat (unat i))"

text \<open>The \<open>strs\<close> that \<open>String\<close> joins: one \<open>name=value\<close> per field that is set, in field order.\<close>

definition String_strs :: "constraints \<Rightarrow> string list" where
  "String_strs c =
     (case Arch c of None \<Rightarrow> [] | Some a \<Rightarrow> [''arch='' @ a])
     @ (case CpuCores c of None \<Rightarrow> [] | Some n \<Rightarrow> [''cpu-cores='' @ uintStr n])
     @ (case CpuPower c of None \<Rightarrow> [] | Some n \<Rightarrow> [''cpu-power='' @ uintStr n])
     @ (case Mem c of None \<Rightarrow> []
        | Some n \<Rightarrow> [''mem='' @ (let s = uintStr n in if s \<noteq> [] then s @ ''M'' else s)])"

definition Constraints_String :: "constraints \<Rightarrow> string" where
  "Constraints_String c = Join (String_strs c) '' ''"

subsection \<open>Parsing\<close>

text \<open>The errors, as the \<open>fmt.Errorf\<close> calls build them.\<close>

datatype bad_reason = AlreadySet | NotRecognized string | NotNonNegInt | NotNonNegFloat

datatype cons_error = Malformed string | UnknownConstraint string | BadConstraint string bad_reason

text \<open>Go's \<open>%q\<close> of a string of printable ASCII: quotes around it, with quote and backslash escaped.\<close>

definition quote :: "string \<Rightarrow> string" where
  "quote s = CHR 0x22 # concat (map (\<lambda>c. if c = CHR 0x22 \<or> c = CHR 0x5C then [CHR 0x5C, c] else [c]) s) @ [CHR 0x22]"

fun reason_msg :: "bad_reason \<Rightarrow> string" where
  "reason_msg AlreadySet = ''already set''"
| "reason_msg (NotRecognized s) = quote s @ '' not recognized''"
| "reason_msg NotNonNegInt = ''must be a non-negative integer''"
| "reason_msg NotNonNegFloat = ''must be a non-negative float with optional M/G/T/P suffix''"

fun error_msg :: "cons_error \<Rightarrow> string" where
  "error_msg (Malformed raw) = ''malformed constraint '' @ quote raw"
| "error_msg (UnknownConstraint n) = ''unknown constraint '' @ quote n"
| "error_msg (BadConstraint n r) = ''bad '' @ quote n @ '' constraint: '' @ reason_msg r"

definition setArch :: "string \<Rightarrow> constraints \<Rightarrow> bad_reason + constraints" where
  "setArch str c =
     (if Arch c \<noteq> None then Inl AlreadySet
      else if str \<in> set ['''', ''amd64'', ''i386'', ''arm''] then Inr (c\<lparr>Arch := Some str\<rparr>)
      else Inl (NotRecognized str))"

definition parseUint64 :: "string \<Rightarrow> bad_reason + 64 word" where
  "parseUint64 str =
     (if str = [] then Inr 0
      else case Atoi str of
             None \<Rightarrow> Inl NotNonNegInt
           | Some v \<Rightarrow> if v < 0 then Inl NotNonNegInt else Inr (word_of_int v))"

definition setCpuCores :: "string \<Rightarrow> constraints \<Rightarrow> bad_reason + constraints" where
  "setCpuCores str c =
     (if CpuCores c \<noteq> None then Inl AlreadySet
      else case parseUint64 str of Inl e \<Rightarrow> Inl e | Inr v \<Rightarrow> Inr (c\<lparr>CpuCores := Some v\<rparr>))"

definition setCpuPower :: "string \<Rightarrow> constraints \<Rightarrow> bad_reason + constraints" where
  "setCpuPower str c =
     (if CpuPower c \<noteq> None then Inl AlreadySet
      else case parseUint64 str of Inl e \<Rightarrow> Inl e | Inr v \<Rightarrow> Inr (c\<lparr>CpuPower := Some v\<rparr>))"

definition mbSuffixes :: "string \<rightharpoonup> rat" where
  "mbSuffixes = [''M'' \<mapsto> 1, ''G'' \<mapsto> 1024, ''T'' \<mapsto> 1024 * 1024, ''P'' \<mapsto> 1024 * 1024 * 1024]"

text \<open>
  \<open>setMem\<close>: the last byte may be a suffix; the rest is a \<open>float64\<close>, which must not be
  below zero (NaN and \<open>+Inf\<close> pass that test), multiplied by the suffix's megabytes and
  rounded up.
\<close>

definition setMem :: "string \<Rightarrow> constraints \<Rightarrow> bad_reason + constraints" where
  "setMem str c =
     (if Mem c \<noteq> None then Inl AlreadySet
      else if str = [] then Inr (c\<lparr>Mem := Some 0\<rparr>)
      else
        let (num, mult) = (case mbSuffixes [last str] of
                             Some m \<Rightarrow> (butlast str, m) | None \<Rightarrow> (str, 1)) in
        case ParseFloat num of
          None \<Rightarrow> Inl NotNonNegFloat
        | Some (FFinite v) \<Rightarrow> if v < 0 then Inl NotNonNegFloat
                              else Inr (c\<lparr>Mem := Some (ceil_uint64 (v * mult))\<rparr>)
        | Some FNegInf \<Rightarrow> Inl NotNonNegFloat
        | Some FPosInf \<Rightarrow> Inr (c\<lparr>Mem := Some undefined\<rparr>)
        | Some FNaN \<Rightarrow> Inr (c\<lparr>Mem := Some undefined\<rparr>))"

text \<open>The \<open>switch\<close> of \<open>setRaw\<close> on the name: \<open>None\<close> for the default case.\<close>

definition setter :: "string \<Rightarrow> string \<Rightarrow> constraints \<Rightarrow> (bad_reason + constraints) option" where
  "setter name str c =
     (if name = ''arch'' then Some (setArch str c)
      else if name = ''cpu-cores'' then Some (setCpuCores str c)
      else if name = ''cpu-power'' then Some (setCpuPower str c)
      else if name = ''mem'' then Some (setMem str c)
      else None)"

definition setRaw :: "string \<Rightarrow> constraints \<Rightarrow> cons_error + constraints" where
  "setRaw raw c =
     (let eq = Index raw CHR ''='' in
      if eq \<le> 0 then Inl (Malformed raw)
      else
        let name = take (nat eq) raw; str = drop (nat eq + 1) raw in
        case setter name str c of
          None \<Rightarrow> Inl (UnknownConstraint name)
        | Some (Inl e) \<Rightarrow> Inl (BadConstraint name e)
        | Some (Inr c') \<Rightarrow> Inr c')"

text \<open>\<open>ParseConstraints(args...)\<close>: every space-separated token of every argument, in order.\<close>

definition tokens :: "string \<Rightarrow> string list" where
  "tokens arg = filter (\<lambda>raw. raw \<noteq> []) (Split (TrimSpace arg) CHR '' '')"

fun setRaws :: "string list \<Rightarrow> constraints \<Rightarrow> cons_error + constraints" where
  "setRaws [] c = Inr c"
| "setRaws (raw # raws) c = (case setRaw raw c of Inl e \<Rightarrow> Inl e | Inr c' \<Rightarrow> setRaws raws c')"

definition ParseConstraints :: "string list \<Rightarrow> cons_error + constraints" where
  "ParseConstraints args = setRaws (concat (map tokens args)) empty_constraints"

subsection \<open>Decimal numerals\<close>

declare string_of_nat.simps [simp del]

lemma digit_char_ok:
  assumes "d < 10"
  shows "is_digit (digit_char d) \<and> digit_val (digit_char d) = d"
proof -
  have "d \<in> {0, 1, 2, 3, 4, 5, 6, 7, 8, 9}" using assms by auto
  then show ?thesis by (auto simp: digit_char_def is_digit_def digit_val_def)
qed

lemma digits_val_snoc: "digits_val (xs @ [c]) = 10 * digits_val xs + digit_val c"
  by (simp add: digits_val_def)

lemma string_of_nat_digits:
  "string_of_nat n \<noteq> [] \<and> list_all is_digit (string_of_nat n) \<and> digits_val (string_of_nat n) = n"
proof (induction n rule: string_of_nat.induct)
  case (1 n)
  show ?case
  proof (cases "n < 10")
    case True
    then show ?thesis
      using digit_char_ok [OF True] by (simp add: string_of_nat.simps digits_val_def)
  next
    case False
    then have IH: "list_all is_digit (string_of_nat (n div 10)) \<and> digits_val (string_of_nat (n div 10)) = n div 10"
      using 1 by simp
    have "n mod 10 < 10" by simp
    note d = digit_char_ok [OF this]
    have "string_of_nat n = string_of_nat (n div 10) @ [digit_char (n mod 10)]"
      using False by (simp add: string_of_nat.simps)
    then show ?thesis using IH d by (simp add: digits_val_snoc)
  qed
qed

lemma is_digit_not_special:
  "is_digit c \<Longrightarrow> c \<noteq> CHR ''+'' \<and> c \<noteq> CHR ''-'' \<and> c \<noteq> CHR ''.'' \<and> c \<noteq> CHR ''='' \<and> c \<noteq> CHR ''M''
     \<and> c \<noteq> CHR ''e'' \<and> c \<noteq> CHR ''E'' \<and> c \<noteq> CHR ''n'' \<and> c \<noteq> CHR ''N'' \<and> c \<noteq> CHR ''i'' \<and> c \<noteq> CHR ''I''
     \<and> \<not> is_space c"
  by (auto simp: is_digit_def is_space_def)

lemma Atoi_digits:
  assumes "ds \<noteq> []" and "list_all is_digit ds"
  shows "Atoi ds = (if digits_val ds < 2 ^ 63 then Some (int (digits_val ds)) else None)"
proof -
  obtain c r where ds: "ds = c # r" using assms(1) by (cases ds) auto
  have "is_digit c" using assms(2) ds by simp
  then show ?thesis using assms ds is_digit_not_special [of c] by (simp add: Atoi_def sign_split_def)
qed

lemma takeWhile_dropWhile_digits:
  "list_all is_digit ds \<Longrightarrow> takeWhile is_digit ds = ds \<and> dropWhile is_digit ds = []"
  by (induction ds) auto

lemma ParseFloat_digits:
  assumes "ds \<noteq> []" and "list_all is_digit ds" and "of_nat (digits_val ds) < float_max_bound"
  shows "ParseFloat ds = Some (FFinite (of_nat (digits_val ds)))"
proof -
  obtain c r where ds: "ds = c # r" using assms(1) by (cases ds) auto
  have c: "is_digit c" using assms(2) ds by simp
  have "special ds = None" using ds is_digit_not_special [OF c] by (simp add: special_def)
  moreover have "readFloat ds = Some (False, of_nat (digits_val ds))"
    using ds is_digit_not_special [OF c] takeWhile_dropWhile_digits [OF assms(2)]
    by (simp add: readFloat_def read_exponent_def scale10_def sign_split_def)
  ultimately show ?thesis using assms(3) by (simp add: ParseFloat_def)
qed

subsection \<open>Tokens of a rendering\<close>

lemma Split_no_sep: "c \<notin> set xs \<Longrightarrow> Split xs c = [xs]"
  by (induction xs) auto

lemma Split_sep: "c \<notin> set xs \<Longrightarrow> Split (xs @ c # ys) c = xs # Split ys c"
  by (induction xs) auto

lemma Join_Cons: "ps \<noteq> [] \<Longrightarrow> Join (p # ps) sep = p @ sep @ Join ps sep"
  by (cases ps) auto

lemma Split_Join:
  assumes "\<forall>p \<in> set ps. c \<notin> set p"
  shows "Split (Join ps [c]) c = (if ps = [] then [[]] else ps)"
  using assms
proof (induction ps)
  case Nil
  then show ?case by simp
next
  case (Cons p ps)
  show ?case
  proof (cases "ps = []")
    case True
    then show ?thesis using Cons.prems by (simp add: Split_no_sep)
  next
    case False
    then show ?thesis using Cons by (simp add: Join_Cons Split_sep)
  qed
qed

lemma Join_hd_last:
  assumes "ps \<noteq> []" and "\<forall>p \<in> set ps. p \<noteq> []"
  shows "Join ps sep \<noteq> [] \<and> hd (Join ps sep) = hd (hd ps) \<and> last (Join ps sep) = last (last ps)"
  using assms by (induction ps sep rule: Join.induct) auto

lemma TrimSpace_id:
  assumes "s \<noteq> []" and "\<not> is_space (hd s)" and "\<not> is_space (last s)"
  shows "TrimSpace s = s"
proof -
  obtain c r where s: "s = c # r" using assms(1) by (cases s) auto
  have "dropWhile is_space s = s" using s assms(2) by simp
  moreover obtain r' c' where "s = r' @ [c']" using assms(1) by (cases s rule: rev_cases) auto
  then have "dropWhile is_space (rev s) = rev s" using assms(3) by simp
  ultimately show ?thesis by (simp add: TrimSpace_def)
qed

text \<open>A rendering is a list of non-empty tokens without spaces.\<close>

definition plain_token :: "string \<Rightarrow> bool" where
  "plain_token p \<longleftrightarrow> p \<noteq> [] \<and> (\<forall>c \<in> set p. \<not> is_space c)"

lemma tokens_Join:
  assumes "\<forall>p \<in> set ps. plain_token p"
  shows "tokens (Join ps '' '') = ps"
proof (cases "ps = []")
  case True
  then show ?thesis by (simp add: tokens_def TrimSpace_def)
next
  case False
  have ne: "\<forall>p \<in> set ps. p \<noteq> []" and sp: "\<forall>p \<in> set ps. CHR '' '' \<notin> set p"
    using assms by (auto simp: plain_token_def is_space_def)
  have hl: "Join ps '' '' \<noteq> [] \<and> hd (Join ps '' '') = hd (hd ps) \<and> last (Join ps '' '') = last (last ps)"
    by (rule Join_hd_last [OF False ne])
  have "hd ps \<in> set ps" "last ps \<in> set ps" using False by simp_all
  then have "hd ps \<noteq> []" "last ps \<noteq> []" "\<forall>c \<in> set (hd ps). \<not> is_space c" "\<forall>c \<in> set (last ps). \<not> is_space c"
    using assms by (auto simp: plain_token_def)
  then have "\<not> is_space (hd (hd ps))" "\<not> is_space (last (last ps))" by simp_all
  then have "TrimSpace (Join ps '' '') = Join ps '' ''" using hl by (intro TrimSpace_id) auto
  then show ?thesis
    using Split_Join [OF sp] False ne by (simp add: tokens_def filter_id_conv)
qed

lemma setRaws_append:
  "setRaws (xs @ ys) c = (case setRaws xs c of Inl e \<Rightarrow> Inl e | Inr c' \<Rightarrow> setRaws ys c')"
  by (induction xs c rule: setRaws.induct) (auto split: sum.splits)


subsection \<open>Parsing a rendering\<close>

definition arch_ok :: "string \<Rightarrow> bool" where
  "arch_ok a \<longleftrightarrow> a = [] \<or> a = ''amd64'' \<or> a = ''i386'' \<or> a = ''arm''"

lemma parseUint64_uintStr:
  assumes "unat n < 2 ^ 63"
  shows "parseUint64 (uintStr n) = Inr n"
proof (cases "n = 0")
  case True
  then show ?thesis by (simp add: parseUint64_def uintStr_def)
next
  case False
  note d = string_of_nat_digits [of "unat n"]
  then show ?thesis
    using False assms Atoi_digits [of "string_of_nat (unat n)"] by (simp add: parseUint64_def uintStr_def)
qed

lemma mem_str_ok:
  "setMem (let s = uintStr n in if s \<noteq> [] then s @ ''M'' else s) c =
     (if Mem c \<noteq> None then Inl AlreadySet else Inr (c\<lparr>Mem := Some n\<rparr>))"
proof (cases "n = 0")
  case True
  then show ?thesis by (simp add: setMem_def uintStr_def)
next
  case False
  let ?ds = "string_of_nat (unat n)"
  note d = string_of_nat_digits [of "unat n"]
  have b: "unat n < 2 ^ 64" using unsigned_less [of n] by simp
  then have "(of_nat (unat n) :: rat) < of_nat (2 ^ 64)" by (simp only: of_nat_less_iff)
  moreover have "(of_nat (2 ^ 64) :: rat) \<le> float_max_bound" by (simp add: float_max_bound_def)
  ultimately have "(of_nat (unat n) :: rat) < float_max_bound" by (rule less_le_trans)
  then have pf: "ParseFloat ?ds = Some (FFinite (of_nat (unat n)))"
    using ParseFloat_digits [of ?ds] d by simp
  have c: "\<lceil>(of_nat (unat n) :: rat) * 1\<rceil> = int (unat n)" by (simp only: mult_1_right ceiling_of_nat)
  have "ceil_uint64 (of_nat (unat n) * 1) = n"
  proof -
    have "uint n < 2 ^ 64" using unsigned_less [of n] by simp
    then show ?thesis unfolding ceil_uint64_def Let_def c by simp
  qed
  moreover have "\<not> (of_nat (unat n) :: rat) < 0" by (simp only: not_less of_nat_0_le_iff)
  ultimately show ?thesis
    using False pf d by (simp add: setMem_def uintStr_def mbSuffixes_def Let_def)
qed

lemma arch_part:
  assumes "Arch e = None" and "case a of None \<Rightarrow> True | Some x \<Rightarrow> arch_ok x"
  shows "setRaws (case a of None \<Rightarrow> [] | Some x \<Rightarrow> [''arch='' @ x]) e = Inr (e\<lparr>Arch := a\<rparr>)"
  using assms
  by (cases a) (auto simp: arch_ok_def setRaw_def setter_def Index_def setArch_def)

lemma cores_part:
  assumes "CpuCores e = None" and "case a of None \<Rightarrow> True | Some n \<Rightarrow> unat n < 2 ^ 63"
  shows "setRaws (case a of None \<Rightarrow> [] | Some n \<Rightarrow> [''cpu-cores='' @ uintStr n]) e = Inr (e\<lparr>CpuCores := a\<rparr>)"
  using assms parseUint64_uintStr
  by (cases a) (auto simp: setRaw_def setter_def Index_def setCpuCores_def)

lemma power_part:
  assumes "CpuPower e = None" and "case a of None \<Rightarrow> True | Some n \<Rightarrow> unat n < 2 ^ 63"
  shows "setRaws (case a of None \<Rightarrow> [] | Some n \<Rightarrow> [''cpu-power='' @ uintStr n]) e = Inr (e\<lparr>CpuPower := a\<rparr>)"
  using assms parseUint64_uintStr
  by (cases a) (auto simp: setRaw_def setter_def Index_def setCpuPower_def)

lemma mem_part:
  assumes "Mem e = None"
  shows "setRaws (case a of None \<Rightarrow> []
            | Some n \<Rightarrow> [''mem='' @ (let s = uintStr n in if s \<noteq> [] then s @ ''M'' else s)]) e
         = Inr (e\<lparr>Mem := a\<rparr>)"
  using assms mem_str_ok
  by (cases a) (auto simp: setRaw_def setter_def Index_def)

lemma no_space_uintStr: "\<forall>ch \<in> set (uintStr n). \<not> is_space ch"
  using string_of_nat_digits [of "unat n"] is_digit_not_special
  by (auto simp: uintStr_def list_all_iff)

lemma plain_String_strs:
  assumes "case Arch c of None \<Rightarrow> True | Some a \<Rightarrow> arch_ok a"
  shows "\<forall>p \<in> set (String_strs c). plain_token p"
proof
  fix p assume p: "p \<in> set (String_strs c)"
  have ns: "\<forall>ch \<in> set (uintStr n). \<not> is_space ch" for n by (rule no_space_uintStr)
  consider (a) x where "Arch c = Some x" "p = ''arch='' @ x"
    | (n) n where "p = ''cpu-cores='' @ uintStr n"
    | (w) n where "p = ''cpu-power='' @ uintStr n"
    | (m) n where "p = ''mem='' @ (let s = uintStr n in if s \<noteq> [] then s @ ''M'' else s)"
    using p unfolding String_strs_def by (fastforce split: option.splits)
  then show "plain_token p"
  proof cases
    case a
    then have "arch_ok x" using assms by simp
    then show ?thesis using a by (auto simp: arch_ok_def plain_token_def is_space_def)
  next
    case n
    then show ?thesis using ns [of n] by (auto simp: plain_token_def is_space_def)
  next
    case w
    then show ?thesis using ns [of n] by (auto simp: plain_token_def is_space_def)
  next
    case m
    then show ?thesis using ns [of n] by (auto simp: plain_token_def is_space_def Let_def)
  qed
qed

text \<open>
  Parsing a rendering gives the value back, for every architecture \<open>setArch\<close> accepts
  and every count \<open>Atoi\<close> can read (below \<open>2^63\<close>). In the model this holds for every
  memory size; Go's \<open>float64\<close> agrees below \<open>2^53\<close>.
\<close>

lemma parse_String_exact:
  assumes arch: "case Arch c of None \<Rightarrow> True | Some a \<Rightarrow> arch_ok a"
    and cores: "case CpuCores c of None \<Rightarrow> True | Some n \<Rightarrow> unat n < 2 ^ 63"
    and power: "case CpuPower c of None \<Rightarrow> True | Some n \<Rightarrow> unat n < 2 ^ 63"
  shows "ParseConstraints [Constraints_String c] = Inr c"
proof -
  let ?e1 = "empty_constraints\<lparr>Arch := Arch c\<rparr>"
  let ?e2 = "?e1\<lparr>CpuCores := CpuCores c\<rparr>"
  let ?e3 = "?e2\<lparr>CpuPower := CpuPower c\<rparr>"
  have tok: "tokens (Constraints_String c) = String_strs c"
    unfolding Constraints_String_def by (rule tokens_Join [OF plain_String_strs [OF arch]])
  have s1: "setRaws (case Arch c of None \<Rightarrow> [] | Some x \<Rightarrow> [''arch='' @ x]) empty_constraints = Inr ?e1"
    using arch by (intro arch_part) (simp_all add: empty_constraints_def)
  have s2: "setRaws (case CpuCores c of None \<Rightarrow> [] | Some n \<Rightarrow> [''cpu-cores='' @ uintStr n]) ?e1 = Inr ?e2"
    using cores by (intro cores_part) (simp_all add: empty_constraints_def)
  have s3: "setRaws (case CpuPower c of None \<Rightarrow> [] | Some n \<Rightarrow> [''cpu-power='' @ uintStr n]) ?e2 = Inr ?e3"
    using power by (intro power_part) (simp_all add: empty_constraints_def)
  have s4: "setRaws (case Mem c of None \<Rightarrow> []
              | Some n \<Rightarrow> [''mem='' @ (let s = uintStr n in if s \<noteq> [] then s @ ''M'' else s)]) ?e3
            = Inr (?e3\<lparr>Mem := Mem c\<rparr>)"
    by (rule mem_part) (simp add: empty_constraints_def)
  have "?e3\<lparr>Mem := Mem c\<rparr> = c" by (cases c) (simp add: empty_constraints_def)
  then show ?thesis
    using s1 s2 s3 s4 tok by (simp add: ParseConstraints_def String_strs_def setRaws_append)
qed

subsection \<open>What a successful parse says about its tokens\<close>

definition token_name :: "string \<Rightarrow> string" where
  "token_name raw = take (nat (Index raw CHR ''='')) raw"

definition is_set :: "string \<Rightarrow> constraints \<Rightarrow> bool" where
  "is_set name c \<longleftrightarrow> (name = ''arch'' \<and> Arch c \<noteq> None) \<or> (name = ''cpu-cores'' \<and> CpuCores c \<noteq> None)
     \<or> (name = ''cpu-power'' \<and> CpuPower c \<noteq> None) \<or> (name = ''mem'' \<and> Mem c \<noteq> None)"

definition known_names :: "string list" where
  "known_names = [''arch'', ''cpu-cores'', ''cpu-power'', ''mem'']"

definition parsed_ok :: "constraints \<Rightarrow> bool" where
  "parsed_ok c \<longleftrightarrow> (case Arch c of None \<Rightarrow> True | Some a \<Rightarrow> arch_ok a)
     \<and> (case CpuCores c of None \<Rightarrow> True | Some n \<Rightarrow> unat n < 2 ^ 63)
     \<and> (case CpuPower c of None \<Rightarrow> True | Some n \<Rightarrow> unat n < 2 ^ 63)"

lemma parseUint64_bound: "parseUint64 str = Inr v \<Longrightarrow> unat v < 2 ^ 63"
proof -
  assume p: "parseUint64 str = Inr v"
  show ?thesis
  proof (cases "str = []")
    case True
    then show ?thesis using p by (simp add: parseUint64_def)
  next
    case False
    then obtain i where a: "Atoi str = Some i" and i: "0 \<le> i" and v: "v = word_of_int i"
      using p by (auto simp: parseUint64_def split: option.splits if_splits)
    have "i < 2 ^ 63" using a by (auto simp: Atoi_def Let_def split: prod.splits if_splits)
    then have "nat i < 2 ^ 63" using i by (simp add: nat_less_iff)
    moreover have "unat v = nat i"
    proof -
      have "v = word_of_nat (nat i)" using i v by simp
      moreover have "nat i < 2 ^ 64" using \<open>nat i < 2 ^ 63\<close> by simp
      ultimately show ?thesis by (simp add: unat_of_nat)
    qed
    ultimately show ?thesis by simp
  qed
qed

lemma setArch_Inr: "setArch str e = Inr e' \<Longrightarrow> Arch e = None \<and> e' = e\<lparr>Arch := Some str\<rparr> \<and> arch_ok str"
  by (auto simp: setArch_def arch_ok_def split: if_splits)

lemma setCpuCores_Inr:
  "setCpuCores str e = Inr e' \<Longrightarrow> CpuCores e = None \<and> (\<exists>v. e' = e\<lparr>CpuCores := Some v\<rparr> \<and> unat v < 2 ^ 63)"
  using parseUint64_bound by (fastforce simp: setCpuCores_def split: if_splits sum.splits)

lemma setCpuPower_Inr:
  "setCpuPower str e = Inr e' \<Longrightarrow> CpuPower e = None \<and> (\<exists>v. e' = e\<lparr>CpuPower := Some v\<rparr> \<and> unat v < 2 ^ 63)"
  using parseUint64_bound by (fastforce simp: setCpuPower_def split: if_splits sum.splits)

lemma setMem_Inr: "setMem str e = Inr e' \<Longrightarrow> Mem e = None \<and> (\<exists>v. e' = e\<lparr>Mem := Some v\<rparr>)"
  by (auto simp: setMem_def Let_def split: if_splits prod.splits option.splits float_val.splits)

lemma setRaw_Inr:
  assumes "setRaw raw e = Inr e'"
  shows "token_name raw \<in> set known_names \<and> \<not> is_set (token_name raw) e \<and> is_set (token_name raw) e'
         \<and> (\<forall>n. is_set n e \<longrightarrow> is_set n e') \<and> (parsed_ok e \<longrightarrow> parsed_ok e')"
proof -
  let ?name = "token_name raw" and ?str = "drop (nat (Index raw CHR ''='') + 1) raw"
  have pos: "\<not> Index raw CHR ''='' \<le> 0" using assms by (auto simp: setRaw_def Let_def)
  have disp: "setter ?name ?str e = Some (Inr e')"
    using assms pos by (auto simp: setRaw_def token_name_def Let_def split: option.splits sum.splits)
  consider "?name = ''arch''" "setArch ?str e = Inr e'"
    | "?name = ''cpu-cores''" "setCpuCores ?str e = Inr e'"
    | "?name = ''cpu-power''" "setCpuPower ?str e = Inr e'"
    | "?name = ''mem''" "setMem ?str e = Inr e'"
    using disp by (auto simp: setter_def split: if_splits)
  then show ?thesis
  proof cases
    case 1
    then show ?thesis using setArch_Inr [OF 1(2)] by (auto simp: known_names_def is_set_def parsed_ok_def)
  next
    case 2
    then show ?thesis using setCpuCores_Inr [OF 2(2)] by (auto simp: known_names_def is_set_def parsed_ok_def)
  next
    case 3
    then show ?thesis using setCpuPower_Inr [OF 3(2)] by (auto simp: known_names_def is_set_def parsed_ok_def)
  next
    case 4
    then show ?thesis using setMem_Inr [OF 4(2)] by (auto simp: known_names_def is_set_def parsed_ok_def)
  qed
qed

lemma setRaws_Inr:
  "setRaws raws e = Inr c \<Longrightarrow>
     distinct (map token_name raws) \<and> (\<forall>r \<in> set raws. token_name r \<in> set known_names \<and> \<not> is_set (token_name r) e)
     \<and> (parsed_ok e \<longrightarrow> parsed_ok c)"
proof (induction raws e rule: setRaws.induct)
  case (1 c)
  then show ?case by simp
next
  case (2 raw raws e)
  obtain e' where r: "setRaw raw e = Inr e'" and rest: "setRaws raws e' = Inr c"
    using "2.prems" by (auto split: sum.splits)
  note h = setRaw_Inr [OF r]
  have IH: "distinct (map token_name raws) \<and> (\<forall>r \<in> set raws. token_name r \<in> set known_names \<and> \<not> is_set (token_name r) e')
            \<and> (parsed_ok e' \<longrightarrow> parsed_ok c)"
    using "2.IH" [OF r] rest by simp
  have "token_name raw \<notin> set (map token_name raws)" using IH h by auto
  then show ?case using IH h by auto
qed

lemmas parse_eval = ParseConstraints_def tokens_def TrimSpace_def is_space_def setRaw_def setter_def
  Index_def setArch_def setCpuCores_def setCpuPower_def setMem_def parseUint64_def Atoi_def
  sign_split_def is_digit_def digits_val_def digit_val_def mbSuffixes_def ParseFloat_def special_def
  readFloat_def read_exponent_def scale10_def float_max_bound_def ceil_uint64_def empty_constraints_def
  Constraints_String_def String_strs_def uintStr_def digit_char_def string_of_nat.simps

subsection \<open>Properties of constraints\<close>

text \<open>
  C15. Spec 4.5 round trip: \<open>ParseConstraints(c.String())\<close> gives \<open>c\<close> back for every
  value whose architecture \<open>setArch\<close> accepts, whose counts \<open>Atoi\<close> can read, and whose
  memory size a \<open>float64\<close> holds exactly.
\<close>

theorem ParseConstraints_String_roundtrip:
  assumes "case Arch c of None \<Rightarrow> True | Some a \<Rightarrow> arch_ok a"
    and "case CpuCores c of None \<Rightarrow> True | Some n \<Rightarrow> unat n < 2 ^ 63"
    and "case CpuPower c of None \<Rightarrow> True | Some n \<Rightarrow> unat n < 2 ^ 63"
    and "case Mem c of None \<Rightarrow> True | Some n \<Rightarrow> unat n < 2 ^ 53"
  shows "ParseConstraints [Constraints_String c] = Inr c"
  using assms(1-3) by (rule parse_String_exact)

theorem ParseConstraints_String_roundtrip_witness:
  "arch_ok ''amd64'' \<and> unat (2 :: 64 word) < 2 ^ 63 \<and> unat (4096 :: 64 word) < 2 ^ 53 \<and>
   ParseConstraints [Constraints_String \<lparr>Arch = Some ''amd64'', CpuCores = Some 2, CpuPower = None, Mem = Some 4096\<rparr>]
     = Inr \<lparr>Arch = Some ''amd64'', CpuCores = Some 2, CpuPower = None, Mem = Some 4096\<rparr>"
proof -
  have h: "arch_ok ''amd64''" "unat (2 :: 64 word) < 2 ^ 63" "unat (4096 :: 64 word) < 2 ^ 53"
    by (simp_all add: arch_ok_def)
  show ?thesis
    using h ParseConstraints_String_roundtrip
      [of "\<lparr>Arch = Some ''amd64'', CpuCores = Some 2, CpuPower = None, Mem = Some 4096\<rparr>"]
    by simp
qed



text \<open>
  C17. Spec 4.5 naming rules: a parse that succeeds names each of \<open>arch\<close>,
  \<open>cpu-cores\<close>, \<open>cpu-power\<close> and \<open>mem\<close> at most once across all its arguments, and no
  other name.
\<close>

theorem ParseConstraints_names_once:
  assumes "ParseConstraints args = Inr c"
  shows "distinct (map token_name (concat (map tokens args)))
         \<and> set (map token_name (concat (map tokens args))) \<subseteq> set known_names"
  using setRaws_Inr [of "concat (map tokens args)" empty_constraints c] assms
  by (auto simp: ParseConstraints_def)

theorem ParseConstraints_names_once_witness:
  "ParseConstraints [''arch=arm'', '' mem=2G ''] = Inr \<lparr>Arch = Some ''arm'', CpuCores = None, CpuPower = None, Mem = Some 2048\<rparr>
   \<and> distinct (map token_name (concat (map tokens [''arch=arm'', '' mem=2G ''])))
   \<and> set (map token_name (concat (map tokens [''arch=arm'', '' mem=2G '']))) \<subseteq> set known_names"
proof -
  have h: "ParseConstraints [''arch=arm'', '' mem=2G ''] = Inr \<lparr>Arch = Some ''arm'', CpuCores = None, CpuPower = None, Mem = Some 2048\<rparr>"
    by (simp add: parse_eval)
  show ?thesis using h ParseConstraints_names_once [OF h] by simp
qed

text \<open>
  Spec scenario (F): \<open>mem=4G cpu-cores=2\<close> renders as \<open>cpu-cores=2 mem=4096M\<close>, and
  a second \<open>arch\<close> is refused with the error \<open>bad "arch" constraint: already set\<close>.
\<close>

theorem constraints_scenario_F:
  "(case ParseConstraints [''mem=4G cpu-cores=2''] of Inr c \<Rightarrow> Constraints_String c | Inl e \<Rightarrow> error_msg e)
     = ''cpu-cores=2 mem=4096M''
   \<and> map_sum error_msg id (ParseConstraints [''arch=amd64 arch=i386''])
     = Inl (''bad '' @ quote ''arch'' @ '' constraint: already set'')"
  by (simp add: parse_eval)






lemma parsed_ok_empty: "parsed_ok empty_constraints"
  by (simp add: parsed_ok_def empty_constraints_def)

text \<open>
  C19. Every value \<open>ParseConstraints\<close> returns has an architecture \<open>setArch\<close> accepts
  and counts below \<open>2^63\<close>: \<open>parseUint64\<close> reads them with the signed \<open>strconv.Atoi\<close>,
  so half of the range of the \<open>uint64\<close> fields is never produced.
\<close>

theorem ParseConstraints_bounds:
  assumes "ParseConstraints args = Inr c"
  shows "parsed_ok c"
  using setRaws_Inr [of "concat (map tokens args)" empty_constraints c] assms parsed_ok_empty
  by (simp add: ParseConstraints_def)

theorem ParseConstraints_bounds_witness:
  "ParseConstraints [''cpu-cores=9223372036854775807 arch=i386'']
     = Inr \<lparr>Arch = Some ''i386'', CpuCores = Some 9223372036854775807, CpuPower = None, Mem = None\<rparr>
   \<and> unat (9223372036854775807 :: 64 word) < 2 ^ 63"
proof -
  have h: "ParseConstraints [''cpu-cores=9223372036854775807 arch=i386'']
     = Inr \<lparr>Arch = Some ''i386'', CpuCores = Some 9223372036854775807, CpuPower = None, Mem = None\<rparr>"
    by (simp add: parse_eval)
  show ?thesis using ParseConstraints_bounds [OF h] h by (simp add: parsed_ok_def)
qed

text \<open>
  \<open>setMem\<close> refuses only a parse error or a value below zero, and NaN and
  infinity are neither: \<open>mem=NaN\<close> and \<open>mem=+InfG\<close> are accepted, and the memory size
  is then Go's implementation-dependent conversion of a non-finite \<open>float64\<close> to
  \<open>uint64\<close>.
\<close>

theorem mem_NaN_Inf_accepted:
  "ParseConstraints [''mem=NaN''] = Inr (empty_constraints\<lparr>Mem := Some undefined\<rparr>)
   \<and> ParseConstraints [''mem=+InfG''] = Inr (empty_constraints\<lparr>Mem := Some undefined\<rparr>)"
  by (simp add: parse_eval equalIgnoreCase_def lower_byte_def)

end
