(* ===== verification/Bootstrap.thy ===== *)
theory Bootstrap
  imports Prelude
begin

text \<open>
  The coordination-store handshake of \<open>src/state/open.go\<close>, lines 1--131: \<open>Open\<close>,
  \<open>open\<close>, \<open>Initialize\<close>, \<open>initialize\<close>, \<open>initialized\<close>, \<open>waitForInitialization\<close> and
  \<open>Close\<close>. ZooKeeper itself is a collaborator outside the sources (spec section 1):
  it is modelled by the set of nodes that exist and the number of connections the
  process holds open, and the outcomes the code cannot choose (whether dialling and
  the session succeed, which \<open>Create\<close> calls fail with a connection error, what
  happens while \<open>Open\<close> waits) are an explicit environment record. Every early
  \<open>return nil, err\<close> is an \<open>Inl\<close> of the result; the state after it shows which
  connections are still open.
\<close>

datatype zk_error =
    NoAddrs
  | DialFailed
  | NoSession
  | NodeExists string
  | ConnLoss string
  | ExistsFailed
  | SessionError
  | TimedOut

text \<open>
  The outcomes of the calls: whether dialling and the session succeed, which creations
  fail with a connection loss, whether the existence check fails, and whether the
  session stays up while \<open>waitForInitialization\<close> waits on its watch.
\<close>

record zk_env =
  dial_ok :: bool
  session_ok :: bool
  create_fails :: "string list"
  exists_fails :: bool
  wait_session_ok :: bool

record zk_world =
  zk_nodes :: "string list"
  open_conns :: nat

text \<open>\<open>Info\<close>: the addresses of the ZooKeeper servers.\<close>

record Info =
  Addrs :: "string list"

subsection \<open>The ZooKeeper calls\<close>

definition zk_Create :: "zk_env \<Rightarrow> string \<Rightarrow> zk_world \<Rightarrow> zk_error + zk_world" where
  "zk_Create env path w =
     (if path \<in> set (create_fails env) then Inl (ConnLoss path)
      else if path \<in> set (zk_nodes w) then Inl (NodeExists path)
      else Inr (w\<lparr>zk_nodes := zk_nodes w @ [path]\<rparr>))"

definition zk_Exists :: "zk_env \<Rightarrow> string \<Rightarrow> zk_world \<Rightarrow> zk_error + bool" where
  "zk_Exists env path w = (if exists_fails env then Inl ExistsFailed else Inr (path \<in> set (zk_nodes w)))"

definition zk_Close :: "zk_world \<Rightarrow> zk_world" where
  "zk_Close w = w\<lparr>open_conns := open_conns w - 1\<rparr>"

subsection \<open>The handshake\<close>

text \<open>
  \<open>open\<close>: no address is an error; a dial error returns at once; a failed session
  returns an error without closing the connection \<open>Dial\<close> opened.
\<close>

definition open_state :: "zk_env \<Rightarrow> Info \<Rightarrow> zk_world \<Rightarrow> (zk_error + unit) \<times> zk_world" where
  "open_state env info w =
     (if Addrs info = [] then (Inl NoAddrs, w)
      else if \<not> dial_ok env then (Inl DialFailed, w)
      else let w' = w\<lparr>open_conns := open_conns w + 1\<rparr> in
           if \<not> session_ok env then (Inl NoSession, w') else (Inr (), w'))"

definition Close :: "zk_world \<Rightarrow> zk_world" where
  "Close w = zk_Close w"

definition initialized :: "zk_env \<Rightarrow> zk_world \<Rightarrow> zk_error + bool" where
  "initialized env w = zk_Exists env ''/initialized'' w"

definition skeleton :: "string list" where
  "skeleton = [''/charms'', ''/services'', ''/machines'', ''/units'', ''/relations'']"

fun create_all :: "zk_env \<Rightarrow> string list \<Rightarrow> zk_world \<Rightarrow> zk_error option \<times> zk_world" where
  "create_all env [] w = (None, w)"
| "create_all env (p # ps) w = (case zk_Create env p w of Inl e \<Rightarrow> (Some e, w) | Inr w' \<Rightarrow> create_all env ps w')"

text \<open>
  \<open>initialize\<close>: nothing to do when \<open>/initialized\<close> exists; otherwise the five skeleton
  nodes in order, then \<open>/initialized\<close> last, stopping at the first error.
\<close>

definition initialize :: "zk_env \<Rightarrow> zk_world \<Rightarrow> zk_error option \<times> zk_world" where
  "initialize env w =
     (case initialized env w of
        Inl e \<Rightarrow> (Some e, w)
      | Inr True \<Rightarrow> (None, w)
      | Inr False \<Rightarrow> create_all env (skeleton @ [''/initialized'']) w)"

text \<open>
  \<open>waitForInitialization\<close>: \<open>ExistsW\<close> on \<open>/initialized\<close>. When the node is absent the
  call blocks on the watch, which fires with an \<open>Ok\<close> event when the node is created,
  with a failed event when the session breaks; otherwise the timeout passes. What
  other clients do to the tree while it waits is the function \<open>others\<close> on the list of
  nodes; the watch reports the creation exactly when \<open>/initialized\<close> is in the tree
  they leave. A broken session is reported first.
\<close>

definition waitForInitialization ::
  "zk_env \<Rightarrow> (string list \<Rightarrow> string list) \<Rightarrow> zk_world \<Rightarrow> zk_error option \<times> zk_world" where
  "waitForInitialization env others w =
     (case zk_Exists env ''/initialized'' w of
        Inl e \<Rightarrow> (Some e, w)
      | Inr True \<Rightarrow> (None, w)
      | Inr False \<Rightarrow>
          (let w' = w\<lparr>zk_nodes := others (zk_nodes w)\<rparr> in
           if \<not> wait_session_ok env then (Some SessionError, w')
           else if ''/initialized'' \<in> set (zk_nodes w') then (None, w')
           else (Some TimedOut, w')))"

text \<open>\<open>Open\<close>: \<open>open\<close>, then wait for \<open>/initialized\<close>; an error of the wait is returned without \<open>Close\<close>.\<close>

definition Open :: "zk_env \<Rightarrow> (string list \<Rightarrow> string list) \<Rightarrow> Info \<Rightarrow> zk_world \<Rightarrow> (zk_error + unit) \<times> zk_world" where
  "Open env others info w =
     (case open_state env info w of
        (Inl e, w') \<Rightarrow> (Inl e, w')
      | (Inr _, w') \<Rightarrow> (case waitForInitialization env others w' of
                          (Some e, w'') \<Rightarrow> (Inl e, w'')
                        | (None, w'') \<Rightarrow> (Inr (), w'')))"

text \<open>\<open>Initialize\<close>: \<open>open\<close>, then \<open>initialize\<close>; an error of \<open>initialize\<close> closes the state.\<close>

definition Initialize :: "zk_env \<Rightarrow> Info \<Rightarrow> zk_world \<Rightarrow> (zk_error + unit) \<times> zk_world" where
  "Initialize env info w =
     (case open_state env info w of
        (Inl e, w') \<Rightarrow> (Inl e, w')
      | (Inr _, w') \<Rightarrow> (case initialize env w' of
                          (Some e, w'') \<Rightarrow> (Inl e, Close w'')
                        | (None, w'') \<Rightarrow> (Inr (), w'')))"

subsection \<open>Properties of the handshake\<close>

definition env_ok :: "zk_env \<Rightarrow> bool" where
  "env_ok env \<longleftrightarrow> dial_ok env \<and> session_ok env \<and> create_fails env = [] \<and> \<not> exists_fails env"

text \<open>The marker \<open>/initialized\<close> is only ever present together with the whole skeleton.\<close>

definition marker_ok :: "zk_world \<Rightarrow> bool" where
  "marker_ok w \<longleftrightarrow> (''/initialized'' \<in> set (zk_nodes w) \<longrightarrow> set skeleton \<subseteq> set (zk_nodes w))"

lemma create_all_nodes:
  "create_all env ps w = (r, w') \<Longrightarrow>
     \<exists>n. zk_nodes w' = zk_nodes w @ take n ps \<and> open_conns w' = open_conns w
          \<and> (r = None \<longrightarrow> n = length ps) \<and> (r \<noteq> None \<longrightarrow> n < length ps)"
proof (induction env ps w arbitrary: r w' rule: create_all.induct)
  case (1 env w)
  then show ?case by simp
next
  case (2 env p ps w)
  show ?case
  proof (cases "zk_Create env p w")
    case (Inl e)
    then show ?thesis using "2.prems" by (intro exI [of _ 0]) auto
  next
    case (Inr w1)
    then have w1: "zk_nodes w1 = zk_nodes w @ [p]" "open_conns w1 = open_conns w"
      by (auto simp: zk_Create_def split: if_splits)
    obtain n where n: "zk_nodes w' = zk_nodes w1 @ take n ps" "open_conns w' = open_conns w1"
      "r = None \<longrightarrow> n = length ps" "r \<noteq> None \<longrightarrow> n < length ps"
      using "2.IH" [OF Inr] "2.prems" Inr by auto
    then show ?thesis using w1 by (intro exI [of _ "Suc n"]) auto
  qed
qed

lemma take_marker:
  assumes "''/initialized'' \<in> set (take n (skeleton @ [''/initialized'']))"
  shows "take n (skeleton @ [''/initialized'']) = skeleton @ [''/initialized'']"
proof -
  have "''/initialized'' \<notin> set skeleton" by (simp add: skeleton_def)
  then have "\<not> n \<le> length skeleton" using assms by (auto simp: take_append dest: in_set_takeD)
  then show ?thesis by simp
qed

lemma open_state_cases:
  "open_state env info w = (x, w1) \<Longrightarrow> x = Inr () \<or> (\<exists>e. x = Inl e)"
  by (cases x) auto

lemma Initialize_cases:
  assumes "Initialize env info w = (r, w')"
  shows "(\<exists>e. r = Inl e \<and> zk_nodes w' = zk_nodes w)
       \<or> (\<exists>w1. open_state env info w = (Inr (), w1) \<and>
            ((\<exists>e w2. initialize env w1 = (Some e, w2) \<and> r = Inl e \<and> w' = Close w2)
             \<or> (initialize env w1 = (None, w') \<and> r = Inr ())))"
proof (cases "open_state env info w")
  case (Pair x w1)
  show ?thesis
  proof (cases x)
    case (Inl e)
    then have "r = Inl e" "w' = w1" using assms Pair by (simp_all add: Initialize_def)
    moreover have "zk_nodes w1 = zk_nodes w"
      using Pair by (auto simp: open_state_def Let_def split: if_splits)
    ultimately show ?thesis by blast
  next
    case (Inr u)
    then have o: "open_state env info w = (Inr (), w1)" using Pair by simp
    show ?thesis
    proof (cases "initialize env w1")
      case (Pair r1 w2)
      then show ?thesis using assms o
        by (cases r1) (simp_all add: Initialize_def)
    qed
  qed
qed

lemma open_state_nodes: "open_state env info w = (x, w1) \<Longrightarrow> zk_nodes w1 = zk_nodes w"
  by (auto simp: open_state_def Let_def split: if_splits)

lemma initialize_marker:
  assumes "marker_ok w" and "initialize env w = (r, w')"
  shows "marker_ok w' \<and> (r = None \<longrightarrow> ''/initialized'' \<in> set (zk_nodes w'))"
proof (cases "initialized env w")
  case (Inl e)
  then show ?thesis using assms by (auto simp: initialize_def)
next
  case (Inr b)
  show ?thesis
  proof (cases b)
    case True
    then show ?thesis using assms Inr
      by (auto simp: initialize_def initialized_def zk_Exists_def split: if_splits)
  next
    case False
    then have cr: "create_all env (skeleton @ [''/initialized'']) w = (r, w')"
      using assms Inr by (simp add: initialize_def)
    have absent: "''/initialized'' \<notin> set (zk_nodes w)"
      using Inr False by (auto simp: initialized_def zk_Exists_def split: if_splits)
    obtain n where n: "zk_nodes w' = zk_nodes w @ take n (skeleton @ [''/initialized''])"
      "r = None \<longrightarrow> n = length (skeleton @ [''/initialized''])"
      using create_all_nodes [OF cr] by blast
    have "marker_ok w'"
      unfolding marker_ok_def n(1) using absent take_marker [of n] by auto
    moreover have "r = None \<longrightarrow> ''/initialized'' \<in> set (zk_nodes w')" using n by simp
    ultimately show ?thesis by blast
  qed
qed

lemma create_all_fresh:
  assumes "distinct ps" "set ps \<inter> set (zk_nodes w) = {}" "set ps \<inter> set (create_fails env) = {}"
  shows "create_all env ps w = (None, w\<lparr>zk_nodes := zk_nodes w @ ps\<rparr>)"
  using assms
proof (induction ps arbitrary: w)
  case Nil
  then show ?case by simp
next
  case (Cons p ps)
  have step: "zk_Create env p w = Inr (w\<lparr>zk_nodes := zk_nodes w @ [p]\<rparr>)"
    using Cons.prems by (auto simp: zk_Create_def)
  have "create_all env ps (w\<lparr>zk_nodes := zk_nodes w @ [p]\<rparr>)
          = (None, w\<lparr>zk_nodes := zk_nodes w @ [p] @ ps\<rparr>)"
    using Cons.IH [of "w\<lparr>zk_nodes := zk_nodes w @ [p]\<rparr>"] Cons.prems by auto
  then show ?case using step by simp
qed

lemma open_state_ok:
  "dial_ok env \<Longrightarrow> session_ok env \<Longrightarrow> Addrs info \<noteq> [] \<Longrightarrow>
     open_state env info w = (Inr (), w\<lparr>open_conns := open_conns w + 1\<rparr>)"
  by (simp add: open_state_def)

lemma open_state_conns:
  "open_state env info w = (x, w1) \<Longrightarrow>
     open_conns w1 = open_conns w + (if x = Inl NoAddrs \<or> x = Inl DialFailed then 0 else 1)"
  by (auto simp: open_state_def Let_def split: if_splits)

lemma initialize_conns: "initialize env w = (r, w') \<Longrightarrow> open_conns w' = open_conns w"
  using create_all_nodes [of env _ w r w']
  by (auto simp: initialize_def split: sum.splits bool.splits)

lemma create_all_error:
  "create_all env ps w = (Some e, w') \<Longrightarrow> \<exists>p \<in> set ps. e = ConnLoss p \<or> e = NodeExists p"
  by (induction env ps w rule: create_all.induct)
     (auto simp: zk_Create_def split: sum.splits if_splits)

lemma initialize_error:
  "initialize env w = (Some e, w') \<Longrightarrow> e = ExistsFailed \<or> (\<exists>p. e = ConnLoss p \<or> e = NodeExists p)"
  by (auto simp: initialize_def initialized_def zk_Exists_def split: if_splits bool.splits dest: create_all_error)

lemmas zk_eval = Initialize_def Open_def open_state_def initialize_def initialized_def
  waitForInitialization_def zk_Exists_def zk_Create_def skeleton_def Close_def zk_Close_def

text \<open>
  C22. \<open>/initialized\<close> is an atomic commit marker: whatever ZooKeeper does (failed
  dials, sessions, creations or existence checks), \<open>Initialize\<close> never leaves the
  marker without the whole skeleton beneath the root, and when it succeeds the marker
  is there.
\<close>

theorem Initialize_marker_atomic:
  assumes "marker_ok w" and "Initialize env info w = (r, w')"
  shows "marker_ok w' \<and> (r = Inr () \<longrightarrow> ''/initialized'' \<in> set (zk_nodes w'))"
  using Initialize_cases [OF assms(2)]
proof (elim disjE exE conjE)
  fix e assume "r = Inl e" "zk_nodes w' = zk_nodes w"
  then show ?thesis using assms(1) by (simp add: marker_ok_def)
next
  fix w1 e w2
  assume o: "open_state env info w = (Inr (), w1)" and i: "initialize env w1 = (Some e, w2)"
    and r: "r = Inl e" and w': "w' = Close w2"
  have "marker_ok w1" using assms(1) open_state_nodes [OF o] by (simp add: marker_ok_def)
  then have "marker_ok w2" using initialize_marker [OF _ i] by blast
  then show ?thesis using r w' by (simp add: marker_ok_def Close_def zk_Close_def)
next
  fix w1
  assume o: "open_state env info w = (Inr (), w1)" and i: "initialize env w1 = (None, w')" and r: "r = Inr ()"
  have "marker_ok w1" using assms(1) open_state_nodes [OF o] by (simp add: marker_ok_def)
  then show ?thesis using initialize_marker [OF _ i] r by blast
qed

theorem Initialize_marker_atomic_witness:
  "marker_ok \<lparr>zk_nodes = [''/charms''], open_conns = 0\<rparr>
   \<and> Initialize \<lparr>dial_ok = True, session_ok = True, create_fails = [''/units''], exists_fails = False,
                  wait_session_ok = True\<rparr> \<lparr>Addrs = [''localhost:2181'']\<rparr> \<lparr>zk_nodes = [], open_conns = 0\<rparr>
       = (Inl (ConnLoss ''/units''), \<lparr>zk_nodes = [''/charms'', ''/services'', ''/machines''], open_conns = 0\<rparr>)
   \<and> marker_ok \<lparr>zk_nodes = [''/charms'', ''/services'', ''/machines''], open_conns = 0\<rparr>"
proof -
  have m0: "marker_ok \<lparr>zk_nodes = [], open_conns = 0\<rparr>" by (simp add: marker_ok_def)
  have run: "Initialize \<lparr>dial_ok = True, session_ok = True, create_fails = [''/units''], exists_fails = False,
                  wait_session_ok = True\<rparr> \<lparr>Addrs = [''localhost:2181'']\<rparr> \<lparr>zk_nodes = [], open_conns = 0\<rparr>
       = (Inl (ConnLoss ''/units''), \<lparr>zk_nodes = [''/charms'', ''/services'', ''/machines''], open_conns = 0\<rparr>)"
    by (simp add: Initialize_def open_state_def initialize_def initialized_def zk_Exists_def skeleton_def
        zk_Create_def Close_def zk_Close_def)
  show ?thesis using Initialize_marker_atomic [OF m0 run] run by (simp add: marker_ok_def)
qed

lemma initialize_success:
  assumes "initialize env w = (None, w')"
  shows "''/initialized'' \<in> set (zk_nodes w')"
proof (cases "initialized env w")
  case (Inl e)
  then show ?thesis using assms by (simp add: initialize_def)
next
  case (Inr b)
  show ?thesis
  proof (cases b)
    case True
    then show ?thesis using assms Inr
      by (auto simp: initialize_def initialized_def zk_Exists_def split: if_splits)
  next
    case False
    then have "create_all env (skeleton @ [''/initialized'']) w = (None, w')"
      using assms Inr by (simp add: initialize_def)
    then show ?thesis using create_all_nodes [of env "skeleton @ [''/initialized'']" w None w'] by auto
  qed
qed

lemma Initialize_success:
  assumes "Initialize env info w = (Inr (), w1)"
  shows "''/initialized'' \<in> set (zk_nodes w1)"
  using Initialize_cases [OF assms] initialize_success by auto

text \<open>
  C23. On a store with none of the six nodes, and a ZooKeeper that answers every call,
  \<open>Initialize\<close> creates the five skeleton nodes and then \<open>/initialized\<close>, in this order,
  and returns the open state.
\<close>

theorem Initialize_fresh:
  assumes "env_ok env" and "Addrs info \<noteq> []"
    and "set (skeleton @ [''/initialized'']) \<inter> set (zk_nodes w) = {}"
  shows "Initialize env info w =
           (Inr (), \<lparr>zk_nodes = zk_nodes w @ skeleton @ [''/initialized''], open_conns = open_conns w + 1\<rparr>)"
proof -
  let ?w1 = "w\<lparr>open_conns := open_conns w + 1\<rparr>"
  have o: "open_state env info w = (Inr (), ?w1)"
    using assms by (simp add: open_state_ok env_ok_def)
  have i: "initialized env ?w1 = Inr False"
    using assms(1,3) by (auto simp: initialized_def zk_Exists_def env_ok_def)
  have "create_all env (skeleton @ [''/initialized'']) ?w1
          = (None, ?w1\<lparr>zk_nodes := zk_nodes w @ skeleton @ [''/initialized'']\<rparr>)"
    using assms(1,3) create_all_fresh [of "skeleton @ [''/initialized'']" ?w1 env]
    by (simp add: env_ok_def skeleton_def)
  then show ?thesis using o i by (simp add: Initialize_def initialize_def)
qed

theorem Initialize_fresh_witness:
  "env_ok \<lparr>dial_ok = True, session_ok = True, create_fails = [], exists_fails = False, wait_session_ok = True\<rparr>
   \<and> Addrs \<lparr>Addrs = [''localhost:2181'']\<rparr> \<noteq> []
   \<and> set (skeleton @ [''/initialized'']) \<inter> set (zk_nodes \<lparr>zk_nodes = [], open_conns = 0\<rparr>) = {}
   \<and> Initialize \<lparr>dial_ok = True, session_ok = True, create_fails = [], exists_fails = False, wait_session_ok = True\<rparr>
        \<lparr>Addrs = [''localhost:2181'']\<rparr> \<lparr>zk_nodes = [], open_conns = 0\<rparr>
     = (Inr (), \<lparr>zk_nodes = [''/charms'', ''/services'', ''/machines'', ''/units'', ''/relations'', ''/initialized''],
                open_conns = 1\<rparr>)"
  using Initialize_fresh [of "\<lparr>dial_ok = True, session_ok = True, create_fails = [], exists_fails = False, wait_session_ok = True\<rparr>"
      "\<lparr>Addrs = [''localhost:2181'']\<rparr>" "\<lparr>zk_nodes = [], open_conns = 0\<rparr>"]
  by (simp add: env_ok_def skeleton_def)

text \<open>
  C24. \<open>Initialize\<close> on a store that already has \<open>/initialized\<close> creates nothing (so no
  creation can fail) and returns the open state: initializing twice is harmless.
\<close>

theorem Initialize_already_initialized:
  assumes "dial_ok env" "session_ok env" "\<not> exists_fails env" "Addrs info \<noteq> []"
    and "''/initialized'' \<in> set (zk_nodes w)"
  shows "Initialize env info w = (Inr (), w\<lparr>open_conns := open_conns w + 1\<rparr>)"
  using assms by (simp add: Initialize_def open_state_ok initialize_def initialized_def zk_Exists_def)

theorem Initialize_already_initialized_witness:
  "dial_ok \<lparr>dial_ok = True, session_ok = True, create_fails = [''/charms''], exists_fails = False, wait_session_ok = True\<rparr>
   \<and> session_ok \<lparr>dial_ok = True, session_ok = True, create_fails = [''/charms''], exists_fails = False, wait_session_ok = True\<rparr>
   \<and> \<not> exists_fails \<lparr>dial_ok = True, session_ok = True, create_fails = [''/charms''], exists_fails = False, wait_session_ok = True\<rparr>
   \<and> Addrs \<lparr>Addrs = [''localhost:2181'']\<rparr> \<noteq> []
   \<and> ''/initialized'' \<in> set (zk_nodes \<lparr>zk_nodes = [''/initialized''], open_conns = 0\<rparr>)
   \<and> Initialize \<lparr>dial_ok = True, session_ok = True, create_fails = [''/charms''], exists_fails = False, wait_session_ok = True\<rparr>
        \<lparr>Addrs = [''localhost:2181'']\<rparr> \<lparr>zk_nodes = [''/initialized''], open_conns = 0\<rparr>
     = (Inr (), \<lparr>zk_nodes = [''/initialized''], open_conns = 1\<rparr>)"
  using Initialize_already_initialized [of "\<lparr>dial_ok = True, session_ok = True, create_fails = [''/charms''], exists_fails = False, wait_session_ok = True\<rparr>"
      "\<lparr>Addrs = [''localhost:2181'']\<rparr>" "\<lparr>zk_nodes = [''/initialized''], open_conns = 0\<rparr>"]
  by simp

lemma waitForInitialization_marker:
  "\<not> exists_fails env \<Longrightarrow> ''/initialized'' \<in> set (zk_nodes w) \<Longrightarrow> waitForInitialization env others w = (None, w)"
  by (simp add: waitForInitialization_def zk_Exists_def)

lemma waitForInitialization_world:
  assumes "waitForInitialization env others w = (r, w')"
  shows "open_conns w' = open_conns w
       \<and> (zk_nodes w' = zk_nodes w \<or> zk_nodes w' = others (zk_nodes w))
       \<and> (r = None \<longrightarrow> ''/initialized'' \<in> set (zk_nodes w'))
       \<and> (r = None \<and> zk_nodes w' \<noteq> zk_nodes w \<longrightarrow> ''/initialized'' \<notin> set (zk_nodes w))"
  using assms by (auto simp: waitForInitialization_def zk_Exists_def Let_def split: if_splits bool.splits)

lemma waitForInitialization_error:
  "waitForInitialization env others w = (Some e, w') \<Longrightarrow> e \<noteq> NoAddrs \<and> e \<noteq> DialFailed"
  by (auto simp: waitForInitialization_def zk_Exists_def Let_def split: if_splits bool.splits)

text \<open>
  C25. A failing \<open>Initialize\<close> closes the connection it opened, except when the session
  fails: \<open>open\<close> returns that error without closing the connection \<open>Dial\<close> made, so the
  process holds one more open connection than before.
\<close>

theorem Initialize_error_conns:
  assumes "Initialize env info w = (Inl e, w')"
  shows "open_conns w' = open_conns w + (if e = NoSession then 1 else 0)"
proof (cases "open_state env info w")
  case (Pair x w1)
  note c = open_state_conns [OF Pair]
  show ?thesis
  proof (cases x)
    case (Inl e')
    then have "e' = e" "w' = w1" using assms Pair by (simp_all add: Initialize_def)
    then show ?thesis using Pair Inl c by (auto simp: open_state_def Let_def split: if_splits)
  next
    case (Inr u)
    obtain r2 w2 where i: "initialize env w1 = (r2, w2)" by fastforce
    then obtain e2 where "r2 = Some e2" "e = e2" "w' = Close w2"
      using assms Pair Inr by (cases r2) (auto simp: Initialize_def)
    moreover have "e2 \<noteq> NoSession"
      using initialize_error i \<open>r2 = Some e2\<close> by fastforce
    ultimately show ?thesis using initialize_conns [OF i] c Inr
      by (simp add: Close_def zk_Close_def)
  qed
qed

theorem Initialize_error_conns_witness:
  "Initialize \<lparr>dial_ok = True, session_ok = False, create_fails = [], exists_fails = False, wait_session_ok = True\<rparr>
      \<lparr>Addrs = [''localhost:2181'']\<rparr> \<lparr>zk_nodes = [], open_conns = 0\<rparr>
     = (Inl NoSession, \<lparr>zk_nodes = [], open_conns = 1\<rparr>)
   \<and> open_conns \<lparr>zk_nodes = [], open_conns = 1::nat\<rparr>
     = open_conns \<lparr>zk_nodes = [], open_conns = 0::nat\<rparr> + (if NoSession = NoSession then 1 else 0)"
proof -
  have run: "Initialize \<lparr>dial_ok = True, session_ok = False, create_fails = [], exists_fails = False, wait_session_ok = True\<rparr>
      \<lparr>Addrs = [''localhost:2181'']\<rparr> \<lparr>zk_nodes = [], open_conns = 0\<rparr>
     = (Inl NoSession, \<lparr>zk_nodes = [], open_conns = 1\<rparr>)"
    by (simp add: zk_eval)
  show ?thesis using Initialize_error_conns [OF run] run by simp
qed

text \<open>
  C26. \<open>Open\<close> never closes what it opened: after a failed session, a failing existence
  check, a session event or a timeout while waiting for \<open>/initialized\<close>, it returns
  the error with the connection still open. Only a missing address or a failed dial
  leave no connection behind.
\<close>

theorem Open_error_conns:
  assumes "Open env others info w = (Inl e, w')"
  shows "open_conns w' = open_conns w + (if e = NoAddrs \<or> e = DialFailed then 0 else 1)"
proof (cases "open_state env info w")
  case (Pair x w1)
  note c = open_state_conns [OF Pair]
  show ?thesis
  proof (cases x)
    case (Inl e')
    then show ?thesis using assms Pair c by (simp add: Open_def)
  next
    case (Inr u)
    obtain r2 w2 where wt: "waitForInitialization env others w1 = (r2, w2)" by fastforce
    then have "r2 = Some e" "w' = w2" using assms Pair Inr by (auto simp: Open_def split: option.splits)
    then show ?thesis
      using c Inr waitForInitialization_world [OF wt] waitForInitialization_error wt by auto
  qed
qed

theorem Open_error_conns_witness:
  "Open \<lparr>dial_ok = True, session_ok = True, create_fails = [], exists_fails = False, wait_session_ok = True\<rparr>
      (\<lambda>ns. ns @ [''/charms'']) \<lparr>Addrs = [''localhost:2181'']\<rparr> \<lparr>zk_nodes = [], open_conns = 0\<rparr>
     = (Inl TimedOut, \<lparr>zk_nodes = [''/charms''], open_conns = 1\<rparr>)
   \<and> open_conns \<lparr>zk_nodes = [''/charms''], open_conns = 1::nat\<rparr>
     = open_conns \<lparr>zk_nodes = [], open_conns = 0::nat\<rparr> + (if TimedOut = NoAddrs \<or> TimedOut = DialFailed then 0 else 1)"
proof -
  have run: "Open \<lparr>dial_ok = True, session_ok = True, create_fails = [], exists_fails = False, wait_session_ok = True\<rparr>
      (\<lambda>ns. ns @ [''/charms'']) \<lparr>Addrs = [''localhost:2181'']\<rparr> \<lparr>zk_nodes = [], open_conns = 0\<rparr>
     = (Inl TimedOut, \<lparr>zk_nodes = [''/charms''], open_conns = 1\<rparr>)"
    by (simp add: zk_eval)
  show ?thesis using Open_error_conns [OF run] run by simp
qed

text \<open>
  C27. After a successful \<open>Initialize\<close>, \<open>Open\<close> on the same servers returns at once
  (whatever other clients would do while it waited), as long as dialling, the
  session and the existence check succeed.
\<close>

theorem Open_after_Initialize:
  assumes "Initialize env info w = (Inr (), w1)"
    and "dial_ok env'" "session_ok env'" "\<not> exists_fails env'"
  shows "Open env' others info w1 = (Inr (), w1\<lparr>open_conns := open_conns w1 + 1\<rparr>)"
proof -
  have "Addrs info \<noteq> []" using assms(1) by (auto simp: Initialize_def open_state_def)
  moreover have "''/initialized'' \<in> set (zk_nodes w1)" using Initialize_success [OF assms(1)] .
  ultimately show ?thesis using assms(2-4)
    by (simp add: Open_def open_state_ok waitForInitialization_marker)
qed

theorem Open_after_Initialize_witness:
  "Initialize \<lparr>dial_ok = True, session_ok = True, create_fails = [], exists_fails = False, wait_session_ok = True\<rparr>
      \<lparr>Addrs = [''localhost:2181'']\<rparr> \<lparr>zk_nodes = [], open_conns = 0\<rparr>
     = (Inr (), \<lparr>zk_nodes = skeleton @ [''/initialized''], open_conns = 1\<rparr>)
   \<and> Open \<lparr>dial_ok = True, session_ok = True, create_fails = [], exists_fails = False, wait_session_ok = False\<rparr>
      (\<lambda>ns. []) \<lparr>Addrs = [''localhost:2181'']\<rparr> \<lparr>zk_nodes = skeleton @ [''/initialized''], open_conns = 1\<rparr>
     = (Inr (), \<lparr>zk_nodes = skeleton @ [''/initialized''], open_conns = 2\<rparr>)"
proof -
  have run: "Initialize \<lparr>dial_ok = True, session_ok = True, create_fails = [], exists_fails = False, wait_session_ok = True\<rparr>
      \<lparr>Addrs = [''localhost:2181'']\<rparr> \<lparr>zk_nodes = [], open_conns = 0\<rparr>
     = (Inr (), \<lparr>zk_nodes = skeleton @ [''/initialized''], open_conns = 1\<rparr>)"
    by (simp add: zk_eval)
  show ?thesis using Open_after_Initialize [OF run, of "\<lparr>dial_ok = True, session_ok = True, create_fails = [],
      exists_fails = False, wait_session_ok = False\<rparr>" "\<lambda>ns. []"] run by simp
qed

lemma create_all_absent:
  "create_all env ps w = (None, w') \<Longrightarrow> set ps \<inter> set (zk_nodes w) = {}"
proof (induction env ps w rule: create_all.induct)
  case (2 env p ps w)
  then show ?case by (auto simp: zk_Create_def split: sum.splits if_splits)
qed simp

text \<open>
  C28. \<open>Open\<close> hands out a state only for an initialized store: whatever ZooKeeper
  and the other clients do while it waits, when \<open>Open\<close> returns without error
  \<open>/initialized\<close> exists, and when the other clients keep the marker atomic (as
  \<open>Initialize\<close> does) the whole skeleton exists too: a timeout, a session event or a
  failed check is an error, never a return of the state.
\<close>

theorem Open_returns_initialized:
  assumes "Open env others info w = (Inr (), w')" and "marker_ok w"
    and "\<forall>w0. marker_ok w0 \<longrightarrow> marker_ok (w0\<lparr>zk_nodes := others (zk_nodes w0)\<rparr>)"
  shows "''/initialized'' \<in> set (zk_nodes w') \<and> set skeleton \<subseteq> set (zk_nodes w')"
proof -
  obtain x w1 where o: "open_state env info w = (x, w1)" by fastforce
  then have x: "x = Inr ()" using assms(1) by (cases x) (auto simp: Open_def)
  have m1: "marker_ok w1" using assms(2) open_state_nodes [OF o] by (simp add: marker_ok_def)
  obtain r w2 where wt: "waitForInitialization env others w1 = (r, w2)" by fastforce
  then have r: "r = None" "w' = w2" using assms(1) o x by (auto simp: Open_def split: option.splits)
  note ww = waitForInitialization_world [OF wt]
  have "marker_ok w2"
  proof (cases "zk_nodes w2 = zk_nodes w1")
    case True
    then show ?thesis using m1 by (simp add: marker_ok_def)
  next
    case False
    then have "zk_nodes w2 = others (zk_nodes w1)" using ww by blast
    then show ?thesis using assms(3) m1 by (auto simp: marker_ok_def)
  qed
  then show ?thesis using ww r by (simp add: marker_ok_def)
qed

theorem Open_returns_initialized_witness:
  "Open \<lparr>dial_ok = True, session_ok = True, create_fails = [], exists_fails = False, wait_session_ok = True\<rparr>
      (\<lambda>ns. ns @ skeleton @ [''/initialized'']) \<lparr>Addrs = [''localhost:2181'']\<rparr> \<lparr>zk_nodes = [], open_conns = 0\<rparr>
     = (Inr (), \<lparr>zk_nodes = skeleton @ [''/initialized''], open_conns = 1\<rparr>)
   \<and> ''/initialized'' \<in> set (zk_nodes \<lparr>zk_nodes = skeleton @ [''/initialized''], open_conns = 1::nat\<rparr>)
   \<and> set skeleton \<subseteq> set (zk_nodes \<lparr>zk_nodes = skeleton @ [''/initialized''], open_conns = 1::nat\<rparr>)"
proof -
  have run: "Open \<lparr>dial_ok = True, session_ok = True, create_fails = [], exists_fails = False, wait_session_ok = True\<rparr>
      (\<lambda>ns. ns @ skeleton @ [''/initialized'']) \<lparr>Addrs = [''localhost:2181'']\<rparr> \<lparr>zk_nodes = [], open_conns = 0\<rparr>
     = (Inr (), \<lparr>zk_nodes = skeleton @ [''/initialized''], open_conns = 1\<rparr>)"
    by (simp add: zk_eval)
  have m: "marker_ok \<lparr>zk_nodes = [], open_conns = 0\<rparr>" by (simp add: marker_ok_def)
  have o: "\<forall>w0. marker_ok w0 \<longrightarrow> marker_ok (w0\<lparr>zk_nodes := zk_nodes w0 @ skeleton @ [''/initialized'']\<rparr>)"
    by (auto simp: marker_ok_def)
  show ?thesis using Open_returns_initialized [OF run m o] run by simp
qed

text \<open>
  C29. \<open>Initialize\<close> cannot recover from its own partial failure: once a skeleton node
  exists without \<open>/initialized\<close>, no \<open>Initialize\<close> succeeds, whatever ZooKeeper does,
  and the store stays in that state (a node that exists makes \<open>Create\<close> fail with
  node-exists before the marker is reached), so the environment can never be
  initialized, although the specification calls \<open>Initialize\<close> idempotent.
\<close>

theorem Initialize_stuck_after_partial:
  assumes "Initialize env info w = (r, w')"
    and "''/initialized'' \<notin> set (zk_nodes w)" and "set skeleton \<inter> set (zk_nodes w) \<noteq> {}"
  shows "r \<noteq> Inr () \<and> ''/initialized'' \<notin> set (zk_nodes w') \<and> set skeleton \<inter> set (zk_nodes w') \<noteq> {}"
  using Initialize_cases [OF assms(1)]
proof (elim disjE exE conjE)
  fix e assume "r = Inl e" "zk_nodes w' = zk_nodes w"
  then show ?thesis using assms(2,3) by simp
next
  fix w1 e w2
  assume o: "open_state env info w = (Inr (), w1)" and i: "initialize env w1 = (Some e, w2)"
    and r: "r = Inl e" and w': "w' = Close w2"
  have n1: "zk_nodes w1 = zk_nodes w" by (rule open_state_nodes [OF o])
  have "\<exists>n. zk_nodes w2 = zk_nodes w1 @ take n (skeleton @ [''/initialized''])
             \<and> n < length (skeleton @ [''/initialized''])"
  proof (cases "initialized env w1")
    case (Inr b)
    then have "\<not> b" "create_all env (skeleton @ [''/initialized'']) w1 = (Some e, w2)"
      using i assms(2) n1 by (auto simp: initialize_def initialized_def zk_Exists_def split: if_splits)
    then show ?thesis using create_all_nodes by fastforce
  qed (use i in \<open>auto simp: initialize_def intro: exI [of _ 0]\<close>)
  then obtain n where n: "zk_nodes w2 = zk_nodes w1 @ take n (skeleton @ [''/initialized''])"
    "n < length (skeleton @ [''/initialized''])" by blast
  have "''/initialized'' \<notin> set (take n (skeleton @ [''/initialized'']))"
  proof
    assume "''/initialized'' \<in> set (take n (skeleton @ [''/initialized'']))"
    then have "length (take n (skeleton @ [''/initialized''])) = length (skeleton @ [''/initialized''])"
      by (subst take_marker) simp_all
    with n(2) show False by simp
  qed
  then show ?thesis using assms(2,3) n n1 r w' by (auto simp: Close_def zk_Close_def)
next
  fix w1
  assume o: "open_state env info w = (Inr (), w1)" and i: "initialize env w1 = (None, w')"
  have n1: "zk_nodes w1 = zk_nodes w" by (rule open_state_nodes [OF o])
  show ?thesis
  proof (cases "initialized env w1")
    case (Inr b)
    then have "create_all env (skeleton @ [''/initialized'']) w1 = (None, w')"
      using i assms(2) n1 by (auto simp: initialize_def initialized_def zk_Exists_def split: if_splits)
    then show ?thesis using create_all_absent assms(3) n1 by fastforce
  qed (use i in \<open>simp add: initialize_def\<close>)
qed

theorem Initialize_stuck_after_partial_witness:
  "Initialize \<lparr>dial_ok = True, session_ok = True, create_fails = [], exists_fails = False, wait_session_ok = True\<rparr>
      \<lparr>Addrs = [''localhost:2181'']\<rparr> \<lparr>zk_nodes = [''/charms'', ''/services'', ''/machines''], open_conns = 0\<rparr>
     = (Inl (NodeExists ''/charms''), \<lparr>zk_nodes = [''/charms'', ''/services'', ''/machines''], open_conns = 0\<rparr>)
   \<and> ''/initialized'' \<notin> set [''/charms'', ''/services'', ''/machines'']
   \<and> set skeleton \<inter> set [''/charms'', ''/services'', ''/machines''] \<noteq> {}
   \<and> Inl (NodeExists ''/charms'') \<noteq> (Inr () :: zk_error + unit)"
proof -
  have run: "Initialize \<lparr>dial_ok = True, session_ok = True, create_fails = [], exists_fails = False, wait_session_ok = True\<rparr>
      \<lparr>Addrs = [''localhost:2181'']\<rparr> \<lparr>zk_nodes = [''/charms'', ''/services'', ''/machines''], open_conns = 0\<rparr>
     = (Inl (NodeExists ''/charms''), \<lparr>zk_nodes = [''/charms'', ''/services'', ''/machines''], open_conns = 0\<rparr>)"
    by (simp add: zk_eval)
  have h: "''/initialized'' \<notin> set (zk_nodes \<lparr>zk_nodes = [''/charms'', ''/services'', ''/machines''], open_conns = 0::nat\<rparr>)"
    "set skeleton \<inter> set (zk_nodes \<lparr>zk_nodes = [''/charms'', ''/services'', ''/machines''], open_conns = 0::nat\<rparr>) \<noteq> {}"
    by (simp_all add: skeleton_def)
  show ?thesis using Initialize_stuck_after_partial [OF run h] run h by simp
qed

end
