(* ===== verification/StoreTests.thy ===== *)
theory StoreTests
  imports TestBacking Constraints
begin

text \<open>
  The store tests of \<open>src/state/open.go\<close> (lines 158--388 and the helper
  \<open>assertStoreContents\<close>, lines 813--827), run against the model of the store. Each
  test's \<open>change\<close> closure is a list of store commands; a command that would
  dereference a missing entry (\<open>StoreIncRef\<close>, the \<open>entry\<close> of a \<open>decRef\<close>) makes the test
  fail. A test is a boolean definition whose value is whether every assertion of the
  Go test holds on the model.
\<close>

subsection \<open>Store commands of the tests\<close>

datatype store_cmd =
    StoreAddCmd testInfo
  | UpdateCmd testInfoId "testInfo option"
  | IncRefCmd testInfoId
  | DeleteCmd testInfoId
  | DecRefCmd testInfoId

text \<open>
  \<open>storeAdd\<close>, \<open>all.Update\<close>, \<open>StoreIncRef\<close> (or \<open>entry.refCount++\<close>), \<open>all.delete\<close>
  and \<open>all.decRef(entry, id)\<close> with \<open>entry\<close> read from \<open>all.entities[id]\<close>.
\<close>

fun store_cmd_step :: "store_cmd \<Rightarrow> test_store \<Rightarrow> test_store option" where
  "store_cmd_step (StoreAddCmd i) a = Some (storeAdd a i)"
| "store_cmd_step (UpdateCmd k v) a = Some (Update k v a)"
| "store_cmd_step (IncRefCmd k) a = StoreIncRef a k"
| "store_cmd_step (DeleteCmd k) a = Some (store_delete k a)"
| "store_cmd_step (DecRefCmd k) a = (case entities a k of None \<Rightarrow> None | Some e \<Rightarrow> decRef e k a)"

fun run_cmds :: "store_cmd list \<Rightarrow> test_store \<Rightarrow> test_store option" where
  "run_cmds [] a = Some a"
| "run_cmds (c # cs) a = (case store_cmd_step c a of None \<Rightarrow> None | Some a' \<Rightarrow> run_cmds cs a')"

text \<open>
  \<open>assertStoreContents\<close>: the list, from \<open>Back()\<close> (the oldest entry) on, holds exactly
  the expected entries; the map files each under its own identifier, at that
  element; the map has no other key; the latest revision is the expected one.
\<close>

definition assertStoreContents :: "test_store \<Rightarrow> int \<Rightarrow> testInfo entity_entry list \<Rightarrow> bool" where
  "assertStoreContents a expectRevno' es \<longleftrightarrow>
     length (store_list a) = length es
     \<and> map (entities a) (store_list a) = map Some es
     \<and> map (\<lambda>ent. idForInfo (info ent)) es = store_list a
     \<and> card (dom (entities a)) = length es
     \<and> latestRevno a = expectRevno'"

subsection \<open>\<open>StoreChangeMethodTests\<close>\<close>

record storeChangeMethodTest =
  about :: string
  change :: "store_cmd list"
  expectRevno :: int
  expectContents :: "testInfo entity_entry list"

definition StoreChangeMethodTests :: "storeChangeMethodTest list" where
  "StoreChangeMethodTests = [
     \<lparr>about = ''empty at first'', change = [], expectRevno = 0, expectContents = []\<rparr>,
     \<lparr>about = ''add single entry'',
      change = [StoreAddCmd (MachineInfo ''0'' ''i-0'')],
      expectRevno = 1,
      expectContents = [\<lparr>creationRevno = 1, revno = 1, refCount = 0, removed = False,
                          info = MachineInfo ''0'' ''i-0''\<rparr>]\<rparr>,
     \<lparr>about = ''add two entries'',
      change = [StoreAddCmd (MachineInfo ''0'' ''i-0''), StoreAddCmd (ServiceInfo ''wordpress'' True)],
      expectRevno = 2,
      expectContents = [\<lparr>creationRevno = 1, revno = 1, refCount = 0, removed = False,
                          info = MachineInfo ''0'' ''i-0''\<rparr>,
                        \<lparr>creationRevno = 2, revno = 2, refCount = 0, removed = False,
                          info = ServiceInfo ''wordpress'' True\<rparr>]\<rparr>,
     \<lparr>about = ''update an entity that's not currently there'',
      change = [UpdateCmd (idForInfo (MachineInfo ''1'' '''')) (Some (MachineInfo ''1'' ''''))],
      expectRevno = 1,
      expectContents = [\<lparr>creationRevno = 1, revno = 1, refCount = 0, removed = False,
                          info = MachineInfo ''1'' ''''\<rparr>]\<rparr>,
     \<lparr>about = ''mark removed on existing entry'',
      change = [StoreAddCmd (MachineInfo ''0'' ''''), StoreAddCmd (MachineInfo ''1'' ''''),
                IncRefCmd \<lparr>kind = ''machine'', ident = ''0''\<rparr>,
                UpdateCmd \<lparr>kind = ''machine'', ident = ''0''\<rparr> None],
      expectRevno = 3,
      expectContents = [\<lparr>creationRevno = 2, revno = 2, refCount = 0, removed = False,
                          info = MachineInfo ''1'' ''''\<rparr>,
                        \<lparr>creationRevno = 1, revno = 3, refCount = 1, removed = True,
                          info = MachineInfo ''0'' ''''\<rparr>]\<rparr>,
     \<lparr>about = ''mark removed on nonexistent entry'',
      change = [UpdateCmd \<lparr>kind = ''machine'', ident = ''0''\<rparr> None],
      expectRevno = 0, expectContents = []\<rparr>,
     \<lparr>about = ''mark removed on already marked entry'',
      change = [StoreAddCmd (MachineInfo ''0'' ''''), StoreAddCmd (MachineInfo ''1'' ''''),
                IncRefCmd \<lparr>kind = ''machine'', ident = ''0''\<rparr>,
                UpdateCmd \<lparr>kind = ''machine'', ident = ''0''\<rparr> None,
                UpdateCmd \<lparr>kind = ''machine'', ident = ''1''\<rparr> (Some (MachineInfo ''1'' ''i-1'')),
                UpdateCmd \<lparr>kind = ''machine'', ident = ''0''\<rparr> None],
      expectRevno = 4,
      expectContents = [\<lparr>creationRevno = 1, revno = 3, refCount = 1, removed = True,
                          info = MachineInfo ''0'' ''''\<rparr>,
                        \<lparr>creationRevno = 2, revno = 4, refCount = 0, removed = False,
                          info = MachineInfo ''1'' ''i-1''\<rparr>]\<rparr>,
     \<lparr>about = ''mark removed on entry with zero ref count'',
      change = [StoreAddCmd (MachineInfo ''0'' ''''), UpdateCmd \<lparr>kind = ''machine'', ident = ''0''\<rparr> None],
      expectRevno = 2, expectContents = []\<rparr>,
     \<lparr>about = ''delete entry'',
      change = [StoreAddCmd (MachineInfo ''0'' ''''), DeleteCmd \<lparr>kind = ''machine'', ident = ''0''\<rparr>],
      expectRevno = 1, expectContents = []\<rparr>,
     \<lparr>about = ''decref of non-removed entity'',
      change = [StoreAddCmd (MachineInfo ''0'' ''''), IncRefCmd (idForInfo (MachineInfo ''0'' '''')),
                DecRefCmd (idForInfo (MachineInfo ''0'' ''''))],
      expectRevno = 1,
      expectContents = [\<lparr>creationRevno = 1, revno = 1, refCount = 0, removed = False,
                          info = MachineInfo ''0'' ''''\<rparr>]\<rparr>,
     \<lparr>about = ''decref of removed entity'',
      change = [StoreAddCmd (MachineInfo ''0'' ''''), IncRefCmd (idForInfo (MachineInfo ''0'' '''')),
                UpdateCmd (idForInfo (MachineInfo ''0'' '''')) None,
                DecRefCmd (idForInfo (MachineInfo ''0'' ''''))],
      expectRevno = 2, expectContents = []\<rparr>]"

text \<open>\<open>TestStoreChangeMethods\<close>: each test starts from \<open>NewStore()\<close>.\<close>

definition store_test_passes :: "storeChangeMethodTest \<Rightarrow> bool" where
  "store_test_passes t =
     (case run_cmds (change t) NewStore of
        None \<Rightarrow> False
      | Some a \<Rightarrow> assertStoreContents a (expectRevno t) (expectContents t))"

definition TestStoreChangeMethods :: bool where
  "TestStoreChangeMethods = list_all store_test_passes StoreChangeMethodTests"

subsection \<open>\<open>TestChangesSince\<close>\<close>

text \<open>
  Three machines \<open>"0"\<close>, \<open>"1"\<close>, \<open>"2"\<close> (\<open>fmt.Sprint(i)\<close>), the changes since each
  revision, the boundary revisions \<open>-1\<close> and \<open>99\<close>, an update of machine 1, and the
  removal of machine 0 while one watcher holds it: a watcher at revision 0 never saw
  machine 0 and is not told of its removal.
\<close>

definition TestChangesSince :: bool where
  "TestChangesSince =
     (let ms = map (\<lambda>i. MachineInfo (string_of_nat i) '''') [0..<3];
          a = fold (\<lambda>m a. storeAdd a m) ms NewStore;
          deltas = map (\<lambda>m. \<lparr>delta_removed = False, delta_entity = m\<rparr>) ms;
          rev = latestRevno a;
          m1 = MachineInfo ''1'' ''foo'';
          a1 = Update (idForInfo m1) (Some m1) a;
          m0 = MachineInfo ''0'' ''''
      in list_all (\<lambda>i. ChangesSince (int i) a = drop i deltas) [0..<3]
         \<and> ChangesSince (-1) a = deltas
         \<and> length (ChangesSince 99 a) = 0
         \<and> ChangesSince rev a1 = [\<lparr>delta_removed = False, delta_entity = m1\<rparr>]
         \<and> (case StoreIncRef a1 \<lparr>kind = ''machine'', ident = ''0''\<rparr> of
              None \<Rightarrow> False
            | Some a2 \<Rightarrow>
                (let a3 = Update (idForInfo m0) None a2 in
                 ChangesSince 0 a3 = [\<lparr>delta_removed = False, delta_entity = MachineInfo ''2'' ''''\<rparr>,
                                      \<lparr>delta_removed = False, delta_entity = m1\<rparr>]
                 \<and> ChangesSince rev a3 = [\<lparr>delta_removed = False, delta_entity = m1\<rparr>,
                                          \<lparr>delta_removed = True, delta_entity = m0\<rparr>]
                 \<and> ChangesSince (rev + 1) a3 = [\<lparr>delta_removed = True, delta_entity = m0\<rparr>])))"

subsection \<open>The store tests pass\<close>

lemmas store_test_eval = storeAdd_def idForInfo_def StoreIncRef_def Update_def store_defs NewStore_def
  entries_def decRef_def ChangesSince_def to_delta_def visible_to_def

text \<open>
  Every case of \<open>StoreChangeMethodTests\<close> passes on the model of the store: run
  from an empty store, its changes leave exactly the expected entries, in list order,
  with the expected latest revision.
\<close>

theorem StoreChangeMethods_pass: "TestStoreChangeMethods"
  by (simp add: TestStoreChangeMethods_def StoreChangeMethodTests_def store_test_passes_def
      assertStoreContents_def store_test_eval)

text \<open>
  \<open>TestChangesSince\<close> passes on the model: \<open>ChangesSince\<close> returns the expected
  deltas at every revision, including the boundaries and the removal of an entity a
  watcher at revision 0 never saw.
\<close>

theorem ChangesSince_test_pass: "TestChangesSince"
  by (simp add: TestChangesSince_def store_test_eval string_of_nat.simps digit_char_def upt_rec Let_def)

end
