(* ===== verification/ManagerTests.thy ===== *)
theory ManagerTests
  imports StoreTests
begin

text \<open>
  The manager tests of \<open>src/state/open.go\<close>: \<open>TestHandle\<close>, the four
  \<open>TestHandleStop\<close> tests and \<open>TestRespondMultiple\<close> (lines 396--527 and 654--726),
  with the assertion helpers \<open>assertNotReplied\<close>, \<open>assertReplied\<close> and
  \<open>assertWaitingRequests\<close> (lines 910--941), run against the model of the manager
  built by \<open>newStoreManagerNoRun\<close>. A Go test is a sequence of commands on the manager
  interleaved with assertions; a command that fails (a \<open>decRef\<close> below zero, a
  request of a watcher the manager does not know) or an assertion that does not hold
  makes the test fail. Watchers are numbered in the order the test creates them, a
  request is its watcher and a number unique in the test, and what a request's reply
  channel received is the list of replies the manager sent to it.
\<close>

type_synonym test_manager = "(testInfoId, testInfo) manager"

fun req_w :: "request \<Rightarrow> nat" where
  "req_w (NextReq w r) = w"
| "req_w (StopReq w) = w"

datatype sm_cmd =
    OnStore store_cmd
  | NewWatcher
  | SetWatcherRevno nat
  | HandleReq request
  | Respond
  | Assert "test_manager \<Rightarrow> bool"

text \<open>
  \<open>storeAdd(sm.all, ...)\<close> and the other store commands, \<open>&Watcher{all: sm}\<close>,
  \<open>w.revno = sm.all.latestRevno\<close>, \<open>sm.handle(req)\<close>, \<open>sm.respond()\<close> and
  \<open>c.Assert\<close>.
\<close>

fun sm_cmd_step :: "sm_cmd \<Rightarrow> test_manager \<Rightarrow> test_manager option" where
  "sm_cmd_step (OnStore c) sm = map_option (\<lambda>a. sm\<lparr>sm_all := a\<rparr>) (store_cmd_step c (sm_all sm))"
| "sm_cmd_step NewWatcher sm = Some (add_watcher sm)"
| "sm_cmd_step (SetWatcherRevno w) sm =
     (if w < length (sm_watchers sm)
      then Some (sm\<lparr>sm_watchers := (sm_watchers sm)[w := (sm_watchers sm ! w)\<lparr>w_revno := latestRevno (sm_all sm)\<rparr>]\<rparr>)
      else None)"
| "sm_cmd_step (HandleReq req) sm = (if req_w req < length (sm_watchers sm) then handle req sm else None)"
| "sm_cmd_step Respond sm = respond sm"
| "sm_cmd_step (Assert p) sm = (if p sm then Some sm else None)"

fun run_sm :: "sm_cmd list \<Rightarrow> test_manager \<Rightarrow> bool" where
  "run_sm [] sm = True"
| "run_sm (c # cs) sm = (case sm_cmd_step c sm of None \<Rightarrow> False | Some sm' \<Rightarrow> run_sm cs sm')"

subsection \<open>Assertions on requests\<close>

definition replies_to :: "test_manager \<Rightarrow> nat \<Rightarrow> nat \<Rightarrow> testInfo reply list" where
  "replies_to sm w r = map (\<lambda>(w', r', rep). rep) (filter (\<lambda>(w', r', rep). w' = w \<and> r' = r) (sm_replies sm))"

definition assertNotReplied :: "nat \<Rightarrow> nat \<Rightarrow> test_manager \<Rightarrow> bool" where
  "assertNotReplied w r sm \<longleftrightarrow> replies_to sm w r = []"

definition assertReplied :: "bool \<Rightarrow> nat \<Rightarrow> nat \<Rightarrow> test_manager \<Rightarrow> bool" where
  "assertReplied val w r sm \<longleftrightarrow> (case replies_to sm w r of [Reply b ds] \<Rightarrow> b = val | _ \<Rightarrow> False)"

text \<open>\<open>req.changes\<close>, as \<open>respond\<close> set it before replying.\<close>

definition req_changes :: "nat \<Rightarrow> nat \<Rightarrow> test_manager \<Rightarrow> testInfo delta list" where
  "req_changes w r sm = (case replies_to sm w r of [Reply b ds] \<Rightarrow> ds | _ \<Rightarrow> [])"

text \<open>
  \<open>assertWaitingRequests\<close>: the pending requests of each watcher, newest first (the
  list of watcher \<open>i\<close> at position \<open>i\<close>, empty for a watcher absent from the map), none
  of them replied to.
\<close>

definition assertWaitingRequests :: "nat list list \<Rightarrow> test_manager \<Rightarrow> bool" where
  "assertWaitingRequests waiting sm \<longleftrightarrow>
     map (sm_waiting sm) [0..<length (sm_watchers sm)] = waiting
     \<and> list_all (\<lambda>(w, rs). list_all (\<lambda>r. assertNotReplied w r sm) rs) (enumerate 0 waiting)"

subsection \<open>The tests\<close>

definition TestHandle :: bool where
  "TestHandle = run_sm [
     NewWatcher,
     HandleReq (NextReq 0 0),
     Assert (assertWaitingRequests [[0]]),
     HandleReq (NextReq 0 1),
     Assert (assertWaitingRequests [[1, 0]]),
     NewWatcher,
     HandleReq (NextReq 1 2),
     Assert (assertWaitingRequests [[1, 0], [2]]),
     HandleReq (StopReq 0),
     Assert (assertWaitingRequests [[], [2]]),
     Assert (assertReplied False 0 0),
     Assert (assertReplied False 0 1),
     HandleReq (StopReq 1),
     Assert (assertWaitingRequests [[], []]),
     Assert (assertReplied False 1 2)]
   (new_manager NewStore)"

definition machine0 :: testInfoId where
  "machine0 = \<lparr>kind = ''machine'', ident = ''0''\<rparr>"

definition TestHandleStopNoDecRefIfMoreRecentlyCreated :: bool where
  "TestHandleStopNoDecRefIfMoreRecentlyCreated = run_sm [
     OnStore (StoreAddCmd (MachineInfo ''0'' '''')),
     OnStore (IncRefCmd machine0),
     NewWatcher,
     HandleReq (StopReq 0),
     Assert (\<lambda>sm. assertStoreContents (sm_all sm) 1
               [\<lparr>creationRevno = 1, revno = 1, refCount = 1, removed = False, info = MachineInfo ''0'' ''''\<rparr>])]
   (new_manager NewStore)"

definition TestHandleStopNoDecRefIfAlreadySeenRemoved :: bool where
  "TestHandleStopNoDecRefIfAlreadySeenRemoved = run_sm [
     OnStore (StoreAddCmd (MachineInfo ''0'' '''')),
     OnStore (IncRefCmd machine0),
     OnStore (UpdateCmd machine0 None),
     NewWatcher,
     HandleReq (StopReq 0),
     Assert (\<lambda>sm. assertStoreContents (sm_all sm) 2
               [\<lparr>creationRevno = 1, revno = 2, refCount = 1, removed = True, info = MachineInfo ''0'' ''''\<rparr>])]
   (new_manager NewStore)"

definition TestHandleStopDecRefIfAlreadySeenAndNotRemoved :: bool where
  "TestHandleStopDecRefIfAlreadySeenAndNotRemoved = run_sm [
     OnStore (StoreAddCmd (MachineInfo ''0'' '''')),
     OnStore (IncRefCmd machine0),
     NewWatcher,
     SetWatcherRevno 0,
     HandleReq (StopReq 0),
     Assert (\<lambda>sm. assertStoreContents (sm_all sm) 1
               [\<lparr>creationRevno = 1, revno = 1, refCount = 0, removed = False, info = MachineInfo ''0'' ''''\<rparr>])]
   (new_manager NewStore)"

definition TestHandleStopNoDecRefIfNotSeen :: bool where
  "TestHandleStopNoDecRefIfNotSeen = run_sm [
     OnStore (StoreAddCmd (MachineInfo ''0'' '''')),
     OnStore (IncRefCmd machine0),
     NewWatcher,
     HandleReq (StopReq 0),
     Assert (\<lambda>sm. assertStoreContents (sm_all sm) 1
               [\<lparr>creationRevno = 1, revno = 1, refCount = 1, removed = False, info = MachineInfo ''0'' ''''\<rparr>])]
   (new_manager NewStore)"

definition TestRespondMultiple :: bool where
  "TestRespondMultiple = run_sm [
     OnStore (StoreAddCmd (MachineInfo ''0'' '''')),
     NewWatcher,
     HandleReq (NextReq 0 0),
     Respond,
     Assert (assertReplied True 0 0),
     Assert (\<lambda>sm. req_changes 0 0 sm = [\<lparr>delta_removed = False, delta_entity = MachineInfo ''0'' ''''\<rparr>]),
     Assert (assertWaitingRequests [[]]),
     HandleReq (NextReq 0 1),
     Respond,
     Assert (assertNotReplied 0 1),
     NewWatcher,
     HandleReq (NextReq 1 2),
     HandleReq (NextReq 1 3),
     Assert (assertWaitingRequests [[1], [3, 2]]),
     Respond,
     Assert (assertNotReplied 0 1),
     Assert (assertNotReplied 1 2),
     Assert (assertReplied True 1 3),
     Assert (\<lambda>sm. req_changes 1 3 sm = [\<lparr>delta_removed = False, delta_entity = MachineInfo ''0'' ''''\<rparr>]),
     Assert (assertWaitingRequests [[1], [2]]),
     Respond,
     Assert (assertNotReplied 0 1),
     Assert (assertNotReplied 1 2),
     OnStore (StoreAddCmd (MachineInfo ''1'' '''')),
     Respond,
     Assert (assertReplied True 0 1),
     Assert (assertReplied True 1 2),
     Assert (assertWaitingRequests [[], []]),
     Assert (\<lambda>sm. req_changes 0 1 sm = [\<lparr>delta_removed = False, delta_entity = MachineInfo ''1'' ''''\<rparr>]),
     Assert (\<lambda>sm. req_changes 1 2 sm = [\<lparr>delta_removed = False, delta_entity = MachineInfo ''1'' ''''\<rparr>])]
   (new_manager NewStore)"

subsection \<open>The manager tests pass\<close>

text \<open>\<open>TestHandle\<close> passes on the model of the manager.\<close>

theorem Handle_test_pass: "TestHandle"
  by code_simp

text \<open>
  The four \<open>TestHandleStop\<close> tests pass: stopping a watcher drops its reference
  to an entry exactly when it has seen the entry created and not seen it removed.
\<close>

theorem HandleStop_tests_pass:
  "TestHandleStopNoDecRefIfMoreRecentlyCreated \<and> TestHandleStopNoDecRefIfAlreadySeenRemoved
   \<and> TestHandleStopDecRefIfAlreadySeenAndNotRemoved \<and> TestHandleStopNoDecRefIfNotSeen"
  by (simp add: TestHandleStopNoDecRefIfMoreRecentlyCreated_def TestHandleStopNoDecRefIfAlreadySeenRemoved_def
      TestHandleStopDecRefIfAlreadySeenAndNotRemoved_def TestHandleStopNoDecRefIfNotSeen_def
      new_manager_def add_watcher_def new_watcher_def handle_def leave_def leave_step_def machine0_def
      assertStoreContents_def store_test_eval)

text \<open>
  \<open>TestRespondMultiple\<close> passes: \<open>respond\<close> serves the newest pending request of
  each watcher that is behind the store, leaves the others waiting, and serves
  nothing when no revision is new.
\<close>

theorem RespondMultiple_test_pass: "TestRespondMultiple"
  by code_simp

end
