(* ===== verification/ConstraintsDoc.thy ===== *)
theory ConstraintsDoc
  imports Constraints
begin

text \<open>
  Storing constraints in the database (\<open>src/state/constraints.go\<close>, lines 181--232):
  the document \<open>constraintsDoc\<close>, the transaction operation that creates it, and
  \<open>readConstraints\<close> and \<open>writeConstraints\<close>. The mongo collection and the \<open>mgo/txn\<close>
  runner are libraries the sources only call; they are modelled from their documented
  behaviour: a collection is a map from document id to document, a read or a
  transaction may fail with an I/O error, and a transaction checks every assertion
  before it applies any change, aborting as a whole when one fails.
\<close>

record constraintsDoc =
  doc_Arch :: "string option"
  doc_CpuCores :: "64 word option"
  doc_CpuPower :: "64 word option"
  doc_Mem :: "64 word option"

definition newConstraintsDoc :: "constraints \<Rightarrow> constraintsDoc" where
  "newConstraintsDoc cons =
     \<lparr>doc_Arch = Arch cons, doc_CpuCores = CpuCores cons, doc_CpuPower = CpuPower cons, doc_Mem = Mem cons\<rparr>"

subsection \<open>The database, as the code uses it\<close>

datatype db_error = ErrNotFound | ErrAborted | ErrIO string

record db =
  coll :: "string \<rightharpoonup> constraintsDoc"
  io_error :: "string option"

datatype txn_assert = DocMissing | DocExists

datatype txn_change = Insert constraintsDoc | SetDoc constraintsDoc

record txn_Op =
  op_C :: string
  op_Id :: string
  op_Assert :: txn_assert
  op_Change :: txn_change

definition FindId :: "db \<Rightarrow> string \<Rightarrow> db_error + constraintsDoc" where
  "FindId d i = (case io_error d of Some e \<Rightarrow> Inl (ErrIO e)
                 | None \<Rightarrow> (case coll d i of None \<Rightarrow> Inl ErrNotFound | Some doc \<Rightarrow> Inr doc))"

definition assert_holds :: "db \<Rightarrow> txn_Op \<Rightarrow> bool" where
  "assert_holds d op = (case op_Assert op of DocMissing \<Rightarrow> coll d (op_Id op) = None
                        | DocExists \<Rightarrow> coll d (op_Id op) \<noteq> None)"

definition apply_op :: "txn_Op \<Rightarrow> db \<Rightarrow> db" where
  "apply_op op d = (case op_Change op of Insert doc \<Rightarrow> d\<lparr>coll := (coll d)(op_Id op \<mapsto> doc)\<rparr>
                    | SetDoc doc \<Rightarrow> d\<lparr>coll := (coll d)(op_Id op \<mapsto> doc)\<rparr>)"

text \<open>\<open>runner.Run(ops, "", nil)\<close>: all assertions, then all changes, or nothing.\<close>

definition Run :: "txn_Op list \<Rightarrow> db \<Rightarrow> db_error + db" where
  "Run ops d = (case io_error d of Some e \<Rightarrow> Inl (ErrIO e)
                | None \<Rightarrow> if list_all (assert_holds d) ops then Inr (fold apply_op ops d) else Inl ErrAborted)"

subsection \<open>The code\<close>

datatype state_error = NotFoundf string | DbError db_error | CannotSetConstraints db_error

definition constraints_coll :: string where
  "constraints_coll = ''constraints''"

definition createConstraintsOp :: "string \<Rightarrow> constraints \<Rightarrow> txn_Op" where
  "createConstraintsOp i cons =
     \<lparr>op_C = constraints_coll, op_Id = i, op_Assert = DocMissing, op_Change = Insert (newConstraintsDoc cons)\<rparr>"

definition readConstraints :: "db \<Rightarrow> string \<Rightarrow> state_error + constraints" where
  "readConstraints d i =
     (case FindId d i of
        Inl ErrNotFound \<Rightarrow> Inl (NotFoundf ''constraints'')
      | Inl e \<Rightarrow> Inl (DbError e)
      | Inr doc \<Rightarrow> Inr \<lparr>Arch = doc_Arch doc, CpuCores = doc_CpuCores doc, CpuPower = doc_CpuPower doc,
                        Mem = doc_Mem doc\<rparr>)"

definition writeConstraints :: "db \<Rightarrow> string \<Rightarrow> constraints \<Rightarrow> state_error + db" where
  "writeConstraints d i cons =
     (let ops = [\<lparr>op_C = constraints_coll, op_Id = i, op_Assert = DocExists,
                  op_Change = SetDoc (newConstraintsDoc cons)\<rparr>] in
      case Run ops d of Inl e \<Rightarrow> Inl (CannotSetConstraints e) | Inr d' \<Rightarrow> Inr d')"

text \<open>The messages of the errors: \<open>NotFoundf\<close>, \<open>txn.ErrAborted\<close> and \<open>fmt.Errorf\<close>.\<close>

fun db_error_msg :: "db_error \<Rightarrow> string" where
  "db_error_msg ErrNotFound = ''not found''"
| "db_error_msg ErrAborted = ''transaction aborted''"
| "db_error_msg (ErrIO e) = e"

fun state_error_msg :: "state_error \<Rightarrow> string" where
  "state_error_msg (NotFoundf what) = what @ '' not found''"
| "state_error_msg (DbError e) = db_error_msg e"
| "state_error_msg (CannotSetConstraints e) = ''cannot set constraints: '' @ db_error_msg e"

subsection \<open>Properties of the stored constraints\<close>

lemma readConstraints_found:
  "io_error d = None \<Longrightarrow> coll d i = Some (newConstraintsDoc cons) \<Longrightarrow> readConstraints d i = Inr cons"
  by (simp add: readConstraints_def FindId_def newConstraintsDoc_def)

lemma Run_single:
  "io_error d = None \<Longrightarrow> Run [op] d = (if assert_holds d op then Inr (apply_op op d) else Inl ErrAborted)"
  by (simp add: Run_def)

lemma apply_op_fields [simp]:
  "io_error (apply_op op d) = io_error d"
  "coll (apply_op op d) = (coll d)(op_Id op \<mapsto> (case op_Change op of Insert doc \<Rightarrow> doc | SetDoc doc \<Rightarrow> doc))"
  by (simp_all add: apply_op_def split: txn_change.splits)

text \<open>
  C20. Constraints survive the database: the document \<open>createConstraintsOp\<close> inserts
  for a new id reads back as the same constraints, and after \<open>writeConstraints\<close> of
  other constraints the read returns those.
\<close>

theorem constraints_stored_roundtrip:
  assumes "io_error d = None" and "coll d i = None"
  shows "\<exists>d1 d2. Run [createConstraintsOp i cons] d = Inr d1 \<and> readConstraints d1 i = Inr cons
           \<and> writeConstraints d1 i cons' = Inr d2 \<and> readConstraints d2 i = Inr cons'"
proof -
  let ?d1 = "apply_op (createConstraintsOp i cons) d"
  let ?op = "\<lparr>op_C = constraints_coll, op_Id = i, op_Assert = DocExists, op_Change = SetDoc (newConstraintsDoc cons')\<rparr>"
  have r1: "Run [createConstraintsOp i cons] d = Inr ?d1"
    using assms by (simp add: Run_single assert_holds_def createConstraintsOp_def)
  have c1: "coll ?d1 i = Some (newConstraintsDoc cons)" by (simp add: createConstraintsOp_def)
  have w: "writeConstraints ?d1 i cons' = Inr (apply_op ?op ?d1)"
    using assms c1 by (simp add: writeConstraints_def Run_single assert_holds_def)
  have c2: "coll (apply_op ?op ?d1) i = Some (newConstraintsDoc cons')" by simp
  show ?thesis
    using r1 w readConstraints_found [OF _ c1] readConstraints_found [OF _ c2] assms by auto
qed

theorem constraints_stored_roundtrip_witness:
  "io_error \<lparr>coll = Map.empty, io_error = None\<rparr> = None \<and> coll \<lparr>coll = Map.empty, io_error = None\<rparr> ''s#wordpress'' = None
   \<and> (\<exists>d1 d2. Run [createConstraintsOp ''s#wordpress'' (empty_constraints\<lparr>Mem := Some 4096\<rparr>)]
                 \<lparr>coll = Map.empty, io_error = None\<rparr> = Inr d1
          \<and> readConstraints d1 ''s#wordpress'' = Inr (empty_constraints\<lparr>Mem := Some 4096\<rparr>)
          \<and> writeConstraints d1 ''s#wordpress'' (empty_constraints\<lparr>Arch := Some ''arm''\<rparr>) = Inr d2
          \<and> readConstraints d2 ''s#wordpress'' = Inr (empty_constraints\<lparr>Arch := Some ''arm''\<rparr>))"
  using constraints_stored_roundtrip [of "\<lparr>coll = Map.empty, io_error = None\<rparr>" "''s#wordpress''"
      "empty_constraints\<lparr>Mem := Some 4096\<rparr>" "empty_constraints\<lparr>Arch := Some ''arm''\<rparr>"]
  by simp

text \<open>
  C21. The error paths: for an id without a document, \<open>readConstraints\<close> reports
  \<open>constraints not found\<close> and \<open>writeConstraints\<close> fails with \<open>cannot set constraints:
  transaction aborted\<close>, leaving the database alone; creating the document of an id
  twice aborts the second transaction.
\<close>

theorem constraints_stored_errors:
  assumes "io_error d = None" and "coll d i = None"
  shows "map_sum state_error_msg id (readConstraints d i) = Inl ''constraints not found''
         \<and> map_sum state_error_msg id (writeConstraints d i cons) = Inl ''cannot set constraints: transaction aborted''
         \<and> (\<exists>d1. Run [createConstraintsOp i cons] d = Inr d1
                 \<and> Run [createConstraintsOp i cons'] d1 = Inl ErrAborted)"
  using assms
  by (simp add: readConstraints_def FindId_def writeConstraints_def Run_single assert_holds_def
      createConstraintsOp_def)

theorem constraints_stored_errors_witness:
  "io_error \<lparr>coll = Map.empty, io_error = None\<rparr> = None \<and> coll \<lparr>coll = Map.empty, io_error = None\<rparr> ''s#mysql'' = None
   \<and> map_sum state_error_msg id (readConstraints \<lparr>coll = Map.empty, io_error = None\<rparr> ''s#mysql'')
       = Inl ''constraints not found''
   \<and> map_sum state_error_msg id (writeConstraints \<lparr>coll = Map.empty, io_error = None\<rparr> ''s#mysql'' empty_constraints)
       = Inl ''cannot set constraints: transaction aborted''
   \<and> (\<exists>d1. Run [createConstraintsOp ''s#mysql'' empty_constraints] \<lparr>coll = Map.empty, io_error = None\<rparr> = Inr d1
           \<and> Run [createConstraintsOp ''s#mysql'' empty_constraints] d1 = Inl ErrAborted)"
  using constraints_stored_errors [of "\<lparr>coll = Map.empty, io_error = None\<rparr>" "''s#mysql''" empty_constraints empty_constraints]
  by simp

end
