(* ===== verification/RunLoop.thy ===== *)
theory RunLoop
  imports ManagerTests System
begin

text \<open>
  The store manager's run loop and the watcher's \<open>Next\<close> and \<open>Stop\<close> (spec 4.2, 4.3,
  section 5; the loop is not among the sources and is modelled from the
  specification), driven as the run tests of \<open>src/state/open.go\<close> drive them:
  \<open>TestRunStop\<close>, \<open>TestRun\<close>, \<open>TestWatcherStop\<close> and
  \<open>TestWatcherStopBecauseStoreManagerError\<close> (lines 728--795), with \<open>getNext\<close>,
  \<open>checkNext\<close> and \<open>checkDeltasEqual\<close> (lines 829--860). The loop is one actor: a
  change the backing sends is received before the backing's call returns (the
  channel is unbuffered), and the loop then applies it and responds before it takes
  the next request; a \<open>Next\<close> call whose request is not answered by the loop's turn
  is not answered before \<open>getNext\<close> times out, since nothing else happens meanwhile.
  A backing error ends the loop, which then unwatches the backing and answers
  \<open>false\<close> to every pending request.
\<close>

datatype next_result = NextDeltas "testInfo delta list" | NextError string

record runner =
  rn_sm :: test_manager
  rn_backing :: storeManagerTestBacking
  rn_err :: "backing_error option"
  rn_dead :: bool
  rn_results :: "(nat \<times> next_result) list"

definition ErrWatcherStopped :: string where
  "ErrWatcherStopped = ''state watcher was stopped''"

text \<open>The error a \<open>Next\<close> answered \<open>false\<close> returns: the loop's error, if any.\<close>

definition loop_err_msg :: "backing_error option \<Rightarrow> string" where
  "loop_err_msg err = (case err of None \<Rightarrow> ErrWatcherStopped
                       | Some ErrNotFound \<Rightarrow> ''not found'' | Some (BackingErr e) \<Rightarrow> e)"

text \<open>What the \<open>Next\<close> calls receive from the replies the loop sent.\<close>

definition reply_result :: "backing_error option \<Rightarrow> nat \<times> nat \<times> testInfo reply \<Rightarrow> nat \<times> next_result" where
  "reply_result err x = (case x of (w, r, Reply b ds) \<Rightarrow>
                          (r, if b then NextDeltas ds else NextError (loop_err_msg err)))"

definition collect :: "runner \<Rightarrow> test_manager \<Rightarrow> runner" where
  "collect rn sm' =
     rn\<lparr>rn_sm := sm',
        rn_results := rn_results rn @ map (reply_result (rn_err rn)) (new_replies (rn_sm rn) sm')\<rparr>"

subsection \<open>The loop\<close>

text \<open>
  Shutdown: the backing is unwatched, and every pending request, newest first per
  watcher, is answered \<open>false\<close>.
\<close>

definition pending_replies :: "test_manager \<Rightarrow> (nat \<times> nat \<times> testInfo reply) list" where
  "pending_replies sm =
     concat (map (\<lambda>w. map (\<lambda>r. (w, r, Reply False [])) (sm_waiting sm w)) [0..<length (sm_watchers sm)])"

definition loop_finish :: "runner \<Rightarrow> runner option" where
  "loop_finish rn =
     (case Unwatch 0 (rn_backing rn) of
        None \<Rightarrow> None
      | Some b \<Rightarrow>
          Some (collect (rn\<lparr>rn_backing := b, rn_dead := True\<rparr>)
                  ((rn_sm rn)\<lparr>sm_waiting := (\<lambda>_. []),
                              sm_replies := sm_replies (rn_sm rn) @ pending_replies (rn_sm rn)\<rparr>)))"

text \<open>After every change or request the loop calls \<open>respond\<close>.\<close>

definition loop_respond :: "runner \<Rightarrow> test_manager \<Rightarrow> runner option" where
  "loop_respond rn sm = map_option (collect rn) (respond sm)"

text \<open>A change from the backing: \<open>Changed\<close>; its error ends the loop.\<close>

definition loop_change :: "change \<Rightarrow> runner \<Rightarrow> runner option" where
  "loop_change ch rn =
     (case Changed (rn_backing rn) (sm_all (rn_sm rn)) ch of
        Inl e \<Rightarrow> loop_finish (rn\<lparr>rn_err := Some e\<rparr>)
      | Inr a \<Rightarrow> loop_respond rn ((rn_sm rn)\<lparr>sm_all := a\<rparr>))"

fun loop_changes :: "change list \<Rightarrow> runner \<Rightarrow> runner option" where
  "loop_changes [] rn = Some rn"
| "loop_changes (ch # chs) rn = (case loop_change ch rn of None \<Rightarrow> None | Some rn' \<Rightarrow> loop_changes chs rn')"

text \<open>A request from a watcher: \<open>handle\<close>.\<close>

definition loop_request :: "request \<Rightarrow> runner \<Rightarrow> runner option" where
  "loop_request req rn =
     (if req_w req < length (sm_watchers (rn_sm rn))
      then (case handle req (rn_sm rn) of None \<Rightarrow> None | Some sm1 \<Rightarrow> loop_respond rn sm1)
      else None)"

text \<open>
  \<open>NewStoreManager(b)\<close>: the loop seeds the store with \<open>GetAll\<close>, ending at once on its
  error, and watches the backing on channel 0.
\<close>

definition NewStoreManager :: "storeManagerTestBacking \<Rightarrow> runner option" where
  "NewStoreManager b =
     (case GetAll b NewStore of
        Inl e \<Rightarrow> Some \<lparr>rn_sm = new_manager NewStore, rn_backing = b, rn_err = Some e, rn_dead = True,
                       rn_results = []\<rparr>
      | Inr a \<Rightarrow> map_option (\<lambda>b'. \<lparr>rn_sm = new_manager a, rn_backing = b', rn_err = None, rn_dead = False,
                                    rn_results = []\<rparr>) (Watch 0 b))"

subsection \<open>The run tests\<close>

datatype run_cmd =
    RunNewWatcher
  | RunNext nat nat
  | RunWatcherStop nat
  | RunStop
  | RunUpdateEntity testInfo
  | RunDeleteEntity testInfoId
  | RunSetFetchError "backing_error option"
  | RunCheck "runner \<Rightarrow> bool"

text \<open>
  \<open>&Watcher{all: sm}\<close>; \<open>w.Next()\<close> (request \<open>r\<close>), which on a finished loop returns
  the loop's error at once; \<open>w.Stop()\<close>; \<open>sm.Stop()\<close>; \<open>b.updateEntity\<close>,
  \<open>b.deleteEntity\<close> and \<open>b.setFetchError\<close>, the changes they send received by the
  loop; and the test's checks.
\<close>

fun run_step :: "run_cmd \<Rightarrow> runner \<Rightarrow> runner option" where
  "run_step RunNewWatcher rn = Some (rn\<lparr>rn_sm := add_watcher (rn_sm rn)\<rparr>)"
| "run_step (RunNext w r) rn =
     (if rn_dead rn then Some (rn\<lparr>rn_results := rn_results rn @ [(r, NextError (loop_err_msg (rn_err rn)))]\<rparr>)
      else loop_request (NextReq w r) rn)"
| "run_step (RunWatcherStop w) rn = (if rn_dead rn then Some rn else loop_request (StopReq w) rn)"
| "run_step RunStop rn = (if rn_dead rn then Some rn else loop_finish rn)"
| "run_step (RunUpdateEntity i) rn =
     (case updateEntity i (rn_backing rn) of (b', chs) \<Rightarrow> loop_changes chs (rn\<lparr>rn_backing := b'\<rparr>))"
| "run_step (RunDeleteEntity k) rn =
     (case deleteEntity k (rn_backing rn) of (b', chs) \<Rightarrow> loop_changes chs (rn\<lparr>rn_backing := b'\<rparr>))"
| "run_step (RunSetFetchError e) rn = Some (rn\<lparr>rn_backing := setFetchError e (rn_backing rn)\<rparr>)"
| "run_step (RunCheck p) rn = (if p rn then Some rn else None)"

fun run_test :: "run_cmd list \<Rightarrow> runner \<Rightarrow> bool" where
  "run_test [] rn = True"
| "run_test (c # cs) rn = (case run_step c rn of None \<Rightarrow> False | Some rn' \<Rightarrow> run_test cs rn')"

definition errTimeout :: string where
  "errTimeout = ''no change received in sufficient time''"

text \<open>\<open>getNext\<close>: what the \<open>Next\<close> call of request \<open>r\<close> returned, or the timeout.\<close>

definition getNext :: "nat \<Rightarrow> runner \<Rightarrow> next_result" where
  "getNext r rn = (case map_of (rn_results rn) r of Some res \<Rightarrow> res | None \<Rightarrow> NextError errTimeout)"

text \<open>
  \<open>checkNext\<close>: the expected error, or deltas equal to the expected ones as sets
  (\<open>checkDeltasEqual\<close> compares the \<open>deltaMap\<close>s; a \<open>deltaMap\<close> that panics fails).
\<close>

definition checkDeltasEqual :: "testInfo delta list \<Rightarrow> testInfo delta list \<Rightarrow> bool" where
  "checkDeltasEqual d0 d1 =
     (case (deltaMap idForInfo d0, deltaMap idForInfo d1) of
        (Some m0, Some m1) \<Rightarrow> list_all (\<lambda>k. m0 k = m1 k) (map (idForInfo \<circ> delta_entity) (d0 @ d1))
      | _ \<Rightarrow> False)"

definition checkNext :: "nat \<Rightarrow> testInfo delta list \<Rightarrow> string \<Rightarrow> runner \<Rightarrow> bool" where
  "checkNext r deltas expectErr rn =
     (case getNext r rn of
        NextError e \<Rightarrow> (if expectErr \<noteq> [] then e = expectErr else checkDeltasEqual [] deltas)
      | NextDeltas d \<Rightarrow> expectErr = [] \<and> checkDeltasEqual d deltas)"

definition stop_result :: "runner \<Rightarrow> backing_error option" where
  "stop_result rn = rn_err rn"

definition TestRunStop :: bool where
  "TestRunStop =
     (case NewStoreManager (newTestBacking []) of None \<Rightarrow> False | Some rn \<Rightarrow>
        run_test [RunNewWatcher, RunStop, RunCheck (\<lambda>rn. stop_result rn = None),
                  RunNext 0 0, RunCheck (checkNext 0 [] ErrWatcherStopped)] rn)"

definition TestRun :: bool where
  "TestRun =
     (case NewStoreManager (newTestBacking [MachineInfo ''0'' '''', ServiceInfo ''logging'' False,
                                            ServiceInfo ''wordpress'' False]) of None \<Rightarrow> False | Some rn \<Rightarrow>
        run_test [RunNewWatcher,
                  RunNext 0 0,
                  RunCheck (checkNext 0 [\<lparr>delta_removed = False, delta_entity = MachineInfo ''0'' ''''\<rparr>,
                                         \<lparr>delta_removed = False, delta_entity = ServiceInfo ''logging'' False\<rparr>,
                                         \<lparr>delta_removed = False, delta_entity = ServiceInfo ''wordpress'' False\<rparr>] []),
                  RunUpdateEntity (MachineInfo ''0'' ''i-0''),
                  RunNext 0 1,
                  RunCheck (checkNext 1 [\<lparr>delta_removed = False, delta_entity = MachineInfo ''0'' ''i-0''\<rparr>] []),
                  RunDeleteEntity \<lparr>kind = ''machine'', ident = ''0''\<rparr>,
                  RunNext 0 2,
                  RunCheck (checkNext 2 [\<lparr>delta_removed = True, delta_entity = MachineInfo ''0'' ''''\<rparr>] []),
                  RunStop, RunCheck (\<lambda>rn. stop_result rn = None)] rn)"

definition TestWatcherStop :: bool where
  "TestWatcherStop =
     (case NewStoreManager (newTestBacking []) of None \<Rightarrow> False | Some rn \<Rightarrow>
        run_test [RunNewWatcher, RunNext 0 0, RunWatcherStop 0,
                  RunCheck (checkNext 0 [] ErrWatcherStopped),
                  RunStop, RunCheck (\<lambda>rn. stop_result rn = None)] rn)"

definition TestWatcherStopBecauseStoreManagerError :: bool where
  "TestWatcherStopBecauseStoreManagerError =
     (case NewStoreManager (newTestBacking [MachineInfo ''0'' '''']) of None \<Rightarrow> False | Some rn \<Rightarrow>
        run_test [RunNewWatcher,
                  RunNext 0 0,
                  RunCheck (checkNext 0 [\<lparr>delta_removed = False, delta_entity = MachineInfo ''0'' ''''\<rparr>] []),
                  RunSetFetchError (Some (BackingErr ''some error'')),
                  RunUpdateEntity (MachineInfo ''1'' ''''),
                  RunNext 0 1,
                  RunCheck (checkNext 1 [] ''some error''),
                  RunStop, RunCheck (\<lambda>rn. stop_result rn = Some (BackingErr ''some error''))] rn)"

subsection \<open>Properties of the loop\<close>

lemma deltaMap_acc_other:
  "deltaMap_acc idf ds m = Some m' \<Longrightarrow> k \<notin> set (map (idf \<circ> delta_entity) ds) \<Longrightarrow> m' k = m k"
  by (induction idf ds m rule: deltaMap_acc.induct) (auto simp: Let_def split: if_splits)

text \<open>\<open>checkDeltasEqual\<close> is the \<open>DeepEquals\<close> of the two maps: both are built from the
  deltas, so they can only differ at an identifier the deltas mention.\<close>

lemma checkDeltasEqual_iff:
  "checkDeltasEqual d0 d1 \<longleftrightarrow> (\<exists>m. deltaMap idForInfo d0 = Some m \<and> deltaMap idForInfo d1 = Some m)"
proof (cases "deltaMap idForInfo d0")
  case (Some m0)
  show ?thesis
  proof (cases "deltaMap idForInfo d1")
    case (Some m1)
    have "m0 k = m1 k" if "list_all (\<lambda>k. m0 k = m1 k) (map (idForInfo \<circ> delta_entity) (d0 @ d1))" for k
    proof (cases "k \<in> set (map (idForInfo \<circ> delta_entity) (d0 @ d1))")
      case True
      then show ?thesis using that by (simp add: list_all_iff)
    next
      case False
      then show ?thesis
        using deltaMap_acc_other [of idForInfo d0 Map.empty m0 k] deltaMap_acc_other [of idForInfo d1 Map.empty m1 k]
          \<open>deltaMap idForInfo d0 = Some m0\<close> Some by (simp add: deltaMap_def)
    qed
    then show ?thesis using \<open>deltaMap idForInfo d0 = Some m0\<close> Some
      by (auto simp: checkDeltasEqual_def list_all_iff)
  qed (simp add: checkDeltasEqual_def \<open>deltaMap idForInfo d0 = Some m0\<close>)
qed (simp add: checkDeltasEqual_def)

lemma pending_replies_set:
  "(w, r, rep) \<in> set (pending_replies sm) \<longleftrightarrow>
     w < length (sm_watchers sm) \<and> r \<in> set (sm_waiting sm w) \<and> rep = Reply False []"
  by (auto simp: pending_replies_def)

lemma collect_results:
  "rn_results (collect rn sm') = rn_results rn @ map (reply_result (rn_err rn)) (new_replies (rn_sm rn) sm')"
  by (simp add: collect_def)

text \<open>
  \<open>TestRun\<close> passes: the loop seeds the store from the backing, and a watcher's
  successive \<open>Next\<close> calls return the three initial entities, then machine 0's new
  instance id, then its removal (spec scenario A, through the backing, the loop and
  the watcher).
\<close>

theorem Run_test_pass: "TestRun"
  by code_simp

text \<open>
  The stop tests pass: after \<open>sm.Stop()\<close> a \<open>Next\<close> fails with \<open>state watcher was
  stopped\<close>; a \<open>Next\<close> pending when its watcher stops fails with that error; and a
  backing error ends the loop, fails the next \<open>Next\<close> with the backing's error, and is
  what \<open>sm.Stop()\<close> returns.
\<close>

theorem Stop_tests_pass: "TestRunStop \<and> TestWatcherStop \<and> TestWatcherStopBecauseStoreManagerError"
  by code_simp

text \<open>
  No \<open>Next\<close> waits forever on a finished loop: when the loop ends, every pending
  request of every watcher is answered, and its \<open>Next\<close> returns the loop's error (or
  \<open>state watcher was stopped\<close> when there is none); no request is left pending.
\<close>

theorem loop_finish_answers_pending:
  assumes "loop_finish rn = Some rn'" and "w < length (sm_watchers (rn_sm rn))"
    and "r \<in> set (sm_waiting (rn_sm rn) w)"
  shows "(r, NextError (loop_err_msg (rn_err rn))) \<in> set (rn_results rn') \<and> rn_dead rn'
         \<and> (\<forall>v. sm_waiting (rn_sm rn') v = [])"
proof -
  obtain b where b: "Unwatch 0 (rn_backing rn) = Some b"
    and rn': "rn' = collect (rn\<lparr>rn_backing := b, rn_dead := True\<rparr>)
                 ((rn_sm rn)\<lparr>sm_waiting := (\<lambda>_. []), sm_replies := sm_replies (rn_sm rn) @ pending_replies (rn_sm rn)\<rparr>)"
    using assms(1) by (auto simp: loop_finish_def split: option.splits)
  have "(w, r, Reply False []) \<in> set (pending_replies (rn_sm rn))"
    using assms(2,3) by (simp add: pending_replies_set)
  then have "(r, NextError (loop_err_msg (rn_err rn))) \<in> set (map (reply_result (rn_err rn)) (pending_replies (rn_sm rn)))"
    by (force simp: reply_result_def)
  then show ?thesis using rn' by (simp add: collect_def new_replies_def)
qed

theorem loop_finish_answers_pending_witness:
  "\<exists>rn'. loop_finish \<lparr>rn_sm = (add_watcher (new_manager NewStore))\<lparr>sm_waiting := (\<lambda>_. [])(0 := [5])\<rparr>,
                      rn_backing = (newTestBacking [])\<lparr>watchc := Some 0\<rparr>, rn_err = None, rn_dead = False,
                      rn_results = []\<rparr> = Some rn'
     \<and> (5, NextError ''state watcher was stopped'') \<in> set (rn_results rn') \<and> rn_dead rn'
     \<and> (\<forall>v. sm_waiting (rn_sm rn') v = [])"
proof -
  let ?rn = "\<lparr>rn_sm = (add_watcher (new_manager NewStore))\<lparr>sm_waiting := (\<lambda>_. [])(0 := [5])\<rparr>,
                rn_backing = (newTestBacking [])\<lparr>watchc := Some 0\<rparr>, rn_err = None, rn_dead = False,
                rn_results = []\<rparr> :: runner"
  have "\<exists>rn'. loop_finish ?rn = Some rn'"
    by (simp add: loop_finish_def Unwatch_def)
  then obtain rn' where f: "loop_finish ?rn = Some rn'" by blast
  have w: "0 < length (sm_watchers (rn_sm ?rn))" by (simp add: add_watcher_def)
  have r: "5 \<in> set (sm_waiting (rn_sm ?rn) 0)" by simp
  show ?thesis using loop_finish_answers_pending [OF f w r] f by (simp add: loop_err_msg_def ErrWatcherStopped_def)
qed

text \<open>
  C14. A backing error is terminal: when \<open>Changed\<close> fails because the backing cannot be
  read, the loop ends with that error, no request is left pending, and every later
  \<open>Next\<close> of any watcher returns the error at once.
\<close>

theorem backing_error_terminal:
  assumes "fetchErr (rn_backing rn) = Some (BackingErr e)" and "loop_change ch rn = Some rn'"
  shows "rn_dead rn' \<and> rn_err rn' = Some (BackingErr e) \<and> (\<forall>v. sm_waiting (rn_sm rn') v = [])
         \<and> (\<forall>w r. run_step (RunNext w r) rn' = Some (rn'\<lparr>rn_results := rn_results rn' @ [(r, NextError e)]\<rparr>))"
proof -
  have "Changed (rn_backing rn) (sm_all (rn_sm rn)) ch = Inl (BackingErr e)"
    using assms(1) by (simp add: Changed_def fetch_def Let_def)
  then have f: "loop_finish (rn\<lparr>rn_err := Some (BackingErr e)\<rparr>) = Some rn'"
    using assms(2) by (simp add: loop_change_def)
  then have "rn_dead rn' \<and> rn_err rn' = Some (BackingErr e) \<and> (\<forall>v. sm_waiting (rn_sm rn') v = [])"
    by (auto simp: loop_finish_def collect_def split: option.splits)
  then show ?thesis by (simp add: loop_err_msg_def)
qed

theorem backing_error_terminal_witness:
  "\<exists>rn'. loop_change \<lparr>change_C = ''machine'', change_Id = ''1'', change_Revno = 1\<rparr>
            \<lparr>rn_sm = new_manager NewStore,
             rn_backing = (newTestBacking [])\<lparr>fetchErr := Some (BackingErr ''some error''), watchc := Some 0\<rparr>,
             rn_err = None, rn_dead = False, rn_results = []\<rparr> = Some rn'
     \<and> fetchErr ((newTestBacking [])\<lparr>fetchErr := Some (BackingErr ''some error''), watchc := Some 0\<rparr>)
         = Some (BackingErr ''some error'')
     \<and> rn_dead rn' \<and> rn_err rn' = Some (BackingErr ''some error'')
     \<and> run_step (RunNext 0 3) rn' = Some (rn'\<lparr>rn_results := rn_results rn' @ [(3, NextError ''some error'')]\<rparr>)"
proof -
  let ?rn = "\<lparr>rn_sm = new_manager NewStore,
             rn_backing = (newTestBacking [])\<lparr>fetchErr := Some (BackingErr ''some error''), watchc := Some 0\<rparr>,
             rn_err = None, rn_dead = False, rn_results = []\<rparr> :: runner"
  let ?ch = "\<lparr>change_C = ''machine'', change_Id = ''1'', change_Revno = 1\<rparr>"
  have "\<exists>rn'. loop_change ?ch ?rn = Some rn'"
    by (simp add: loop_change_def Changed_def fetch_def loop_finish_def Unwatch_def Let_def)
  then obtain rn' where c: "loop_change ?ch ?rn = Some rn'" by blast
  have e: "fetchErr (rn_backing ?rn) = Some (BackingErr ''some error'')" by simp
  show ?thesis using backing_error_terminal [OF e c] c by (simp add: loop_err_msg_def)
qed

end
