(* ===== verification/LoopStream.thy ===== *)
theory LoopStream
  imports RunLoop "HOL-Library.Stream"
begin

text \<open>
  The store manager's \<open>Run\<close> loop over an unbounded input (spec 4.2: after
  \<open>GetAll\<close> and \<open>Watch\<close>, the loop "repeatedly select[s] on changes, requests, and a
  stop signal"; the loop is not among the sources and is modelled from the
  specification), driven by the test backing of \<open>src/state/open.go\<close>. The input is
  one stream of events in the order the loop sees them: a change, a request, the
  stop signal, and what the tests do around the loop: a client's new watcher, an
  edit of the backing's database (\<open>updateEntity\<close>, \<open>deleteEntity\<close>: the change it
  sends on the watched channel is received and handled before the edit returns, the
  channel being unbuffered, as in theory \<open>RunLoop\<close>) and \<open>setFetchError\<close>. The loop
  may never return, so it is a \<open>partial_function (option)\<close>: not returning is the
  value \<open>None\<close>; a panic of a step (a misused \<open>Unwatch\<close>, an out-of-range watcher, an
  underflowing \<open>decRef\<close>) ends the goroutine and is the returned value \<open>None\<close> inside
  \<open>Some\<close>.
\<close>

datatype loop_event =
    EvChange change
  | EvRequest request
  | EvEdit backing_op
  | EvSetFetchError "backing_error option"
  | EvNewWatcher
  | EvStop

text \<open>
  One turn: a stop signal shuts the loop down; a change is handed to \<open>Changed\<close> and a
  request to \<open>handle\<close>, each followed by \<open>respond\<close>; a backing error from \<open>Changed\<close>
  shuts the loop down with that error. An edit's changes are turns of the loop; a
  new watcher and \<open>setFetchError\<close> are not, so no \<open>respond\<close> follows them.
\<close>

partial_function (option) run_loop :: "loop_event stream \<Rightarrow> runner \<Rightarrow> runner option option" where
  "run_loop evs rn =
     (case shd evs of
        EvStop \<Rightarrow> Some (loop_finish rn)
      | EvChange ch \<Rightarrow>
          (case loop_change ch rn of
             None \<Rightarrow> Some None
           | Some rn' \<Rightarrow> if rn_dead rn' then Some (Some rn') else run_loop (stl evs) rn')
      | EvRequest req \<Rightarrow>
          (case loop_request req rn of
             None \<Rightarrow> Some None
           | Some rn' \<Rightarrow> run_loop (stl evs) rn')
      | EvEdit op \<Rightarrow>
          (case backing_step op (rn_backing rn) of (b', chs) \<Rightarrow>
             (case loop_changes chs (rn\<lparr>rn_backing := b'\<rparr>) of
                None \<Rightarrow> Some None
              | Some rn' \<Rightarrow> if rn_dead rn' then Some (Some rn') else run_loop (stl evs) rn'))
      | EvSetFetchError e \<Rightarrow> run_loop (stl evs) (rn\<lparr>rn_backing := setFetchError e (rn_backing rn)\<rparr>)
      | EvNewWatcher \<Rightarrow> run_loop (stl evs) (rn\<lparr>rn_sm := add_watcher (rn_sm rn)\<rparr>))"

text \<open>\<open>Run()\<close>: seed and watch (\<open>NewStoreManager\<close>); a \<open>GetAll\<close> error ends it at once.\<close>

definition Run :: "storeManagerTestBacking \<Rightarrow> loop_event stream \<Rightarrow> runner option option" where
  "Run b evs =
     (case NewStoreManager b of
        None \<Rightarrow> Some None
      | Some rn \<Rightarrow> if rn_dead rn then Some (Some rn) else run_loop evs rn)"

text \<open>The same turns over a finite input, taken until the loop is dead.\<close>

fun loop_events :: "loop_event list \<Rightarrow> runner \<Rightarrow> runner option" where
  "loop_events [] rn = Some rn"
| "loop_events (ev # evs) rn =
     (if rn_dead rn then Some rn
      else case ev of
        EvStop \<Rightarrow> loop_finish rn
      | EvChange ch \<Rightarrow> (case loop_change ch rn of None \<Rightarrow> None | Some rn' \<Rightarrow> loop_events evs rn')
      | EvRequest req \<Rightarrow> (case loop_request req rn of None \<Rightarrow> None | Some rn' \<Rightarrow> loop_events evs rn')
      | EvEdit op \<Rightarrow>
          (case backing_step op (rn_backing rn) of (b', chs) \<Rightarrow>
             (case loop_changes chs (rn\<lparr>rn_backing := b'\<rparr>) of None \<Rightarrow> None | Some rn' \<Rightarrow> loop_events evs rn'))
      | EvSetFetchError e \<Rightarrow> loop_events evs (rn\<lparr>rn_backing := setFetchError e (rn_backing rn)\<rparr>)
      | EvNewWatcher \<Rightarrow> loop_events evs (rn\<lparr>rn_sm := add_watcher (rn_sm rn)\<rparr>))"

text \<open>A loop that has shut down: dead, with no request left waiting.\<close>

definition finished :: "runner \<Rightarrow> bool" where
  "finished rn \<longleftrightarrow> rn_dead rn \<and> (\<forall>v. sm_waiting (rn_sm rn) v = [])"

subsection \<open>The input after the stop is never read\<close>

lemma loop_finish_finished: "loop_finish rn = Some rn' \<Longrightarrow> finished rn'"
  by (auto simp: loop_finish_def collect_def finished_def split: option.splits)

lemma run_loop_SCons:
  "run_loop (ev ## s) rn =
     (case ev of
        EvStop \<Rightarrow> Some (loop_finish rn)
      | EvChange ch \<Rightarrow>
          (case loop_change ch rn of None \<Rightarrow> Some None
           | Some rn' \<Rightarrow> if rn_dead rn' then Some (Some rn') else run_loop s rn')
      | EvRequest req \<Rightarrow> (case loop_request req rn of None \<Rightarrow> Some None | Some rn' \<Rightarrow> run_loop s rn')
      | EvEdit op \<Rightarrow>
          (case backing_step op (rn_backing rn) of (b', chs) \<Rightarrow>
             (case loop_changes chs (rn\<lparr>rn_backing := b'\<rparr>) of
                None \<Rightarrow> Some None
              | Some rn' \<Rightarrow> if rn_dead rn' then Some (Some rn') else run_loop s rn'))
      | EvSetFetchError e \<Rightarrow> run_loop s (rn\<lparr>rn_backing := setFetchError e (rn_backing rn)\<rparr>)
      | EvNewWatcher \<Rightarrow> run_loop s (rn\<lparr>rn_sm := add_watcher (rn_sm rn)\<rparr>))"
  by (subst run_loop.simps) (simp only: stream.sel)

lemma loop_events_dead: "rn_dead rn \<Longrightarrow> loop_events xs rn = Some rn"
  by (cases xs) simp_all

lemma loop_respond_dead: "loop_respond rn sm = Some rn' \<Longrightarrow> rn_dead rn' = rn_dead rn"
  by (auto simp: loop_respond_def collect_def)

lemma loop_request_dead: "loop_request req rn = Some rn' \<Longrightarrow> rn_dead rn' = rn_dead rn"
  by (auto simp: loop_request_def dest: loop_respond_dead split: if_splits option.splits)

text \<open>
  On an input whose first stop signal follows the finite prefix \<open>xs\<close>, the unbounded
  loop computes the finite run of \<open>xs\<close>'s turns followed by the shutdown, unless a
  backing error ended it first.
\<close>

lemma run_loop_shift_stop:
  assumes "EvStop \<notin> set xs" and "\<not> rn_dead rn"
  shows "run_loop (shift xs (EvStop ## s)) rn =
           Some (case loop_events xs rn of None \<Rightarrow> None
                 | Some rn' \<Rightarrow> if rn_dead rn' then Some rn' else loop_finish rn')"
  using assms
proof (induction xs arbitrary: rn)
  case Nil
  then show ?case by (simp add: run_loop_SCons)
next
  case (Cons ev xs)
  show ?case
  proof (cases ev)
    case (EvChange ch)
    show ?thesis
    proof (cases "loop_change ch rn")
      case (Some rn')
      show ?thesis
        using Cons.IH [of rn'] Cons.prems Some EvChange
        by (cases "rn_dead rn'") (simp_all add: run_loop_SCons loop_events_dead)
    qed (use Cons.prems EvChange in \<open>simp add: run_loop_SCons\<close>)
  next
    case (EvRequest req)
    show ?thesis
    proof (cases "loop_request req rn")
      case (Some rn')
      show ?thesis
        using Cons.IH [of rn'] Cons.prems Some EvRequest loop_request_dead [OF Some]
        by (simp add: run_loop_SCons)
    qed (use Cons.prems EvRequest in \<open>simp add: run_loop_SCons\<close>)
  next
    case (EvEdit op)
    obtain b' chs where bs: "backing_step op (rn_backing rn) = (b', chs)" by fastforce
    show ?thesis
    proof (cases "loop_changes chs (rn\<lparr>rn_backing := b'\<rparr>)")
      case (Some rn')
      show ?thesis
        using Cons.IH [of rn'] Cons.prems Some EvEdit bs
        by (cases "rn_dead rn'") (simp_all add: run_loop_SCons loop_events_dead)
    qed (use Cons.prems EvEdit bs in \<open>simp add: run_loop_SCons\<close>)
  next
    case (EvSetFetchError e)
    then show ?thesis
      using Cons.IH [of "rn\<lparr>rn_backing := setFetchError e (rn_backing rn)\<rparr>"] Cons.prems
      by (simp add: run_loop_SCons)
  next
    case EvNewWatcher
    then show ?thesis using Cons.IH [of "rn\<lparr>rn_sm := add_watcher (rn_sm rn)\<rparr>"] Cons.prems
      by (simp add: run_loop_SCons)
  qed (use Cons.prems in simp)
qed

lemma Run_shift_stop:
  assumes "EvStop \<notin> set xs"
  shows "Run b (shift xs (EvStop ## s)) =
           (case NewStoreManager b of
              None \<Rightarrow> Some None
            | Some rn \<Rightarrow> Some (if rn_dead rn then Some rn
                              else case loop_events xs rn of None \<Rightarrow> None
                                   | Some rn' \<Rightarrow> if rn_dead rn' then Some rn' else loop_finish rn'))"
  using run_loop_shift_stop [OF assms] by (simp add: Run_def split: option.split)

text \<open>
  The loop run as the store manager's tests drive it: a watcher's \<open>Next\<close>, an entity
  added to the database and seen by the watcher, a second \<open>Next\<close> left pending, then
  the stop, which answers it \<open>false\<close> with \<open>state watcher was stopped\<close>.
\<close>

lemma run_loop_example:
  "map_option (map_option rn_results)
     (run_loop (shift [EvNewWatcher, EvRequest (NextReq 0 0), EvEdit (UpdateEntity (MachineInfo ''0'' '''')),
                       EvRequest (NextReq 0 1)] (EvStop ## sconst EvStop))
        \<lparr>rn_sm = new_manager NewStore, rn_backing = (newTestBacking [])\<lparr>watchc := Some 0\<rparr>,
         rn_err = None, rn_dead = False, rn_results = []\<rparr>)
   = Some (Some [(0, NextDeltas [\<lparr>delta_removed = False, delta_entity = MachineInfo ''0'' ''''\<rparr>]),
                 (1, NextError ''state watcher was stopped'')])"
proof -
  have h: "EvStop \<notin> set [EvNewWatcher, EvRequest (NextReq 0 0), EvEdit (UpdateEntity (MachineInfo ''0'' '''')),
                           EvRequest (NextReq 0 1)]"
    "\<not> rn_dead \<lparr>rn_sm = new_manager NewStore, rn_backing = (newTestBacking [])\<lparr>watchc := Some 0\<rparr>,
                rn_err = None, rn_dead = False, rn_results = []\<rparr>"
    by simp_all
  show ?thesis unfolding run_loop_shift_stop [OF h] by code_simp
qed

end
