(* ===== verification/Revival.thy ===== *)
theory Revival
  imports Manager
begin

text \<open>
  The manager when a change brings an entity back while its tombstone is pending
  (\<open>Update\<close> with info on a removed entry, which the specification leaves open and the
  test backing can cause by deleting and re-adding an entity). The entry stays
  removed with a new revision, so watchers already told of the removal count it
  again, and the exact reference counts of \<open>mgr_inv\<close> no longer hold for it. What
  still holds is \<open>live_inv\<close>: the store is well formed (a removed entry keeps a
  positive count), and every entry that is not removed has the exact count. That is
  enough for no \<open>decRef\<close> to underflow: \<open>seen\<close> decrements only removed entries, and
  \<open>leave\<close> decrements a live entry only for a watcher that counts it.
\<close>

definition live_inv :: "('k, 'info) manager \<Rightarrow> bool" where
  "live_inv sm \<longleftrightarrow> store_inv (sm_all sm)
     \<and> (\<forall>w \<in> set (sm_watchers sm). 0 \<le> w_revno w \<and> w_revno w \<le> latestRevno (sm_all sm))
     \<and> (\<forall>x \<in> set (entries (sm_all sm)). \<not> removed (snd x) \<longrightarrow> refCount (snd x) = holders (sm_watchers sm) (snd x))
     \<and> (\<forall>w. sm_waiting sm w \<noteq> [] \<longrightarrow> w < length (sm_watchers sm) \<and> \<not> w_stopped (sm_watchers sm ! w))"

lemma mgr_inv_live_inv: "mgr_inv sm \<Longrightarrow> live_inv sm"
  by (simp add: mgr_inv_def live_inv_def)

lemma res_removed:
  "seen_res r e = Some e' \<Longrightarrow> removed e' = removed e"
  "leave_res r e = Some e' \<Longrightarrow> removed e' = removed e"
  by (auto simp: seen_res_def leave_res_def dec_res_def Let_def split: if_splits)

subsection \<open>Every change keeps it\<close>

lemma live_inv_Update:
  assumes inv: "live_inv sm"
  shows "live_inv (sm\<lparr>sm_all := Update k v (sm_all sm)\<rparr>)"
proof -
  let ?st = "sm_all sm" and ?ws = "sm_watchers sm"
  let ?st' = "Update k v ?st" and ?L = "latestRevno (sm_all sm)"
  have sinv: "store_inv ?st" using inv by (simp add: live_inv_def)
  have sinv': "store_inv ?st'" using sinv by (rule store_inv_Update)
  have rc: "\<And>x. x \<in> set (entries ?st) \<Longrightarrow> \<not> removed (snd x) \<Longrightarrow> refCount (snd x) = holders ?ws (snd x)"
    using inv by (simp add: live_inv_def)
  have wl: "\<And>w. w \<in> set ?ws \<Longrightarrow> w_revno w \<le> ?L" using inv by (simp add: live_inv_def)
  have up: "?L \<le> latestRevno ?st'" by (rule conjunct1 [OF Update_revision_step])
  have "refCount (snd x) = holders ?ws (snd x)" if x: "x \<in> set (entries ?st')" and lv: "\<not> removed (snd x)" for x
  proof -
    have at': "entities ?st' (fst x) = Some (snd x)" using x store_inv_entries_iff [OF sinv'] by blast
    show ?thesis
    proof (cases "fst x = k")
      case False
      then have "x \<in> set (entries ?st)"
        using at' entities_Update_other store_inv_entries_iff [OF sinv] by metis
      then show ?thesis using rc lv by blast
    next
      case True
      with at' have "entities ?st' k = Some (snd x)" by simp
      from Update_entry_cases [OF this] show ?thesis
      proof (elim disjE exE conjE)
        assume eqx: "snd x = \<lparr>creationRevno = ?L + 1, revno = ?L + 1,
                  refCount = 0, removed = False, info = info (snd x)\<rparr>"
        have cr: "creationRevno (snd x) = ?L + 1" and rz: "refCount (snd x) = 0"
          using arg_cong [OF eqx, of creationRevno] arg_cong [OF eqx, of refCount] by simp_all
        have "\<forall>w \<in> set ?ws. \<not> counts w (snd x)" using wl cr by (fastforce simp: counts_def)
        then show ?thesis using rz by (simp add: holders_def filter_empty_conv)
      next
        fix e assume "entities ?st k = Some e" "removed e" "v = None" "snd x = e"
        then show ?thesis using lv by simp
      next
        fix e assume "entities ?st k = Some e" "\<not> removed e" "v = None" "refCount e \<noteq> 0"
          "snd x = e\<lparr>revno := ?L + 1, removed := True\<rparr>"
        then show ?thesis using lv by simp
      next
        fix e i assume e: "entities ?st k = Some e" and sx: "snd x = e\<lparr>revno := ?L + 1, info := i\<rparr>"
        have ne: "\<not> removed e" using lv sx by simp
        have "(k, e) \<in> set (entries ?st)" using e store_inv_entries_iff [OF sinv] by simp
        then have "refCount e = holders ?ws e" using rc ne by fastforce
        moreover have "holders ?ws (snd x) = holders ?ws e"
          unfolding holders_def using sx ne by (simp add: counts_def)
        ultimately show ?thesis using sx by simp
      qed
    qed
  qed
  then show ?thesis
    using inv sinv' up by (fastforce simp: live_inv_def)
qed

lemma live_inv_add_watcher:
  assumes inv: "live_inv sm"
  shows "live_inv (add_watcher sm)"
proof -
  have sinv: "store_inv (sm_all sm)" using inv by (simp add: live_inv_def)
  have "\<not> counts new_watcher (snd x)" if "x \<in> set (entries (sm_all sm))" for x
    using sinv that by (auto simp: store_inv_def entry_ok_def counts_def new_watcher_def)
  then have "\<forall>x \<in> set (entries (sm_all sm)). holders (sm_watchers sm @ [new_watcher]) (snd x)
               = holders (sm_watchers sm) (snd x)"
    by (simp add: holders_def)
  then show ?thesis
    using inv sinv by (auto simp: live_inv_def add_watcher_def new_watcher_def store_inv_def nth_append)
qed

subsection \<open>seen and leave keep it\<close>

lemma seen_live:
  assumes inv: "live_inv sm" and w: "w < length (sm_watchers sm)"
    and live: "\<not> w_stopped (sm_watchers sm ! w)"
  defines "wt \<equiv> sm_watchers sm ! w" and "st \<equiv> sm_all sm"
  shows "\<exists>st'. seen (w_revno wt) st = Some st' \<and> store_inv st' \<and> latestRevno st' = latestRevno st
     \<and> (\<forall>x \<in> set (entries st'). \<not> removed (snd x) \<longrightarrow> refCount (snd x) =
           holders ((sm_watchers sm)[w := wt\<lparr>w_revno := latestRevno st\<rparr>]) (snd x))"
proof -
  let ?r = "w_revno wt" and ?L = "latestRevno st" and ?ws = "sm_watchers sm"
  let ?ws' = "?ws[w := wt\<lparr>w_revno := ?L\<rparr>]"
  let ?es = "takeWhile (\<lambda>x. ?r < revno (snd x)) (rev (entries st))"
  have sinv: "store_inv st" using inv by (simp add: live_inv_def st_def)
  have rc: "\<And>x. x \<in> set (entries st) \<Longrightarrow> \<not> removed (snd x) \<Longrightarrow> refCount (snd x) = holders ?ws (snd x)"
    using inv by (simp add: live_inv_def st_def)
  have ok: "\<And>x. x \<in> set (entries st) \<Longrightarrow> entry_ok ?L (snd x)"
    using sinv by (simp add: store_inv_def)
  have wt_ok: "?r \<le> ?L" using inv w by (auto simp: live_inv_def wt_def st_def)
  note es = newer_entries [OF sinv, of ?r]
  have nofail: "\<not> (\<exists>x \<in> set ?es. seen_fails ?r (snd x))"
  proof
    assume "\<exists>x \<in> set ?es. seen_fails ?r (snd x)"
    then obtain x where x: "x \<in> set (entries st)" "seen_fails ?r (snd x)"
      using es(3) by auto
    then show False using ok [OF x(1)] by (simp add: seen_fails_def entry_ok_def)
  qed
  have seen_eq: "seen ?r st = Some (put_all (\<lambda>k e. seen_res ?r e) ?es st)"
    using foreach_entry_local [OF seen_step_local es(1) es(2)] nofail by (simp add: seen_def)
  let ?st' = "put_all (\<lambda>k e. seen_res ?r e) ?es st"
  have "\<forall>x \<in> set ?es. outcome_ok (snd x) (seen_res ?r (snd x))"
  proof
    fix x assume x: "x \<in> set ?es"
    then have xe: "x \<in> set (entries st)" using es(3) by auto
    have "\<not> seen_fails ?r (snd x)" using nofail x by auto
    then show "outcome_ok (snd x) (seen_res ?r (snd x))"
      using ok [OF xe]
      by (auto simp: outcome_ok_def seen_res_def dec_res_def seen_fails_def entry_ok_def Let_def)
  qed
  then have sinv': "store_inv ?st'"
    using store_inv_put_all [OF sinv es(1) es(2), where res = "\<lambda>k. seen_res ?r"] by simp
  have ent: "\<And>k. entities ?st' k = (case map_of ?es k of None \<Rightarrow> entities st k | Some e \<Rightarrow> seen_res ?r e)"
    using entities_put_all [OF es(1)] by simp
  have "\<forall>x \<in> set (entries ?st'). \<not> removed (snd x) \<longrightarrow> refCount (snd x) = holders ?ws' (snd x)"
  proof (intro ballI impI)
    fix x assume x': "x \<in> set (entries ?st')" and lv: "\<not> removed (snd x)"
    then have at': "entities ?st' (fst x) = Some (snd x)" using store_inv_entries_iff [OF sinv'] by blast
    show "refCount (snd x) = holders ?ws' (snd x)"
    proof (cases "map_of ?es (fst x)")
      case None
      then have xe: "x \<in> set (entries st)"
        using at' ent store_inv_entries_iff [OF sinv] by simp
      then have "\<not> ?r < revno (snd x)"
        using None es(3) by (force simp: map_of_eq_None_iff)
      then have "counts (wt\<lparr>w_revno := ?L\<rparr>) (snd x) = counts wt (snd x)"
        using ok [OF xe] live wt_ok by (auto simp: counts_def entry_ok_def wt_def)
      then show ?thesis
        using rc [OF xe lv] holders_update [OF w, of "wt\<lparr>w_revno := ?L\<rparr>" "snd x"] by (simp add: wt_def)
    next
      case (Some e0)
      then have in_es: "(fst x, e0) \<in> set ?es" by (rule map_of_SomeD)
      then have e0: "(fst x, e0) \<in> set (entries st)" "?r < revno e0" using es(3) by auto
      have res: "seen_res ?r e0 = Some (snd x)"
        using at' ent Some by simp
      have lv0: "\<not> removed e0" using res_removed(1) [OF res] lv by simp
      have "snd x = e0\<lparr>refCount := refCount e0 - (if counts wt e0 then 1 else 0)
                          + (if counts (wt\<lparr>w_revno := ?L\<rparr>) e0 then 1 else 0)\<rparr>"
        using ok [OF e0(1)] e0(2) live res by (intro seen_res_counts) (auto simp: entry_ok_def wt_def)
      then show ?thesis
        using rc [of "(fst x, e0)", simplified, OF e0(1) lv0] holders_update [OF w, of "wt\<lparr>w_revno := ?L\<rparr>" e0] by (simp add: wt_def)
    qed
  qed
  then show ?thesis using seen_eq sinv' by simp
qed

lemma leave_live:
  assumes inv: "live_inv sm" and w: "w < length (sm_watchers sm)"
    and live: "\<not> w_stopped (sm_watchers sm ! w)"
  defines "wt \<equiv> sm_watchers sm ! w" and "st \<equiv> sm_all sm"
  shows "\<exists>st'. leave wt st = Some st' \<and> store_inv st' \<and> latestRevno st' = latestRevno st
     \<and> (\<forall>x \<in> set (entries st'). \<not> removed (snd x) \<longrightarrow> refCount (snd x) =
           holders ((sm_watchers sm)[w := wt\<lparr>w_stopped := True\<rparr>]) (snd x))"
proof -
  let ?r = "w_revno wt" and ?ws = "sm_watchers sm"
  let ?ws' = "?ws[w := wt\<lparr>w_stopped := True\<rparr>]"
  have sinv: "store_inv st" using inv by (simp add: live_inv_def st_def)
  have rc: "\<And>x. x \<in> set (entries st) \<Longrightarrow> \<not> removed (snd x) \<Longrightarrow> refCount (snd x) = holders ?ws (snd x)"
    using inv by (simp add: live_inv_def st_def)
  have ok: "\<And>x. x \<in> set (entries st) \<Longrightarrow> entry_ok (latestRevno st) (snd x)"
    using sinv by (simp add: store_inv_def)
  have same: "holders ?ws' e = holders ?ws e - (if counts wt e then 1 else 0)" for e
  proof -
    have "\<not> counts (wt\<lparr>w_stopped := True\<rparr>) e" by (simp add: counts_def)
    then show ?thesis using holders_update [OF w, of "wt\<lparr>w_stopped := True\<rparr>" e] by (simp add: wt_def)
  qed
  show ?thesis
  proof (cases "0 < ?r")
    case False
    have nocount: "\<not> counts wt (snd x)" if "x \<in> set (entries st)" for x
      using False ok [OF that] by (auto simp: counts_def entry_ok_def)
    have "refCount (snd x) = holders ?ws' (snd x)" if "x \<in> set (entries st)" "\<not> removed (snd x)" for x
      using rc [OF that] same [of "snd x"] nocount [OF that(1)] by simp
    then have "\<forall>x \<in> set (entries st). \<not> removed (snd x) \<longrightarrow> refCount (snd x) = holders ?ws' (snd x)" by blast
    then show ?thesis using False sinv by (simp add: leave_def)
  next
    case True
    let ?es = "rev (entries st)"
    have d: "distinct (map fst ?es)" using store_inv_distinct_keys [OF sinv] by (simp add: rev_map [symmetric])
    have at: "\<forall>x \<in> set ?es. entities st (fst x) = Some (snd x)"
      using store_inv_entries_iff [OF sinv] by simp
    have nofail: "\<not> (\<exists>x \<in> set ?es. leave_fails ?r (snd x))"
    proof
      assume "\<exists>x \<in> set ?es. leave_fails ?r (snd x)"
      then obtain x where x: "x \<in> set (entries st)" "leave_fails ?r (snd x)" by auto
      show False
      proof (cases "removed (snd x)")
        case True
        then show False using ok [OF x(1)] x(2) by (simp add: leave_fails_def entry_ok_def)
      next
        case False
        then have "counts wt (snd x)" using live x(2) by (auto simp: counts_def leave_fails_def wt_def)
        then have "1 \<le> holders ?ws (snd x)" using w holders_pos by (simp add: wt_def)
        with rc [OF x(1) False] x(2) show False by (simp add: leave_fails_def)
      qed
    qed
    have leave_eq: "leave wt st = Some (put_all (\<lambda>k. leave_res ?r) ?es st)"
      using foreach_entry_local [OF leave_step_local d at] nofail True by (simp add: leave_def)
    let ?st' = "put_all (\<lambda>k. leave_res ?r) ?es st"
    have "\<forall>x \<in> set ?es. outcome_ok (snd x) (leave_res ?r (snd x))"
    proof
      fix x assume x: "x \<in> set ?es"
      have "\<not> leave_fails ?r (snd x)" using nofail x by auto
      then show "outcome_ok (snd x) (leave_res ?r (snd x))"
        using ok x
        by (auto simp: outcome_ok_def leave_res_def dec_res_def leave_fails_def entry_ok_def Let_def)
    qed
    then have sinv': "store_inv ?st'"
      using store_inv_put_all [OF sinv d at, where res = "\<lambda>k. leave_res ?r"] by simp
    have ent: "\<And>k. entities ?st' k = (case map_of ?es k of None \<Rightarrow> entities st k | Some e \<Rightarrow> leave_res ?r e)"
      using entities_put_all [OF d] by simp
    have "\<forall>x \<in> set (entries ?st'). \<not> removed (snd x) \<longrightarrow> refCount (snd x) = holders ?ws' (snd x)"
    proof (intro ballI impI)
      fix x assume x': "x \<in> set (entries ?st')" and lv: "\<not> removed (snd x)"
      then have at': "entities ?st' (fst x) = Some (snd x)" using store_inv_entries_iff [OF sinv'] by blast
      show "refCount (snd x) = holders ?ws' (snd x)"
      proof (cases "map_of ?es (fst x)")
        case None
        then have "x \<in> set (entries st)"
          using at' ent store_inv_entries_iff [OF sinv] by simp
        with None show ?thesis by (force simp: map_of_eq_None_iff)
      next
        case (Some e0)
        then have e0: "(fst x, e0) \<in> set (entries st)" using map_of_SomeD by fastforce
        have res: "leave_res ?r e0 = Some (snd x)" using at' ent Some by simp
        have lv0: "\<not> removed e0" using res_removed(2) [OF res] lv by simp
        have sx: "snd x = e0\<lparr>refCount := refCount e0 - (if counts wt e0 then 1 else 0)
                             + (if counts (wt\<lparr>w_stopped := True\<rparr>) e0 then 1 else 0)\<rparr>"
          using live res by (intro leave_res_counts) (auto simp: wt_def)
        have "refCount (snd x) = holders ?ws e0 - (if counts wt e0 then 1 else 0)"
          using rc [of "(fst x, e0)", simplified, OF e0 lv0] sx by (simp add: counts_def)
        also have "\<dots> = holders ?ws' e0" using same [of e0] by simp
        also have "\<dots> = holders ?ws' (snd x)" using sx by simp
        finally show ?thesis .
      qed
    qed
    then show ?thesis using leave_eq sinv' by simp
  qed
qed

subsection \<open>respond and handle keep it\<close>

lemma respond_one_live:
  assumes inv: "live_inv sm"
  shows "\<exists>sm'. respond_one w sm = Some sm' \<and> live_inv sm' \<and> length (sm_watchers sm') = length (sm_watchers sm)"
proof (cases "sm_waiting sm w")
  case Nil
  with inv show ?thesis by (simp add: respond_one_def)
next
  case (Cons r rest)
  then have w: "w < length (sm_watchers sm)" and live: "\<not> w_stopped (sm_watchers sm ! w)"
    using inv by (auto simp: live_inv_def)
  let ?wt = "sm_watchers sm ! w" and ?st = "sm_all sm"
  show ?thesis
  proof (cases "w_revno ?wt < latestRevno ?st")
    case False
    with Cons inv show ?thesis by (simp add: respond_one_def Let_def)
  next
    case True
    obtain st' where seen: "seen (w_revno ?wt) ?st = Some st'" and sinv': "store_inv st'"
      and lat: "latestRevno st' = latestRevno ?st"
      and rc: "\<forall>x \<in> set (entries st'). \<not> removed (snd x) \<longrightarrow> refCount (snd x) =
                 holders ((sm_watchers sm)[w := ?wt\<lparr>w_revno := latestRevno ?st\<rparr>]) (snd x)"
      using seen_live [OF inv w live] by blast
    let ?sm' = "sm\<lparr>sm_all := st',
                   sm_watchers := (sm_watchers sm)[w := ?wt\<lparr>w_revno := latestRevno ?st\<rparr>],
                   sm_waiting := (sm_waiting sm)(w := rest),
                   sm_replies := sm_replies sm @ [(w, r, Reply True (ChangesSince (w_revno ?wt) ?st))]\<rparr>"
    have step: "respond_one w sm = Some ?sm'"
      using Cons True seen by (simp add: respond_one_def Let_def)
    have revs: "\<forall>v \<in> set (sm_watchers ?sm'). 0 \<le> w_revno v \<and> w_revno v \<le> latestRevno (sm_all ?sm')"
    proof
      fix v assume "v \<in> set (sm_watchers ?sm')"
      then have "v \<in> set (sm_watchers sm) \<or> v = ?wt\<lparr>w_revno := latestRevno ?st\<rparr>"
        using set_update_subset_insert by fastforce
      then show "0 \<le> w_revno v \<and> w_revno v \<le> latestRevno (sm_all ?sm')"
        using inv lat by (auto simp: live_inv_def store_inv_def)
    qed
    have waits: "\<forall>v. sm_waiting ?sm' v \<noteq> [] \<longrightarrow>
                   v < length (sm_watchers ?sm') \<and> \<not> w_stopped (sm_watchers ?sm' ! v)"
      using inv live w by (auto simp: live_inv_def nth_list_update)
    have "live_inv ?sm'" using sinv' rc revs waits by (simp add: live_inv_def)
    with step show ?thesis by simp
  qed
qed

lemma respond_loop_live:
  "live_inv sm \<Longrightarrow> \<exists>sm'. respond_loop ws sm = Some sm' \<and> live_inv sm'
                        \<and> length (sm_watchers sm') = length (sm_watchers sm)"
proof (induction ws arbitrary: sm)
  case (Cons w ws)
  obtain sm1 where "respond_one w sm = Some sm1" "live_inv sm1"
      "length (sm_watchers sm1) = length (sm_watchers sm)"
    using respond_one_live [OF Cons.prems] by blast
  with Cons.IH [of sm1] show ?case by auto
qed simp

lemma respond_live:
  "live_inv sm \<Longrightarrow> \<exists>sm'. respond sm = Some sm' \<and> live_inv sm' \<and> length (sm_watchers sm') = length (sm_watchers sm)"
  unfolding respond_def by (rule respond_loop_live)

lemma handle_live:
  assumes inv: "live_inv sm" and valid: "w < length (sm_watchers sm)"
    and req: "req = NextReq w r \<or> req = StopReq w"
  shows "\<exists>sm'. handle req sm = Some sm' \<and> live_inv sm' \<and> length (sm_watchers sm') = length (sm_watchers sm)"
proof (cases "w_stopped (sm_watchers sm ! w)")
  case True
  with req inv show ?thesis by (auto simp: handle_def live_inv_def)
next
  case False
  show ?thesis
  proof (cases "req = StopReq w")
    case True
    let ?wt = "sm_watchers sm ! w"
    obtain st' where lv: "leave ?wt (sm_all sm) = Some st'" and sinv': "store_inv st'"
      and lat: "latestRevno st' = latestRevno (sm_all sm)"
      and rc: "\<forall>x \<in> set (entries st'). \<not> removed (snd x) \<longrightarrow> refCount (snd x) =
                 holders ((sm_watchers sm)[w := ?wt\<lparr>w_stopped := True\<rparr>]) (snd x)"
      using leave_live [OF inv valid False] by blast
    let ?sm' = "sm\<lparr>sm_all := st',
                   sm_watchers := (sm_watchers sm)[w := ?wt\<lparr>w_stopped := True\<rparr>],
                   sm_waiting := (sm_waiting sm)(w := []),
                   sm_replies := sm_replies sm @ map (\<lambda>r. (w, r, Reply False [])) (sm_waiting sm w)\<rparr>"
    have step: "handle req sm = Some ?sm'" using True False lv by (simp add: handle_def)
    have revs: "\<forall>v \<in> set (sm_watchers ?sm'). 0 \<le> w_revno v \<and> w_revno v \<le> latestRevno (sm_all ?sm')"
    proof
      fix v assume "v \<in> set (sm_watchers ?sm')"
      then have "v \<in> set (sm_watchers sm) \<or> v = ?wt\<lparr>w_stopped := True\<rparr>"
        using set_update_subset_insert by fastforce
      then show "0 \<le> w_revno v \<and> w_revno v \<le> latestRevno (sm_all ?sm')"
        using inv lat valid by (auto simp: live_inv_def)
    qed
    have waits: "\<forall>v. sm_waiting ?sm' v \<noteq> [] \<longrightarrow>
                   v < length (sm_watchers ?sm') \<and> \<not> w_stopped (sm_watchers ?sm' ! v)"
      using inv by (auto simp: live_inv_def nth_list_update)
    have "live_inv ?sm'" using sinv' rc revs waits by (simp add: live_inv_def)
    with step show ?thesis by simp
  next
    case notstop: False
    then have "req = NextReq w r" using req by blast
    with False inv valid show ?thesis by (auto simp: handle_def live_inv_def)
  qed
qed

end
