(* ===== verification/StateTests.thy ===== *)
theory StateTests
  imports Bootstrap
begin

text \<open>
  The ZooKeeper-era state test suite (\<open>src/unnamed/part_000\<close>). Its fixture
  (\<open>SetUpTest\<close>, \<open>TearDownTest\<close>, lines 71--84) and \<open>TestInitialize\<close> (lines 86--127)
  exercise \<open>Initialize\<close> and \<open>Open\<close> of \<open>src/state/open.go\<close>, modelled in theory
  \<open>Bootstrap\<close>; the other tests exercise \<open>state.State\<close> operations that are not among
  the sources. The ZooKeeper server the suite starts answers every call; its watch on
  \<open>/initialized\<close> fires when the node is created. \<open>testing.ZkRemoveTree\<close> is a test
  library: it removes a node and everything below it.
\<close>

definition TestingZkAddr :: string where
  "TestingZkAddr = ''localhost:2181''"

definition test_info :: Info where
  "test_info = \<lparr>Addrs = [TestingZkAddr]\<rparr>"

definition test_zk :: zk_env where
  "test_zk = \<lparr>dial_ok = True, session_ok = True, create_fails = [], exists_fails = False, wait_session_ok = True\<rparr>"

definition ZkRemoveTree :: "string \<Rightarrow> zk_world \<Rightarrow> zk_world" where
  "ZkRemoveTree p w =
     w\<lparr>zk_nodes := filter (\<lambda>n. \<not> (p = ''/'' \<or> n = p \<or> take (length p + 1) n = p @ ''/'')) (zk_nodes w)\<rparr>"

text \<open>\<open>SetUpTest\<close>: \<open>state.Initialize\<close> of the test server.\<close>

definition SetUpTest :: "zk_world \<Rightarrow> (zk_error + unit) \<times> zk_world" where
  "SetUpTest w = Initialize test_zk test_info w"

definition TearDownTest :: "zk_world \<Rightarrow> zk_world" where
  "TearDownTest w = zk_Close (ZkRemoveTree ''/'' w)"

text \<open>
  \<open>TestInitialize\<close>: initializing an initialized state succeeds. After the tree is
  removed, \<open>Open\<close> runs in a goroutine: with nothing else happening it does not
  return before its timeout (the test's check that it blocks); the test's second
  \<open>Initialize\<close> then runs while \<open>Open\<close> waits, so the tree that \<open>Initialize\<close> leaves is
  what the other clients do during the wait, and \<open>Open\<close> returns without error.
\<close>

definition TestInitialize :: bool where
  "TestInitialize =
     (case SetUpTest \<lparr>zk_nodes = [], open_conns = 0\<rparr> of
        (Inl _, _) \<Rightarrow> False
      | (Inr _, w0) \<Rightarrow>
          (case Initialize test_zk test_info w0 of
             (Inl _, _) \<Rightarrow> False
           | (Inr _, w1) \<Rightarrow>
               (let w2 = ZkRemoveTree ''/'' (Close w1) in
                fst (Open test_zk (\<lambda>ns. ns) test_info w2) = Inl TimedOut
                \<and> (case Initialize test_zk test_info w2 of
                     (Inl _, _) \<Rightarrow> False
                   | (Inr _, w3) \<Rightarrow>
                       fst (Open test_zk (\<lambda>ns. zk_nodes (snd (Initialize test_zk test_info (w2\<lparr>zk_nodes := ns\<rparr>))))
                              test_info w2) = Inr ()))))"

text \<open>
  \<open>TestInitialize\<close> passes on the model: a second \<open>Initialize\<close> succeeds, an \<open>Open\<close>
  against the emptied tree blocks, and it returns without error once the concurrent
  \<open>Initialize\<close> has created \<open>/initialized\<close>.
\<close>

theorem Initialize_test_pass: "TestInitialize"
  by (simp add: TestInitialize_def SetUpTest_def test_zk_def test_info_def ZkRemoveTree_def zk_eval)

end
