(* ===== verification/RespondResults.thy ===== *)
theory RespondResults
  imports System StoreTests
begin

text \<open>
  What the clients of the engine can observe of the store does not depend on the
  watchers. The \<open>store_view\<close> of a store is its latest revision together with, for
  every live entity, its creation revision, its last revision and its info; reference
  counts and tombstones are the engine's bookkeeping for the watchers. Every step of
  the system other than a store change leaves the view alone, and a store change acts
  on it as \<open>view_Update\<close>, a function of the view alone: the view after any run is
  the view the run's changes give, whatever watchers, \<open>Next\<close>, \<open>Stop\<close> and \<open>respond\<close>
  it interleaves. The final check of \<open>TestRespondResults\<close> (\<open>src/state/open.go\<close>,
  lines 529--563 and 641--650), \<open>assertStoreContents\<close> after every watcher stopped,
  follows for every interleaving, not only the \<open>2^6 \<times> 2^6\<close> the test enumerates.
\<close>

type_synonym ('k, 'info) store_view = "revno \<times> ('k \<rightharpoonup> revno \<times> revno \<times> 'info)"

definition store_view :: "('k, 'info) store \<Rightarrow> ('k, 'info) store_view" where
  "store_view st =
     (latestRevno st,
      \<lambda>k. case entities st k of None \<Rightarrow> None
          | Some e \<Rightarrow> if removed e then None else Some (creationRevno e, revno e, info e))"

definition view_Update :: "'k \<Rightarrow> 'info option \<Rightarrow> ('k, 'info) store_view \<Rightarrow> ('k, 'info) store_view" where
  "view_Update k v sv =
     (case sv of (L, m) \<Rightarrow>
        (case v of
           None \<Rightarrow> (case m k of None \<Rightarrow> (L, m) | Some _ \<Rightarrow> (L + 1, m(k := None)))
         | Some i \<Rightarrow> (L + 1, m(k \<mapsto> (case m k of None \<Rightarrow> (L + 1, L + 1, i)
                                           | Some (c, r, _) \<Rightarrow> (c, L + 1, i))))))"

lemma store_view_Update:
  assumes "\<not> revives st k v"
  shows "store_view (Update k v st) = view_Update k v (store_view st)"
  using assms
  by (auto simp: store_view_def view_Update_def revives_def tombstone_def Update_def store_defs Let_def
      fun_eq_iff split: option.splits if_splits)


lemma store_view_res:
  assumes st': "\<And>k. entities st' k = (case entities st k of None \<Rightarrow> None | Some e \<Rightarrow> res e)"
    and some: "\<And>e e'. res e = Some e' \<Longrightarrow> e' = e\<lparr>refCount := refCount e'\<rparr>"
    and none: "\<And>e. res e = None \<Longrightarrow> removed e"
    and lat: "latestRevno st' = latestRevno st"
  shows "store_view st' = store_view st"
proof -
  have "(case entities st' k of None \<Rightarrow> None
          | Some e \<Rightarrow> if removed e then None else Some (creationRevno e, revno e, info e))
      = (case entities st k of None \<Rightarrow> None
          | Some e \<Rightarrow> if removed e then None else Some (creationRevno e, revno e, info e))" for k
  proof (cases "entities st k")
    case (Some e)
    show ?thesis
    proof (cases "res e")
      case None
      then show ?thesis using st' [of k] Some none [OF None] by simp
    next
      case (Some e')
      have "removed e' = removed e" "creationRevno e' = creationRevno e" "revno e' = revno e" "info e' = info e"
        by (subst some [OF Some], simp)+
      then show ?thesis using st' [of k] \<open>entities st k = Some e\<close> Some by simp
    qed
  qed (simp add: st')
  then show ?thesis using lat by (simp add: store_view_def fun_eq_iff)
qed

lemma store_view_seen:
  assumes "store_inv st" and "seen r st = Some st'"
  shows "store_view st' = store_view st"
  by (rule store_view_res [where res = "\<lambda>e. if r < revno e then seen_res r e else Some e"])
     (use seen_entities [OF assms] seen_res_shape(1) seen_latestRevno [OF assms(2)] in \<open>auto split: if_splits dest: seen_res_shape(2)\<close>)

lemma leave_latestRevno: "leave w st = Some st' \<Longrightarrow> latestRevno st' = latestRevno st"
  unfolding leave_def
  by (auto split: if_splits elim!: foreach_entry_latestRevno [rotated])
     (auto simp: leave_step_def decRef_def store_defs Let_def split: if_splits)

lemma store_view_leave:
  assumes "store_inv st" and "leave w st = Some st'"
  shows "store_view st' = store_view st"
  by (rule store_view_res [where res = "\<lambda>e. if 0 < w_revno w then leave_res (w_revno w) e else Some e"])
     (use leave_entities [OF assms] leave_res_shape(1) leave_latestRevno [OF assms(2)] in \<open>auto split: if_splits dest: leave_res_shape(2)\<close>)


lemma store_view_respond_one:
  assumes "store_inv (sm_all sm)" and "respond_one w sm = Some sm'"
  shows "store_view (sm_all sm') = store_view (sm_all sm)"
  using assms store_view_seen
  by (auto simp: respond_one_def Let_def split: list.splits if_splits option.splits)

lemma store_view_respond_loop:
  "mgr_inv sm \<Longrightarrow> respond_loop js sm = Some sm' \<Longrightarrow> store_view (sm_all sm') = store_view (sm_all sm)"
proof (induction js arbitrary: sm)
  case Nil
  then show ?case by simp
next
  case (Cons j js)
  obtain sm1 where r1: "respond_one j sm = Some sm1" and inv1: "mgr_inv sm1"
    using respond_one_inv [OF Cons.prems(1), of j] by blast
  then have "respond_loop js sm1 = Some sm'" using Cons.prems(2) by simp
  then show ?case
    using Cons.IH [OF inv1] store_view_respond_one [OF _ r1] Cons.prems(1) by (simp add: mgr_inv_def)
qed

lemma store_view_handle:
  assumes "store_inv (sm_all sm)" and "handle req sm = Some sm'"
  shows "store_view (sm_all sm') = store_view (sm_all sm)"
  using assms store_view_leave
  by (auto simp: handle_def split: request.splits if_splits option.splits)

definition sys_changes :: "('k, 'info) sys_op list \<Rightarrow> ('k \<times> 'info option) list" where
  "sys_changes ops = concat (map (\<lambda>op. case op of SysChange k v \<Rightarrow> [(k, v)] | _ \<Rightarrow> []) ops)"

lemma store_view_sys_step:
  assumes si: "sys_inv idf s" and ok: "op_ok idf op s" and st: "sys_step idf op s = Some s'"
  shows "store_view (sm_all (sys_sm s')) = fold (\<lambda>(k, v). view_Update k v) (sys_changes [op]) (store_view (sm_all (sys_sm s)))"
proof -
  have inv: "mgr_inv (sys_sm s)" using si by (simp add: sys_inv_def)
  then have sinv: "store_inv (sm_all (sys_sm s))" by (simp add: mgr_inv_def)
  show ?thesis
  proof (cases op)
    case (SysChange k v)
    then have "\<not> revives (sm_all (sys_sm s)) k v"
      using ok by (auto simp: revives_def change_ok_def split: option.splits)
    then show ?thesis using st SysChange by (auto simp: sys_changes_def store_view_Update)
  next
    case SysRespond
    then have "respond_loop [0..<length (sm_watchers (sys_sm s))] (sys_sm s) = Some (sys_sm s')"
      using st by (simp add: respond_clients_manager)
    then show ?thesis using store_view_respond_loop [OF inv] SysRespond by (simp add: sys_changes_def)
  qed (use st store_view_handle [OF sinv] in \<open>auto simp: sys_changes_def add_watcher_def split: if_splits\<close>)
qed

lemma sys_changes_Cons: "sys_changes (op # ops) = sys_changes [op] @ sys_changes ops"
  by (simp add: sys_changes_def)

lemma store_view_run_ops:
  "s \<in> reachable idf \<Longrightarrow> run_ops idf ops s = Some s' \<Longrightarrow>
     store_view (sm_all (sys_sm s')) = fold (\<lambda>(k, v). view_Update k v) (sys_changes ops) (store_view (sm_all (sys_sm s)))"
proof (induction ops arbitrary: s)
  case Nil
  then show ?case by (simp add: sys_changes_def)
next
  case (Cons op ops)
  obtain s1 where ok: "op_ok idf op s" and st: "sys_step idf op s = Some s1"
    and rest: "run_ops idf ops s1 = Some s'"
    using Cons.prems(2) by (auto split: if_splits option.splits)
  have r1: "s1 \<in> reachable idf" by (rule reachable.step [OF Cons.prems(1) ok st])
  show ?case
    using Cons.IH [OF r1 rest] store_view_sys_step [OF reachable_sys_inv [OF Cons.prems(1)] ok st]
    by (simp add: sys_changes_Cons [of op ops])
qed


lemma store_view_init: "store_view (sm_all (sys_sm sys_init)) = (0, Map.empty)"
  by (simp add: store_view_def sys_init_def new_manager_def NewStore_def fun_eq_iff)

subsection \<open>The changes of \<open>TestRespondResults\<close>\<close>

text \<open>
  \<open>respondTestChanges\<close>: three machines added (\<open>storeAdd\<close> of fresh identifiers, which
  is \<open>Update\<close> of an absent entity: lemma \<open>store_add_Update\<close>), machine 0 removed,
  machine 1 updated, machine 1 removed.
\<close>

definition respondTestChanges :: "(testInfoId \<times> testInfo option) list" where
  "respondTestChanges = [
     (idForInfo (MachineInfo ''0'' ''''), Some (MachineInfo ''0'' '''')),
     (idForInfo (MachineInfo ''1'' ''''), Some (MachineInfo ''1'' '''')),
     (idForInfo (MachineInfo ''2'' ''''), Some (MachineInfo ''2'' '''')),
     (\<lparr>kind = ''machine'', ident = ''0''\<rparr>, None),
     (\<lparr>kind = ''machine'', ident = ''1''\<rparr>, Some (MachineInfo ''1'' ''i-1'')),
     (\<lparr>kind = ''machine'', ident = ''1''\<rparr>, None)]"

definition respondTestFinalState :: "testInfo entity_entry list" where
  "respondTestFinalState = [\<lparr>creationRevno = 3, revno = 3, refCount = 0, removed = False,
                              info = MachineInfo ''2'' ''''\<rparr>]"

definition respondTestFinalRevno :: int where
  "respondTestFinalRevno = int (length respondTestChanges)"

lemma store_add_Update: "entities st k = None \<Longrightarrow> store_add k i st = Update k (Some i) st"
  by (simp add: Update_def)

lemma respondTestChanges_view:
  "fold (\<lambda>(k, v). view_Update k v) respondTestChanges (0, Map.empty)
     = (6, [\<lparr>kind = ''machine'', ident = ''2''\<rparr> \<mapsto> (3, 3, MachineInfo ''2'' '''')])"
  by (simp add: respondTestChanges_def view_Update_def idForInfo_def fun_eq_iff)

lemma distinct_set_singleton: "distinct xs \<Longrightarrow> set xs = {a} \<Longrightarrow> xs = [a]"
  by (cases xs) (auto simp: subset_singleton_iff)

lemma clean_store_entities:
  assumes "store_view st = (L, m)"
    and clean: "\<And>k e. entities st k = Some e \<Longrightarrow> \<not> removed e \<and> refCount e = 0"
  shows "entities st k = map_option (\<lambda>(c, r, i). \<lparr>creationRevno = c, revno = r, refCount = 0, removed = False,
                                                info = i\<rparr>) (m k)"
proof -
  have "m = snd (store_view st)" using assms(1) by simp
  then have mk: "m k = (case entities st k of None \<Rightarrow> None
      | Some e \<Rightarrow> if removed e then None else Some (creationRevno e, revno e, info e))"
    by (simp add: store_view_def)
  show ?thesis using clean [of k] by (cases "entities st k") (simp_all add: mk)
qed

text \<open>
  C9. The live view of the store (its latest revision, and the creation revision, the
  last revision and the info of every live entity) after any run of the system is
  the view its store changes give by \<open>view_Update\<close>: watchers, \<open>Next\<close>, \<open>Stop\<close> and
  \<open>respond\<close> never change what the store says about the entities, only the
  bookkeeping of references and tombstones.
\<close>

theorem store_view_refinement:
  assumes "run_ops idf ops sys_init = Some s"
  shows "store_view (sm_all (sys_sm s)) = fold (\<lambda>(k, v). view_Update k v) (sys_changes ops) (0, Map.empty)"
  using store_view_run_ops [OF reachable.init assms] unfolding store_view_init .

theorem store_view_refinement_witness:
  "\<exists>s. run_ops (\<lambda>x::nat. x) demo_run sys_init = Some s
     \<and> store_view (sm_all (sys_sm s)) = fold (\<lambda>(k, v). view_Update k v) (sys_changes demo_run) (0, Map.empty)
     \<and> fold (\<lambda>(k, v). view_Update k v) (sys_changes demo_run) (0, Map.empty) = (1, [1 \<mapsto> (1, 1, 1)])"
proof -
  have "\<exists>s. run_ops (\<lambda>x::nat. x) demo_run sys_init = Some s" by (simp add: demo_run_def sys_eval)
  then obtain s where run: "run_ops (\<lambda>x::nat. x) demo_run sys_init = Some s" by blast
  have "fold (\<lambda>(k, v). view_Update k v) (sys_changes demo_run) (0, Map.empty) = (1, [1 \<mapsto> (1, 1, 1)])"
    by (simp add: demo_run_def sys_changes_def view_Update_def)
  then show ?thesis using store_view_refinement [OF run] run by blast
qed

lemma stopped_final_contents:
  assumes r: "s \<in> reachable idForInfo"
    and sv: "store_view (sm_all (sys_sm s)) = (6, [\<lparr>kind = ''machine'', ident = ''2''\<rparr> \<mapsto> (3, 3, MachineInfo ''2'' '''')])"
    and stopped: "\<forall>w \<in> set (sm_watchers (sys_sm s)). w_stopped w"
  shows "assertStoreContents (sm_all (sys_sm s)) respondTestFinalRevno respondTestFinalState"
proof -
  let ?st = "sm_all (sys_sm s)" and ?m2 = "\<lparr>kind = ''machine'', ident = ''2''\<rparr>"
  let ?e2 = "\<lparr>creationRevno = 3, revno = 3, refCount = 0, removed = False, info = MachineInfo ''2'' ''''\<rparr>"
  have sinv: "store_inv ?st" by (rule reachable_store_inv [OF r])
  have clean: "\<not> removed e \<and> refCount e = 0" if "entities ?st k = Some e" for k e
    using all_stopped_clean [OF r stopped, of "(k, e)"] store_inv_entries_iff [OF sinv, of "(k, e)"] that by simp
  have ent: "entities ?st = [?m2 \<mapsto> ?e2]"
    using clean_store_entities [OF sv clean] by (auto simp: fun_eq_iff)
  have "set (store_list ?st) = dom (entities ?st)" "distinct (store_list ?st)"
    using sinv by (simp_all add: store_inv_def)
  then have sl: "store_list ?st = [?m2]"
    using ent by (simp add: distinct_set_singleton)
  have lat: "latestRevno ?st = 6" using sv by (simp add: store_view_def)
  show ?thesis
    using ent sl lat by (simp add: assertStoreContents_def respondTestFinalRevno_def respondTestFinalState_def
                          respondTestChanges_def idForInfo_def)
qed

text \<open>
  The final check of \<open>TestRespondResults\<close> holds for every interleaving: after any
  run whose store changes are \<open>respondTestChanges\<close> and at whose end every watcher has
  stopped, the store holds exactly \<open>respondTestFinalState\<close> at revision
  \<open>respondTestFinalRevno\<close>, whatever \<open>Next\<close> requests and \<open>respond\<close> calls came between
  the changes.
\<close>

theorem TestRespondResults_final:
  assumes run: "run_ops idForInfo ops sys_init = Some s"
    and chs: "sys_changes ops = respondTestChanges"
    and stopped: "\<forall>w \<in> set (sm_watchers (sys_sm s)). w_stopped w"
  shows "assertStoreContents (sm_all (sys_sm s)) respondTestFinalRevno respondTestFinalState"
proof -
  have r: "s \<in> reachable idForInfo" by (rule run_ops_reachable [OF reachable.init run])
  have "store_view (sm_all (sys_sm s)) = (6, [\<lparr>kind = ''machine'', ident = ''2''\<rparr> \<mapsto> (3, 3, MachineInfo ''2'' '''')])"
    using store_view_run_ops [OF reachable.init run] chs respondTestChanges_view unfolding store_view_init by simp
  then show ?thesis by (rule stopped_final_contents [OF r _ stopped])
qed

text \<open>
  A schedule of \<open>TestRespondResults\<close>'s kind: two watchers, the six changes each
  followed by \<open>respond\<close> and a new \<open>Next\<close> of one of the watchers, then both stopped.
\<close>

definition respondTestRun :: "(testInfoId, testInfo) sys_op list" where
  "respondTestRun =
     [SysWatch, SysWatch, SysNext 0 0]
     @ concat (map (\<lambda>(k, v). [SysChange k v, SysRespond, SysNext 0 0]) (take 3 respondTestChanges))
     @ [SysNext 1 0, SysRespond]
     @ concat (map (\<lambda>(k, v). [SysChange k v, SysRespond, SysNext 1 0]) (drop 3 respondTestChanges))
     @ [SysStop 0, SysStop 1]"

lemma respondTestRun_runs:
  "case run_ops idForInfo respondTestRun sys_init of None \<Rightarrow> False
     | Some s \<Rightarrow> (\<forall>w \<in> set (sm_watchers (sys_sm s)). w_stopped w)"
  by code_simp

lemma respondTestRun_changes: "sys_changes respondTestRun = respondTestChanges"
  by (simp add: respondTestRun_def respondTestChanges_def sys_changes_def)

theorem TestRespondResults_final_witness:
  "\<exists>s. run_ops idForInfo respondTestRun sys_init = Some s
     \<and> sys_changes respondTestRun = respondTestChanges
     \<and> (\<forall>w \<in> set (sm_watchers (sys_sm s)). w_stopped w)
     \<and> assertStoreContents (sm_all (sys_sm s)) respondTestFinalRevno respondTestFinalState"
proof -
  obtain s where run: "run_ops idForInfo respondTestRun sys_init = Some s"
    and stopped: "\<forall>w \<in> set (sm_watchers (sys_sm s)). w_stopped w"
    using respondTestRun_runs by (auto split: option.splits)
  show ?thesis
    using TestRespondResults_final [OF run respondTestRun_changes stopped] run stopped respondTestRun_changes
    by blast
qed

end
