(* ===== verification/RespondTest.thy ===== *)
theory RespondTest
  imports RespondResults ManagerTests
begin

text \<open>
  \<open>TestRespondResults\<close> (\<open>src/state/open.go\<close>, lines 563--651) as it is written: for
  each pair of bit patterns \<open>ns\<close>, a fresh manager and one watcher and client view per
  pattern; after change \<open>i\<close> of \<open>respondTestChanges\<close> every watcher whose pattern has
  bit \<open>i\<close> set makes a \<open>Next\<close> request unless one is outstanding; if any bit was set,
  the pending requests are checked, \<open>respond\<close> runs, and each watcher with a request
  reads its reply if there is one (it must be \<open>true\<close> with changes) and checks its view
  against the store; at the end every watcher is stopped, its outstanding request
  answered \<open>false\<close>, and the store's contents checked. A failing assertion or a panic
  is \<open>None\<close>. Request objects are numbered in the order the test allocates them, and
  the clients apply their replies as part of the system's \<open>respond\<close> step.
\<close>

unbundle bit_operations_syntax

record rtest =
  rt_sys :: "(testInfoId, testInfo) sys"
  rt_reqs :: "nat option list"
  rt_next :: nat

text \<open>The watchers and views of the test, with \<open>reqs[i] = nil\<close>.\<close>

fun rt_watchers :: "nat \<Rightarrow> rtest \<Rightarrow> rtest option" where
  "rt_watchers 0 t = Some t"
| "rt_watchers (Suc n) t =
     (case sys_step idForInfo SysWatch (rt_sys t) of
        None \<Rightarrow> None
      | Some s \<Rightarrow> rt_watchers n (t\<lparr>rt_sys := s, rt_reqs := rt_reqs t @ [None]\<rparr>))"

definition rt_init :: "nat \<Rightarrow> rtest option" where
  "rt_init wcount = rt_watchers wcount \<lparr>rt_sys = sys_init, rt_reqs = [], rt_next = 0\<rparr>"

text \<open>The requests after change \<open>i\<close>: \<open>n&(1<<uint(i)) != 0\<close> and \<open>reqs[wi] == nil\<close>.\<close>

fun rt_requests :: "nat \<Rightarrow> (nat \<times> nat) list \<Rightarrow> rtest \<Rightarrow> rtest option" where
  "rt_requests i [] t = Some t"
| "rt_requests i ((wi, n) # ns) t =
     (if n AND push_bit i 1 \<noteq> 0 \<and> rt_reqs t ! wi = None then
        (case sys_step idForInfo (SysNext wi (rt_next t)) (rt_sys t) of
           None \<Rightarrow> None
         | Some s \<Rightarrow> rt_requests i ns (t\<lparr>rt_sys := s, rt_reqs := (rt_reqs t)[wi := Some (rt_next t)],
                                         rt_next := Suc (rt_next t)\<rparr>))
      else rt_requests i ns t)"

definition rt_expectWaiting :: "rtest \<Rightarrow> nat list list" where
  "rt_expectWaiting t = map (\<lambda>r. case r of None \<Rightarrow> [] | Some r \<Rightarrow> [r]) (rt_reqs t)"

text \<open>After \<open>respond\<close>: each watcher with a request reads its reply, if any, then checks its view.\<close>

fun rt_checks :: "nat list \<Rightarrow> rtest \<Rightarrow> rtest option" where
  "rt_checks [] t = Some t"
| "rt_checks (wi # wis) t =
     (case rt_reqs t ! wi of
        None \<Rightarrow> rt_checks wis t
      | Some r \<Rightarrow>
          (let t' = (case replies_to (sys_sm (rt_sys t)) wi r of
                       [] \<Rightarrow> Some t
                     | [Reply ok ch] \<Rightarrow>
                         (if ok \<and> 0 < length ch then Some (t\<lparr>rt_reqs := (rt_reqs t)[wi := None]\<rparr>) else None)
                     | _ \<Rightarrow> None)
           in case t' of
                None \<Rightarrow> None
              | Some t' \<Rightarrow>
                  (if watcherState_check (sys_views (rt_sys t') ! wi) (sm_all (sys_sm (rt_sys t')))
                   then rt_checks wis t' else None)))"

definition rt_change :: "nat \<Rightarrow> nat list \<Rightarrow> testInfoId \<times> testInfo option \<Rightarrow> rtest \<Rightarrow> rtest option" where
  "rt_change i ns c t =
     (case sys_step idForInfo (SysChange (fst c) (snd c)) (rt_sys t) of
        None \<Rightarrow> None
      | Some s \<Rightarrow>
          (case rt_requests i (enumerate 0 ns) (t\<lparr>rt_sys := s\<rparr>) of
             None \<Rightarrow> None
           | Some t1 \<Rightarrow>
               (if \<not> list_ex (\<lambda>n. n AND push_bit i 1 \<noteq> 0) ns then Some t1
                else if \<not> assertWaitingRequests (rt_expectWaiting t1) (sys_sm (rt_sys t1)) then None
                else (case sys_step idForInfo SysRespond (rt_sys t1) of
                        None \<Rightarrow> None
                      | Some s2 \<Rightarrow> rt_checks [0..<length ns] (t1\<lparr>rt_sys := s2\<rparr>)))))"

fun rt_changes :: "nat \<Rightarrow> nat list \<Rightarrow> (testInfoId \<times> testInfo option) list \<Rightarrow> rtest \<Rightarrow> rtest option" where
  "rt_changes i ns [] t = Some t"
| "rt_changes i ns (c # cs) t =
     (case rt_change i ns c t of None \<Rightarrow> None | Some t' \<Rightarrow> rt_changes (Suc i) ns cs t')"

text \<open>Stopping: \<open>sm.handle(&request{w: w})\<close>, then \<open>assertReplied(c, false, reqs[wi])\<close>.\<close>

fun rt_stop :: "nat list \<Rightarrow> rtest \<Rightarrow> rtest option" where
  "rt_stop [] t = Some t"
| "rt_stop (wi # wis) t =
     (case sys_step idForInfo (SysStop wi) (rt_sys t) of
        None \<Rightarrow> None
      | Some s \<Rightarrow>
          (case rt_reqs t ! wi of
             None \<Rightarrow> rt_stop wis (t\<lparr>rt_sys := s\<rparr>)
           | Some r \<Rightarrow> (if assertReplied False wi r (sys_sm s) then rt_stop wis (t\<lparr>rt_sys := s\<rparr>) else None)))"

definition respondResultsRun :: "nat list \<Rightarrow> bool" where
  "respondResultsRun ns =
     (case rt_init (length ns) of
        None \<Rightarrow> False
      | Some t0 \<Rightarrow>
          (case rt_changes 0 ns respondTestChanges t0 of
             None \<Rightarrow> False
           | Some t \<Rightarrow>
               (case rt_stop [0..<length ns] t of
                  None \<Rightarrow> False
                | Some t' \<Rightarrow> assertStoreContents (sm_all (sys_sm (rt_sys t'))) respondTestFinalRevno
                                                  respondTestFinalState)))"

definition TestRespondResults :: bool where
  "TestRespondResults =
     (let numCombinations = push_bit (length respondTestChanges) 1 in
      list_all (\<lambda>n0. list_all (\<lambda>n1. respondResultsRun [n0, n1]) [0..<numCombinations]) [0..<numCombinations])"

subsection \<open>One watcher's part in \<open>respond\<close>\<close>

text \<open>
  A watcher is served by \<open>respond\<close> when it has a pending request and is behind the
  store. \<open>respond\<close> with its clients sends such a watcher exactly one reply, \<open>true\<close>, to
  its newest request, and its client applies the reply's changes; every other watcher
  is left as it was and sent nothing.
\<close>

lemma client_receive_length:
  "client_receive idf rs vs = Some vs' \<Longrightarrow> length vs' = length vs"
  by (induction idf rs vs rule: client_receive.induct) (auto split: if_splits option.splits)

lemma respond_one_watcher:
  assumes r1: "respond_one j sm = Some sm'" and c1: "client_receive idf (new_replies sm sm') vs = Some vs'"
    and i: "i < length vs" and iw: "i < length (sm_watchers sm)"
  shows "length vs' = length vs \<and> length (sm_watchers sm') = length (sm_watchers sm)
     \<and> latestRevno (sm_all sm') = latestRevno (sm_all sm)
     \<and> (\<exists>new. sm_replies sm' = sm_replies sm @ new \<and> (\<forall>x \<in> set new. fst x = j))
     \<and> (\<not> served sm j \<longrightarrow> sm' = sm \<and> vs' = vs)
     \<and> (if i = j \<and> served sm i
        then \<exists>ds. sm_replies sm' = sm_replies sm @ [(i, hd (sm_waiting sm i), Reply True ds)]
               \<and> watcherState_update idf ds (vs ! i) = Some (vs' ! i)
               \<and> sm_waiting sm' i = tl (sm_waiting sm i)
               \<and> w_revno (sm_watchers sm' ! i) = latestRevno (sm_all sm)
        else vs' ! i = vs ! i \<and> sm_waiting sm' i = sm_waiting sm i \<and> sm_watchers sm' ! i = sm_watchers sm ! i)"
proof (cases "served sm j")
  case False
  then have "sm' = sm" using r1 by (auto simp: served_def respond_one_def Let_def split: list.splits if_splits)
  then show ?thesis using c1 False by (auto simp: new_replies_def)
next
  case True
  note sj = this
  then obtain r rest where w: "sm_waiting sm j = r # rest" and b: "w_revno (sm_watchers sm ! j) < latestRevno (sm_all sm)"
    by (auto simp: served_def neq_Nil_conv)
  obtain st' where seen: "seen (w_revno (sm_watchers sm ! j)) (sm_all sm) = Some st'"
    and sm': "sm' = sm\<lparr>sm_all := st',
                     sm_watchers := (sm_watchers sm)[j := (sm_watchers sm ! j)\<lparr>w_revno := latestRevno (sm_all sm)\<rparr>],
                     sm_waiting := (sm_waiting sm)(j := rest),
                     sm_replies := sm_replies sm @ [(j, r, Reply True (ChangesSince (w_revno (sm_watchers sm ! j)) (sm_all sm)))]\<rparr>"
    using r1 w b by (auto simp: respond_one_def Let_def split: option.splits)
  let ?ds = "ChangesSince (w_revno (sm_watchers sm ! j)) (sm_all sm)"
  obtain v' where upd: "watcherState_update idf ?ds (vs ! j) = Some v'" and vs': "vs' = vs[j := v']"
    using c1 by (auto simp: new_replies_def sm' split: option.splits)
  have lat: "latestRevno st' = latestRevno (sm_all sm)" by (rule seen_latestRevno [OF seen])
  show ?thesis
  proof (cases "i = j")
    case True
    then show ?thesis using i iw upd vs' lat w b sj by (simp add: sm' served_def)
  next
    case False
    then show ?thesis using vs' lat sj by (auto simp: sm')
  qed
qed

lemma respond_clients_watcher:
  "respond_clients idf js s = Some s' \<Longrightarrow> distinct js \<Longrightarrow> i < length (sys_views s) \<Longrightarrow>
   i < length (sm_watchers (sys_sm s)) \<Longrightarrow>
   length (sys_views s') = length (sys_views s) \<and> length (sm_watchers (sys_sm s')) = length (sm_watchers (sys_sm s))
   \<and> latestRevno (sm_all (sys_sm s')) = latestRevno (sm_all (sys_sm s))
   \<and> (\<exists>new. sm_replies (sys_sm s') = sm_replies (sys_sm s) @ new \<and> (\<forall>x \<in> set new. fst x \<in> set js)
       \<and> (if i \<in> set js \<and> served (sys_sm s) i
          then \<exists>ds. filter (\<lambda>x. fst x = i) new = [(i, hd (sm_waiting (sys_sm s) i), Reply True ds)]
                 \<and> watcherState_update idf ds (sys_views s ! i) = Some (sys_views s' ! i)
                 \<and> sm_waiting (sys_sm s') i = tl (sm_waiting (sys_sm s) i)
                 \<and> w_revno (sm_watchers (sys_sm s') ! i) = latestRevno (sm_all (sys_sm s))
          else filter (\<lambda>x. fst x = i) new = [] \<and> sys_views s' ! i = sys_views s ! i
                 \<and> sm_waiting (sys_sm s') i = sm_waiting (sys_sm s) i
                 \<and> sm_watchers (sys_sm s') ! i = sm_watchers (sys_sm s) ! i))"
proof (induction js arbitrary: s)
  case Nil
  then show ?case by simp
next
  case (Cons j js)
  obtain sm1 vs1 where r1: "respond_one j (sys_sm s) = Some sm1"
    and c1: "client_receive idf (new_replies (sys_sm s) sm1) (sys_views s) = Some vs1"
    and r: "respond_clients idf js \<lparr>sys_sm = sm1, sys_views = vs1\<rparr> = Some s'"
    using Cons.prems(1) by (auto split: option.splits)
  note one = respond_one_watcher [OF r1 c1 Cons.prems(3,4)]
  have d: "distinct js" and jn: "j \<notin> set js" using Cons.prems(2) by auto
  have i1: "i < length vs1" "i < length (sm_watchers sm1)" using one Cons.prems(3,4) by simp_all
  note rest = Cons.IH [OF r [unfolded sys_eta] d, simplified, OF i1]
  obtain new1 where new1: "sm_replies sm1 = sm_replies (sys_sm s) @ new1" "\<forall>x \<in> set new1. fst x = j"
    using one by blast
  obtain new2 where new2: "sm_replies (sys_sm s') = sm_replies sm1 @ new2" using rest by blast
  show ?case
  proof (cases "i = j \<and> served (sys_sm s) i")
    case True
    then have "i \<notin> set js" using jn by simp
    then show ?thesis using one rest True by (auto simp: new1)
  next
    case False
    have other: "vs1 ! i = sys_views s ! i" "sm_waiting sm1 i = sm_waiting (sys_sm s) i"
      "sm_watchers sm1 ! i = sm_watchers (sys_sm s) ! i"
      using one False by simp_all
    have f1: "filter (\<lambda>x. fst x = i) new1 = []"
    proof (cases "i = j")
      case True
      then show ?thesis using one False new1(1) by simp
    next
      case False
      then show ?thesis using new1(2) by (auto simp: filter_empty_conv)
    qed
    have served1: "served sm1 i = served (sys_sm s) i"
      using other one by (simp add: served_def)
    have "i \<in> set (j # js) \<and> served (sys_sm s) i \<longleftrightarrow> i \<in> set js \<and> served sm1 i"
      using False served1 by auto
    then show ?thesis using rest other one f1 new1 new2 by (auto simp: served_def)
  qed
qed

subsection \<open>The views of \<open>respondTestChanges\<close>\<close>

text \<open>
  \<open>respondView j\<close> is the observable store after the first \<open>j\<close> changes, and \<open>live_of\<close>
  the client's picture of a view: the info of each live entity.
\<close>

definition respondView :: "nat \<Rightarrow> (testInfoId, testInfo) store_view" where
  "respondView j = fold (\<lambda>(k, v). view_Update k v) (take j respondTestChanges) (0, Map.empty)"

definition live_of :: "('k, 'info) store_view \<Rightarrow> ('k, 'info) watcherState" where
  "live_of sv k = map_option (\<lambda>(c, r, i). \<lparr>delta_removed = False, delta_entity = i\<rparr>) (snd sv k)"

lemma current_entities_view: "current_entities st = live_of (store_view st)"
  by (auto simp: current_entities_def live_of_def store_view_def fun_eq_iff split: option.splits)

lemma respondView_Suc:
  "j < length respondTestChanges \<Longrightarrow>
     respondView (Suc j) = view_Update (fst (respondTestChanges ! j)) (snd (respondTestChanges ! j)) (respondView j)"
  by (simp add: respondView_def take_Suc_conv_app_nth split_beta)

definition respondKeys :: "testInfoId list" where
  "respondKeys = [\<lparr>kind = ''machine'', ident = ''0''\<rparr>, \<lparr>kind = ''machine'', ident = ''1''\<rparr>,
                  \<lparr>kind = ''machine'', ident = ''2''\<rparr>]"

lemma respondViews_distinct:
  "distinct (map (\<lambda>j. map (live_of (respondView j)) respondKeys) [0..<Suc (length respondTestChanges)])"
  by code_simp

lemma respondView_latest: "j \<le> length respondTestChanges \<Longrightarrow> fst (respondView j) = int j"
  by (simp add: respondView_def respondTestChanges_def view_Update_def idForInfo_def
      le_Suc_eq numeral_eq_Suc take_Cons' split: if_splits) presburger

lemma respondViews_differ:
  assumes "a < b" and "b \<le> length respondTestChanges"
  shows "live_of (respondView a) \<noteq> live_of (respondView b)"
proof
  assume eq: "live_of (respondView a) = live_of (respondView b)"
  let ?f = "\<lambda>j. map (live_of (respondView j)) respondKeys"
  have "map ?f [0..<Suc (length respondTestChanges)] ! a = map ?f [0..<Suc (length respondTestChanges)] ! b"
    using eq assms by (simp del: upt_Suc)
  then show False
    using respondViews_distinct assms nth_eq_iff_index_eq [of "map ?f [0..<Suc (length respondTestChanges)]" a b]
    by simp
qed

lemma respondChanges_ok:
  "list_all (\<lambda>j. case snd (respondTestChanges ! j) of None \<Rightarrow> True
      | Some i \<Rightarrow> idForInfo i = fst (respondTestChanges ! j)
                 \<and> (fst (respondTestChanges ! j) \<notin> fst ` set (take j respondTestChanges)
                    \<or> snd (respondView j) (fst (respondTestChanges ! j)) \<noteq> None))
     [0..<length respondTestChanges]"
  by code_simp

lemma respond_change_ok:
  assumes j: "j < length respondTestChanges" and sv: "store_view st = respondView j"
    and dm: "dom (entities st) \<subseteq> fst ` set (take j respondTestChanges)"
  shows "change_ok idForInfo st (fst (respondTestChanges ! j)) (snd (respondTestChanges ! j))"
proof (cases "snd (respondTestChanges ! j)")
  case (Some i)
  let ?k = "fst (respondTestChanges ! j)"
  have "\<forall>j \<in> set [0..<length respondTestChanges]. case snd (respondTestChanges ! j) of None \<Rightarrow> True
      | Some i \<Rightarrow> idForInfo i = fst (respondTestChanges ! j)
                 \<and> (fst (respondTestChanges ! j) \<notin> fst ` set (take j respondTestChanges)
                    \<or> snd (respondView j) (fst (respondTestChanges ! j)) \<noteq> None)"
    using respondChanges_ok by (simp only: list_all_iff)
  then have "case snd (respondTestChanges ! j) of None \<Rightarrow> True
      | Some i \<Rightarrow> idForInfo i = ?k \<and> (?k \<notin> fst ` set (take j respondTestChanges) \<or> snd (respondView j) ?k \<noteq> None)"
    using j by (simp only: set_upt atLeastLessThan_iff le0 simp_thms)
  then have ok: "idForInfo i = ?k \<and> (?k \<notin> fst ` set (take j respondTestChanges) \<or> snd (respondView j) ?k \<noteq> None)"
    by (simp only: Some option.case)
  have "\<not> tombstone st ?k"
  proof (cases "entities st ?k")
    case (Some e)
    then have "?k \<in> fst ` set (take j respondTestChanges)" using dm by blast
    then have "snd (store_view st) ?k \<noteq> None" using ok sv by simp
    then show ?thesis using Some by (simp add: tombstone_def store_view_def split: if_splits)
  qed (simp add: tombstone_def)
  then show ?thesis using ok Some by (simp add: change_ok_def)
qed (simp add: change_ok_def)

lemma dom_Update: "dom (entities (Update k v st)) \<subseteq> insert k (dom (entities st))"
  by (auto simp: Update_def store_defs Let_def split: option.splits if_splits)

lemma dom_seen:
  assumes "store_inv st" and "seen r st = Some st'"
  shows "dom (entities st') \<subseteq> dom (entities st)"
proof
  fix k assume "k \<in> dom (entities st')"
  then show "k \<in> dom (entities st)" using seen_entities [OF assms, of k] by (auto split: option.splits)
qed

lemma dom_respond_loop:
  "mgr_inv sm \<Longrightarrow> respond_loop js sm = Some sm' \<Longrightarrow> dom (entities (sm_all sm')) \<subseteq> dom (entities (sm_all sm))"
proof (induction js arbitrary: sm)
  case Nil
  then show ?case by simp
next
  case (Cons j js)
  obtain sm1 where r1: "respond_one j sm = Some sm1" and inv1: "mgr_inv sm1"
    using respond_one_inv [OF Cons.prems(1), of j] by blast
  have "sm_all sm1 = sm_all sm \<or> (\<exists>r. seen r (sm_all sm) = Some (sm_all sm1))"
    using r1 by (auto simp: respond_one_def Let_def split: list.splits if_splits option.splits)
  moreover have "store_inv (sm_all sm)" using Cons.prems(1) by (simp add: mgr_inv_def)
  ultimately have "dom (entities (sm_all sm1)) \<subseteq> dom (entities (sm_all sm))"
    by (metis dom_seen order_refl)
  then show ?case using Cons.IH [OF inv1] Cons.prems(2) r1 by auto
qed

subsection \<open>The invariant of the test's loop\<close>

text \<open>
  Between two changes (after \<open>j\<close> of them): the system is reachable, its observable
  store is \<open>respondView j\<close> and holds no entity the changes did not name; each of the
  \<open>n\<close> watchers is running, its pending requests are exactly its outstanding request
  \<open>reqs[wi]\<close>, never replied to, and its client holds the live entities of the revision
  it is at; request numbers are fresh.
\<close>

definition rt_inv :: "nat \<Rightarrow> nat \<Rightarrow> rtest \<Rightarrow> bool" where
  "rt_inv n j t \<longleftrightarrow>
     rt_sys t \<in> reachable idForInfo
     \<and> store_view (sm_all (sys_sm (rt_sys t))) = respondView j
     \<and> dom (entities (sm_all (sys_sm (rt_sys t)))) \<subseteq> fst ` set (take j respondTestChanges)
     \<and> length (sm_watchers (sys_sm (rt_sys t))) = n \<and> length (rt_reqs t) = n
     \<and> (\<forall>x \<in> set (sm_replies (sys_sm (rt_sys t))). fst (snd x) < rt_next t)
     \<and> (\<forall>wi < n. \<not> w_stopped (sm_watchers (sys_sm (rt_sys t)) ! wi)
          \<and> sm_waiting (sys_sm (rt_sys t)) wi = (case rt_reqs t ! wi of None \<Rightarrow> [] | Some r \<Rightarrow> [r])
          \<and> (\<forall>r. rt_reqs t ! wi = Some r \<longrightarrow> r < rt_next t \<and> replies_to (sys_sm (rt_sys t)) wi r = [])
          \<and> (\<exists>r'. w_revno (sm_watchers (sys_sm (rt_sys t)) ! wi) = int r' \<and> r' \<le> j
                 \<and> sys_views (rt_sys t) ! wi = live_of (respondView r')))"

lemma replies_to_fresh:
  "\<forall>x \<in> set (sm_replies sm). fst (snd x) < m \<Longrightarrow> m \<le> r \<Longrightarrow> replies_to sm w r = []"
  by (auto simp: replies_to_def filter_empty_conv)

lemma rt_watchers_inv:
  "rt_inv m 0 t \<Longrightarrow> \<exists>t'. rt_watchers k t = Some t' \<and> rt_inv (m + k) 0 t' \<and> rt_next t' = rt_next t"
proof (induction k arbitrary: m t)
  case 0
  then show ?case by simp
next
  case (Suc k)
  let ?s = "rt_sys t"
  have r: "?s \<in> reachable idForInfo" using Suc.prems by (simp add: rt_inv_def)
  have si: "sys_inv idForInfo ?s" by (rule reachable_sys_inv [OF r])
  define s' where "s' = \<lparr>sys_sm = add_watcher (sys_sm ?s), sys_views = sys_views ?s @ [Map.empty]\<rparr>"
  have st: "sys_step idForInfo SysWatch ?s = Some s'" by (simp add: s'_def)
  have r': "s' \<in> reachable idForInfo" using reachable.step [OF r _ st] by simp
  have lv: "length (sys_views ?s) = m" using si Suc.prems by (simp add: sys_inv_def rt_inv_def)
  have wm: "sm_waiting (sys_sm ?s) m = []" using si Suc.prems by (auto simp: sys_inv_def mgr_inv_def rt_inv_def)
  have "rt_inv (Suc m) 0 (t\<lparr>rt_sys := s', rt_reqs := rt_reqs t @ [None]\<rparr>)"
    using Suc.prems r' lv wm
    by (auto simp: rt_inv_def s'_def add_watcher_def new_watcher_def nth_append less_Suc_eq
        respondView_def live_of_def fun_eq_iff replies_to_def)
  then show ?case using Suc.IH st by fastforce
qed

lemma rt_init_inv: "\<exists>t. rt_init n = Some t \<and> rt_inv n 0 t \<and> rt_next t = 0"
proof -
  have "sm_watchers (sys_sm (sys_init :: (testInfoId, testInfo) sys)) = []"
    "sm_replies (sys_sm (sys_init :: (testInfoId, testInfo) sys)) = []"
    "dom (entities (sm_all (sys_sm (sys_init :: (testInfoId, testInfo) sys)))) = {}"
    by (simp_all add: sys_init_def new_manager_def NewStore_def)
  then have "rt_inv 0 0 \<lparr>rt_sys = sys_init, rt_reqs = [], rt_next = 0\<rparr>"
    using store_view_init by (simp add: rt_inv_def reachable.init respondView_def)
  then show ?thesis using rt_watchers_inv [of 0 _ n] by (fastforce simp: rt_init_def)
qed

lemma rt_next_req:
  assumes inv: "rt_inv n j t" and wi: "wi < n" and none: "rt_reqs t ! wi = None"
  shows "\<exists>s. sys_step idForInfo (SysNext wi (rt_next t)) (rt_sys t) = Some s
     \<and> rt_inv n j (t\<lparr>rt_sys := s, rt_reqs := (rt_reqs t)[wi := Some (rt_next t)], rt_next := Suc (rt_next t)\<rparr>)"
proof -
  let ?s = "rt_sys t" and ?sm = "sys_sm (rt_sys t)" and ?r = "rt_next t"
  have r: "?s \<in> reachable idForInfo" and len: "length (sm_watchers ?sm) = n" "length (rt_reqs t) = n"
    and live: "\<not> w_stopped (sm_watchers ?sm ! wi)" and w0: "sm_waiting ?sm wi = []"
    using inv wi none by (auto simp: rt_inv_def)
  define s' where "s' = ?s\<lparr>sys_sm := ?sm\<lparr>sm_waiting := (sm_waiting ?sm)(wi := [?r])\<rparr>\<rparr>"
  have st: "sys_step idForInfo (SysNext wi ?r) ?s = Some s'"
    using wi len live w0 by (simp add: s'_def handle_def)
  have ok: "op_ok idForInfo (SysNext wi ?r) ?s" using wi len by simp
  have r': "s' \<in> reachable idForInfo" by (rule reachable.step [OF r ok st])
  have "rt_inv n j (t\<lparr>rt_sys := s', rt_reqs := (rt_reqs t)[wi := Some ?r], rt_next := Suc ?r\<rparr>)"
    using inv r' wi len replies_to_fresh [of ?sm "rt_next t" "rt_next t" wi]
    by (auto simp: rt_inv_def s'_def nth_list_update less_Suc_eq replies_to_def split: option.splits)
  then show ?thesis using st by blast
qed

lemma rt_requests_inv:
  "rt_inv n j t \<Longrightarrow> \<forall>x \<in> set wl. fst x < n \<Longrightarrow> \<exists>t'. rt_requests i wl t = Some t' \<and> rt_inv n j t'"
proof (induction i wl t rule: rt_requests.induct)
  case (1 i t)
  then show ?case by simp
next
  case (2 i wi m ns t)
  show ?case
  proof (cases "m AND push_bit i 1 \<noteq> 0 \<and> rt_reqs t ! wi = None")
    case True
    obtain s where st: "sys_step idForInfo (SysNext wi (rt_next t)) (rt_sys t) = Some s"
      and inv': "rt_inv n j (t\<lparr>rt_sys := s, rt_reqs := (rt_reqs t)[wi := Some (rt_next t)], rt_next := Suc (rt_next t)\<rparr>)"
      using rt_next_req [OF "2.prems"(1)] "2.prems"(2) True by auto
    have "rt_requests i ((wi, m) # ns) t
        = rt_requests i ns (t\<lparr>rt_sys := s, rt_reqs := (rt_reqs t)[wi := Some (rt_next t)], rt_next := Suc (rt_next t)\<rparr>)"
      using True st by (simp del: sys_step.simps)
    then show ?thesis using "2.IH"(1) [OF True st inv'] "2.prems"(2) by simp
  next
    case False
    then have "rt_requests i ((wi, m) # ns) t = rt_requests i ns t"
      by (simp only: rt_requests.simps(2) if_not_P [OF False] if_False)
    then show ?thesis using "2.IH"(2) [OF False "2.prems"(1)] "2.prems"(2) by simp
  qed
qed

lemma rt_inv_waiting:
  assumes "rt_inv n j t"
  shows "assertWaitingRequests (rt_expectWaiting t) (sys_sm (rt_sys t))"
proof -
  let ?sm = "sys_sm (rt_sys t)"
  have len: "length (sm_watchers ?sm) = n" "length (rt_reqs t) = n" using assms by (simp_all add: rt_inv_def)
  have "map (sm_waiting ?sm) [0..<length (sm_watchers ?sm)] = rt_expectWaiting t"
    using assms len by (auto simp: rt_inv_def rt_expectWaiting_def intro: nth_equalityI)
  moreover have "list_all (\<lambda>(w, rs). list_all (\<lambda>r. assertNotReplied w r ?sm) rs) (enumerate 0 (rt_expectWaiting t))"
    unfolding list_all_iff
  proof (intro ballI, clarify)
    fix w rs r assume wr: "(w, rs) \<in> set (enumerate 0 (rt_expectWaiting t))" and r: "r \<in> set rs"
    then have w: "w < n" and rs: "rs = (case rt_reqs t ! w of None \<Rightarrow> [] | Some r \<Rightarrow> [r])"
      using len by (auto simp: in_set_enumerate_eq rt_expectWaiting_def)
    then have "rt_reqs t ! w = Some r" using r by (auto split: option.splits)
    then show "assertNotReplied w r ?sm" using assms w by (auto simp: rt_inv_def assertNotReplied_def)
  qed
  ultimately show ?thesis by (simp add: assertWaitingRequests_def)
qed

lemma rt_change_step:
  assumes inv: "rt_inv n j t" and j: "j < length respondTestChanges"
  defines "c \<equiv> respondTestChanges ! j"
  shows "\<exists>s. sys_step idForInfo (SysChange (fst c) (snd c)) (rt_sys t) = Some s \<and> rt_inv n (Suc j) (t\<lparr>rt_sys := s\<rparr>)"
proof -
  let ?s = "rt_sys t" and ?st = "sm_all (sys_sm (rt_sys t))"
  have r: "?s \<in> reachable idForInfo" and sv: "store_view ?st = respondView j"
    and dm: "dom (entities ?st) \<subseteq> fst ` set (take j respondTestChanges)"
    using inv by (simp_all add: rt_inv_def)
  define s' where "s' = ?s\<lparr>sys_sm := (sys_sm ?s)\<lparr>sm_all := Update (fst c) (snd c) ?st\<rparr>\<rparr>"
  have st: "sys_step idForInfo (SysChange (fst c) (snd c)) ?s = Some s'" by (simp add: s'_def)
  have ok: "op_ok idForInfo (SysChange (fst c) (snd c)) ?s"
    using respond_change_ok [OF j sv dm] by (simp add: c_def)
  have r': "s' \<in> reachable idForInfo" by (rule reachable.step [OF r ok st])
  have sv': "store_view (sm_all (sys_sm s')) = respondView (Suc j)"
    using store_view_sys_step [OF reachable_sys_inv [OF r] ok st] sv respondView_Suc [OF j]
    by (simp add: sys_changes_def c_def split_beta)
  have "fst ` set (take (Suc j) respondTestChanges) = insert (fst c) (fst ` set (take j respondTestChanges))"
    using j by (simp add: take_Suc_conv_app_nth c_def)
  then have dm': "dom (entities (sm_all (sys_sm s'))) \<subseteq> fst ` set (take (Suc j) respondTestChanges)"
    using dom_Update [of "fst c" "snd c" ?st] dm by (auto simp: s'_def)
  have "rt_inv n (Suc j) (t\<lparr>rt_sys := s'\<rparr>)"
    using inv r' sv' dm' by (auto simp: rt_inv_def s'_def replies_to_def le_Suc_eq)
  then show ?thesis using st by blast
qed

lemma rt_checks_ok:
  "distinct wis \<Longrightarrow>
   \<forall>wi \<in> set wis. wi < length (rt_reqs t) \<and> (\<forall>r. rt_reqs t ! wi = Some r \<longrightarrow>
       (replies_to (sys_sm (rt_sys t)) wi r = []
        \<or> (\<exists>ds. replies_to (sys_sm (rt_sys t)) wi r = [Reply True ds] \<and> ds \<noteq> []))
       \<and> watcherState_check (sys_views (rt_sys t) ! wi) (sm_all (sys_sm (rt_sys t)))) \<Longrightarrow>
   \<exists>t'. rt_checks wis t = Some t' \<and> rt_sys t' = rt_sys t \<and> rt_next t' = rt_next t
     \<and> length (rt_reqs t') = length (rt_reqs t)
     \<and> (\<forall>wi < length (rt_reqs t). rt_reqs t' ! wi =
          (if wi \<in> set wis \<and> (\<exists>r. rt_reqs t ! wi = Some r \<and> replies_to (sys_sm (rt_sys t)) wi r \<noteq> [])
           then None else rt_reqs t ! wi))"
proof (induction wis arbitrary: t)
  case Nil
  then show ?case by simp
next
  case (Cons wi wis)
  have wi: "wi < length (rt_reqs t)" and wn: "wi \<notin> set wis" and d: "distinct wis"
    using Cons.prems by auto
  have pre0: "\<forall>w \<in> set wis. w < length (rt_reqs t) \<and> (\<forall>r. rt_reqs t ! w = Some r \<longrightarrow>
       (replies_to (sys_sm (rt_sys t)) w r = []
        \<or> (\<exists>ds. replies_to (sys_sm (rt_sys t)) w r = [Reply True ds] \<and> ds \<noteq> []))
       \<and> watcherState_check (sys_views (rt_sys t) ! w) (sm_all (sys_sm (rt_sys t))))"
    using Cons.prems(2) by simp
  show ?case
  proof (cases "rt_reqs t ! wi")
    case None
    obtain t' where "rt_checks wis t = Some t'" "rt_sys t' = rt_sys t" "rt_next t' = rt_next t"
      "length (rt_reqs t') = length (rt_reqs t)"
      "\<forall>w < length (rt_reqs t). rt_reqs t' ! w =
          (if w \<in> set wis \<and> (\<exists>r. rt_reqs t ! w = Some r \<and> replies_to (sys_sm (rt_sys t)) w r \<noteq> [])
           then None else rt_reqs t ! w)"
      using Cons.IH [OF d pre0] by blast
    then show ?thesis using None by auto
  next
    case (Some r)
    have ck: "watcherState_check (sys_views (rt_sys t) ! wi) (sm_all (sys_sm (rt_sys t)))"
      and rp: "replies_to (sys_sm (rt_sys t)) wi r = []
        \<or> (\<exists>ds. replies_to (sys_sm (rt_sys t)) wi r = [Reply True ds] \<and> ds \<noteq> [])"
      using Cons.prems(2) Some by auto
    define t1 where "t1 = (if replies_to (sys_sm (rt_sys t)) wi r = [] then t
                           else t\<lparr>rt_reqs := (rt_reqs t)[wi := None]\<rparr>)"
    have step: "rt_checks (wi # wis) t = rt_checks wis t1"
      using rp ck Some by (auto simp: t1_def)
    have pre: "\<forall>w \<in> set wis. w < length (rt_reqs t1) \<and> (\<forall>r. rt_reqs t1 ! w = Some r \<longrightarrow>
       (replies_to (sys_sm (rt_sys t1)) w r = []
        \<or> (\<exists>ds. replies_to (sys_sm (rt_sys t1)) w r = [Reply True ds] \<and> ds \<noteq> []))
       \<and> watcherState_check (sys_views (rt_sys t1) ! w) (sm_all (sys_sm (rt_sys t1))))"
    proof
      fix w assume w: "w \<in> set wis"
      then have "w \<noteq> wi" using wn by auto
      then have "rt_reqs t1 ! w = rt_reqs t ! w" "rt_sys t1 = rt_sys t" "length (rt_reqs t1) = length (rt_reqs t)"
        by (simp_all add: t1_def)
      then show "w < length (rt_reqs t1) \<and> (\<forall>r. rt_reqs t1 ! w = Some r \<longrightarrow>
       (replies_to (sys_sm (rt_sys t1)) w r = []
        \<or> (\<exists>ds. replies_to (sys_sm (rt_sys t1)) w r = [Reply True ds] \<and> ds \<noteq> []))
       \<and> watcherState_check (sys_views (rt_sys t1) ! w) (sm_all (sys_sm (rt_sys t1))))"
        using pre0 w by simp
    qed
    obtain t' where "rt_checks wis t1 = Some t'" "rt_sys t' = rt_sys t1" "rt_next t' = rt_next t1"
      "length (rt_reqs t') = length (rt_reqs t1)"
      "\<forall>w < length (rt_reqs t1). rt_reqs t' ! w =
          (if w \<in> set wis \<and> (\<exists>r. rt_reqs t1 ! w = Some r \<and> replies_to (sys_sm (rt_sys t1)) w r \<noteq> [])
           then None else rt_reqs t1 ! w)"
      using Cons.IH [OF d pre] by blast
    then show ?thesis using step Some wi wn by (auto simp: t1_def nth_list_update)
  qed
qed

lemma replies_to_append:
  "sm_replies sm' = sm_replies sm @ new \<Longrightarrow>
   replies_to sm' w r = replies_to sm w r @ map (\<lambda>x. snd (snd x)) (filter (\<lambda>x. fst (snd x) = r) (filter (\<lambda>x. fst x = w) new))"
  by (simp add: replies_to_def filter_filter split_def conj_commute)

lemma rt_respond_watcher:
  assumes inv: "rt_inv n j t" and j: "j \<le> length respondTestChanges"
    and st: "sys_step idForInfo SysRespond (rt_sys t) = Some s2" and wi: "wi < n"
  shows "\<not> w_stopped (sm_watchers (sys_sm s2) ! wi)
    \<and> (\<forall>x \<in> set (sm_replies (sys_sm s2)). fst x = wi \<longrightarrow> fst (snd x) < rt_next t)
    \<and> (case rt_reqs t ! wi of
         None \<Rightarrow> sm_waiting (sys_sm s2) wi = []
           \<and> sm_watchers (sys_sm s2) ! wi = sm_watchers (sys_sm (rt_sys t)) ! wi
           \<and> sys_views s2 ! wi = sys_views (rt_sys t) ! wi
       | Some r \<Rightarrow> sys_views s2 ! wi = live_of (respondView j)
           \<and> w_revno (sm_watchers (sys_sm s2) ! wi) = int j
           \<and> ((replies_to (sys_sm s2) wi r = [] \<and> sm_waiting (sys_sm s2) wi = [r])
              \<or> (\<exists>ds. replies_to (sys_sm s2) wi r = [Reply True ds] \<and> ds \<noteq> [] \<and> sm_waiting (sys_sm s2) wi = [])))"
proof -
  let ?s = "rt_sys t" and ?sm = "sys_sm (rt_sys t)"
  have r: "?s \<in> reachable idForInfo" and sv: "store_view (sm_all ?sm) = respondView j"
    and lw: "length (sm_watchers ?sm) = n"
    and live: "\<not> w_stopped (sm_watchers ?sm ! wi)"
    and wt: "sm_waiting ?sm wi = (case rt_reqs t ! wi of None \<Rightarrow> [] | Some r \<Rightarrow> [r])"
    and fresh: "\<forall>r. rt_reqs t ! wi = Some r \<longrightarrow> r < rt_next t \<and> replies_to ?sm wi r = []"
    and old: "\<forall>x \<in> set (sm_replies ?sm). fst (snd x) < rt_next t"
    using inv wi by (auto simp: rt_inv_def)
  obtain r' where rv: "w_revno (sm_watchers ?sm ! wi) = int r'" and r'j: "r' \<le> j"
    and vw: "sys_views ?s ! wi = live_of (respondView r')"
    using inv wi by (auto simp: rt_inv_def)
  have si: "sys_inv idForInfo ?s" by (rule reachable_sys_inv [OF r])
  have lv: "length (sys_views ?s) = n" using si lw by (simp add: sys_inv_def)
  have rc: "respond_clients idForInfo [0..<n] ?s = Some s2" using st lw by simp
  have ok: "op_ok idForInfo SysRespond ?s" by simp
  have sv2: "store_view (sm_all (sys_sm s2)) = respondView j"
    using store_view_sys_step [OF si ok st] sv by (simp add: sys_changes_def)
  have L: "latestRevno (sm_all ?sm) = int j"
    using arg_cong [OF sv, of fst] respondView_latest [OF j] by (simp add: store_view_def)
  have stp: "\<not> w_stopped (sm_watchers (sys_sm s2) ! wi)"
    using respond_clients_inv [OF si, of "[0..<n]"] rc live by auto
  note W = respond_clients_watcher [OF rc distinct_upt, of wi, unfolded lv lw, OF wi wi]
  obtain new where new: "sm_replies (sys_sm s2) = sm_replies ?sm @ new"
    and W': "if wi \<in> set [0..<n] \<and> served ?sm wi
          then \<exists>ds. filter (\<lambda>x. fst x = wi) new = [(wi, hd (sm_waiting ?sm wi), Reply True ds)]
                 \<and> watcherState_update idForInfo ds (sys_views ?s ! wi) = Some (sys_views s2 ! wi)
                 \<and> sm_waiting (sys_sm s2) wi = tl (sm_waiting ?sm wi)
                 \<and> w_revno (sm_watchers (sys_sm s2) ! wi) = latestRevno (sm_all ?sm)
          else filter (\<lambda>x. fst x = wi) new = [] \<and> sys_views s2 ! wi = sys_views ?s ! wi
                 \<and> sm_waiting (sys_sm s2) wi = sm_waiting ?sm wi
                 \<and> sm_watchers (sys_sm s2) ! wi = sm_watchers ?sm ! wi"
    using W by blast
  show ?thesis
  proof (cases "rt_reqs t ! wi")
    case None
    then have ns: "\<not> served ?sm wi" using wt by (simp add: served_def)
    have "filter (\<lambda>x. fst x = wi) new = []" using W' ns by simp
    then have "\<forall>x \<in> set new. fst x \<noteq> wi" by (simp add: filter_empty_conv)
    then show ?thesis using W' ns None stp old new wt by auto
  next
    case (Some r)
    have rn: "r < rt_next t" and r0: "replies_to ?sm wi r = []" using fresh Some by auto
    show ?thesis
    proof (cases "served ?sm wi")
      case True
      then obtain ds where f: "filter (\<lambda>x. fst x = wi) new = [(wi, r, Reply True ds)]"
        and upd: "watcherState_update idForInfo ds (sys_views ?s ! wi) = Some (sys_views s2 ! wi)"
        and w2: "sm_waiting (sys_sm s2) wi = []"
        and rv2: "w_revno (sm_watchers (sys_sm s2) ! wi) = int j"
        using W' wi Some wt L by auto
      have ck: "watcherState_check (sys_views s2 ! wi) (sm_all (sys_sm s2))"
        using respond_client_check [OF r st] wi lw wt Some by simp
      then have v2: "sys_views s2 ! wi = live_of (respondView j)"
        using sv2 by (simp add: watcherState_check_def current_entities_view)
      have lt: "r' < j" using True rv L by (simp add: served_def)
      have "ds \<noteq> []"
      proof
        assume "ds = []"
        then have "live_of (respondView r') = live_of (respondView j)" using upd vw v2 by simp
        then show False using respondViews_differ [OF lt j] by simp
      qed
      moreover have "replies_to (sys_sm s2) wi r = [Reply True ds]"
        using replies_to_append [OF new, of wi r] f r0 by simp
      moreover have "\<forall>x \<in> set (sm_replies (sys_sm s2)). fst x = wi \<longrightarrow> fst (snd x) < rt_next t"
      proof (intro ballI impI)
        fix x assume x: "x \<in> set (sm_replies (sys_sm s2))" and xw: "fst x = wi"
        show "fst (snd x) < rt_next t"
        proof (cases "x \<in> set new")
          case True
          then have "x \<in> set (filter (\<lambda>x. fst x = wi) new)" using xw by simp
          then show ?thesis using f rn by simp
        next
          case False
          then show ?thesis using x new old by auto
        qed
      qed
      ultimately show ?thesis using Some stp v2 rv2 w2 by simp
    next
      case False
      then have rj: "r' = j" using rv L wt Some r'j by (simp add: served_def)
      have "filter (\<lambda>x. fst x = wi) new = []" using W' False by simp
      then have "\<forall>x \<in> set new. fst x \<noteq> wi" by (simp add: filter_empty_conv)
      moreover have "replies_to (sys_sm s2) wi r = []"
        using replies_to_append [OF new, of wi r] W' False r0 by simp
      ultimately show ?thesis using W' False Some stp old new wt rv rj vw by auto
    qed
  qed
qed

lemma respond_clients_replies:
  "respond_clients idf js s = Some s' \<Longrightarrow>
   \<exists>new. sm_replies (sys_sm s') = sm_replies (sys_sm s) @ new \<and> (\<forall>x \<in> set new. fst x \<in> set js)"
proof (induction idf js s rule: respond_clients.induct)
  case (1 idf s)
  then show ?case by simp
next
  case (2 idf j js s)
  obtain sm1 vs1 where r1: "respond_one j (sys_sm s) = Some sm1"
    and r: "respond_clients idf js \<lparr>sys_sm = sm1, sys_views = vs1\<rparr> = Some s'"
    and c1: "client_receive idf (new_replies (sys_sm s) sm1) (sys_views s) = Some vs1"
    using "2.prems" by (auto split: option.splits)
  obtain new1 where "sm_replies sm1 = sm_replies (sys_sm s) @ new1" "\<forall>x \<in> set new1. fst x = j"
    using r1 by (auto simp: respond_one_def Let_def split: list.splits if_splits option.splits)
  then show ?case using "2.IH" [OF r1 c1] r by fastforce
qed

lemma rt_respond:
  assumes inv: "rt_inv n j t" and j: "j \<le> length respondTestChanges"
  shows "\<exists>s2. sys_step idForInfo SysRespond (rt_sys t) = Some s2
     \<and> (\<exists>t'. rt_checks [0..<n] (t\<lparr>rt_sys := s2\<rparr>) = Some t' \<and> rt_inv n j t')"
proof -
  let ?s = "rt_sys t" and ?sm = "sys_sm (rt_sys t)"
  have r: "?s \<in> reachable idForInfo" and sv: "store_view (sm_all ?sm) = respondView j"
    and dm: "dom (entities (sm_all ?sm)) \<subseteq> fst ` set (take j respondTestChanges)"
    and lw: "length (sm_watchers ?sm) = n" and lr: "length (rt_reqs t) = n"
    and old: "\<forall>x \<in> set (sm_replies ?sm). fst (snd x) < rt_next t"
    using inv by (simp_all add: rt_inv_def)
  have si: "sys_inv idForInfo ?s" by (rule reachable_sys_inv [OF r])
  have ok: "op_ok idForInfo SysRespond ?s" by simp
  obtain s2 where st: "sys_step idForInfo SysRespond ?s = Some s2"
    using reachable_steps_succeed [OF r ok] by blast
  have rc: "respond_clients idForInfo [0..<n] ?s = Some s2" using st lw by simp
  have r2: "s2 \<in> reachable idForInfo" by (rule reachable.step [OF r ok st])
  have sv2: "store_view (sm_all (sys_sm s2)) = respondView j"
    using store_view_sys_step [OF si ok st] sv by (simp add: sys_changes_def)
  have dm2: "dom (entities (sm_all (sys_sm s2))) \<subseteq> fst ` set (take j respondTestChanges)"
    using dom_respond_loop [OF _ respond_clients_manager [OF rc]] si dm by (auto simp: sys_inv_def)
  have lw2: "length (sm_watchers (sys_sm s2)) = n"
    using respond_clients_inv [OF si, of "[0..<n]"] rc lw by auto
  note W = rt_respond_watcher [OF inv j st]
  have fresh2: "\<forall>x \<in> set (sm_replies (sys_sm s2)). fst (snd x) < rt_next t"
  proof
    fix x assume x: "x \<in> set (sm_replies (sys_sm s2))"
    obtain new where new: "sm_replies (sys_sm s2) = sm_replies ?sm @ new" "\<forall>x \<in> set new. fst x \<in> set [0..<n]"
      using respond_clients_replies [OF rc] by blast
    show "fst (snd x) < rt_next t"
    proof (cases "x \<in> set new")
      case True
      then have "fst x < n" using new(2) by auto
      then show ?thesis using W [of "fst x"] x by blast
    next
      case False
      then show ?thesis using x new(1) old by auto
    qed
  qed
  let ?t2 = "t\<lparr>rt_sys := s2\<rparr>"
  have pre: "\<forall>wi \<in> set [0..<n]. wi < length (rt_reqs ?t2) \<and> (\<forall>r. rt_reqs ?t2 ! wi = Some r \<longrightarrow>
       (replies_to (sys_sm (rt_sys ?t2)) wi r = []
        \<or> (\<exists>ds. replies_to (sys_sm (rt_sys ?t2)) wi r = [Reply True ds] \<and> ds \<noteq> []))
       \<and> watcherState_check (sys_views (rt_sys ?t2) ! wi) (sm_all (sys_sm (rt_sys ?t2))))"
  proof
    fix wi assume "wi \<in> set [0..<n]"
    then have wi: "wi < n" by simp
    show "wi < length (rt_reqs ?t2) \<and> (\<forall>r. rt_reqs ?t2 ! wi = Some r \<longrightarrow>
       (replies_to (sys_sm (rt_sys ?t2)) wi r = []
        \<or> (\<exists>ds. replies_to (sys_sm (rt_sys ?t2)) wi r = [Reply True ds] \<and> ds \<noteq> []))
       \<and> watcherState_check (sys_views (rt_sys ?t2) ! wi) (sm_all (sys_sm (rt_sys ?t2))))"
      using W [OF wi] wi lr sv2 by (auto simp: watcherState_check_def current_entities_view split: option.splits)
  qed
  obtain t' where ch: "rt_checks [0..<n] ?t2 = Some t'" and sys0: "rt_sys t' = rt_sys ?t2"
    and nx0: "rt_next t' = rt_next ?t2" and lr0: "length (rt_reqs t') = length (rt_reqs ?t2)"
    and rq0: "\<forall>wi < length (rt_reqs ?t2). rt_reqs t' ! wi =
          (if wi \<in> set [0..<n] \<and> (\<exists>r. rt_reqs ?t2 ! wi = Some r \<and> replies_to (sys_sm (rt_sys ?t2)) wi r \<noteq> [])
           then None else rt_reqs ?t2 ! wi)"
    using rt_checks_ok [OF distinct_upt pre] by blast
  have t2: "rt_reqs ?t2 = rt_reqs t" "rt_next ?t2 = rt_next t" "rt_sys ?t2 = s2" by simp_all
  have sys': "rt_sys t' = s2" and nx: "rt_next t' = rt_next t" and lr': "length (rt_reqs t') = n"
    using sys0 nx0 lr0 lr unfolding t2 by simp_all
  have rq: "\<forall>wi < n. rt_reqs t' ! wi =
          (if (\<exists>r. rt_reqs t ! wi = Some r \<and> replies_to (sys_sm s2) wi r \<noteq> []) then None else rt_reqs t ! wi)"
    using rq0 lr unfolding t2 by simp
  have per: "\<not> w_stopped (sm_watchers (sys_sm s2) ! wi)
          \<and> sm_waiting (sys_sm s2) wi = (case rt_reqs t' ! wi of None \<Rightarrow> [] | Some r \<Rightarrow> [r])
          \<and> (\<forall>r. rt_reqs t' ! wi = Some r \<longrightarrow> r < rt_next t' \<and> replies_to (sys_sm s2) wi r = [])
          \<and> (\<exists>r'. w_revno (sm_watchers (sys_sm s2) ! wi) = int r' \<and> r' \<le> j
                 \<and> sys_views s2 ! wi = live_of (respondView r'))" if wi: "wi < n" for wi
  proof (cases "rt_reqs t ! wi")
    case None
    obtain r' where "w_revno (sm_watchers ?sm ! wi) = int r'" "r' \<le> j" "sys_views ?s ! wi = live_of (respondView r')"
      using inv wi by (auto simp: rt_inv_def)
    then show ?thesis using W [OF wi] None rq wi by auto
  next
    case (Some r)
    have rn: "r < rt_next t" using inv wi Some by (auto simp: rt_inv_def)
    show ?thesis using W [OF wi] Some rq wi rn nx by auto
  qed
  have "rt_inv n j t'" using r2 sv2 dm2 lw2 lr' fresh2 per nx by (simp add: rt_inv_def sys')
  then show ?thesis using st ch by blast
qed

lemma rt_change_inv:
  assumes inv: "rt_inv (length ns) i t" and i: "i < length respondTestChanges"
  shows "\<exists>t'. rt_change i ns (respondTestChanges ! i) t = Some t' \<and> rt_inv (length ns) (Suc i) t'"
proof -
  let ?c = "respondTestChanges ! i"
  obtain s where st: "sys_step idForInfo (SysChange (fst ?c) (snd ?c)) (rt_sys t) = Some s"
    and inv1: "rt_inv (length ns) (Suc i) (t\<lparr>rt_sys := s\<rparr>)"
    using rt_change_step [OF inv i] by blast
  have "\<forall>x \<in> set (enumerate 0 ns). fst x < length ns" by (auto simp: in_set_enumerate_eq)
  then obtain t1 where rq: "rt_requests i (enumerate 0 ns) (t\<lparr>rt_sys := s\<rparr>) = Some t1"
    and inv2: "rt_inv (length ns) (Suc i) t1"
    using rt_requests_inv [OF inv1] by blast
  have wt: "assertWaitingRequests (rt_expectWaiting t1) (sys_sm (rt_sys t1))" by (rule rt_inv_waiting [OF inv2])
  obtain s2 t' where st2: "sys_step idForInfo SysRespond (rt_sys t1) = Some s2"
    and ch: "rt_checks [0..<length ns] (t1\<lparr>rt_sys := s2\<rparr>) = Some t'" and inv3: "rt_inv (length ns) (Suc i) t'"
    using rt_respond [OF inv2] i by auto
  show ?thesis
  proof (cases "list_ex (\<lambda>n. n AND push_bit i 1 \<noteq> 0) ns")
    case True
    then show ?thesis using st rq wt st2 ch inv3 by (simp add: rt_change_def del: sys_step.simps)
  next
    case False
    then show ?thesis using st rq inv2 by (simp add: rt_change_def del: sys_step.simps)
  qed
qed

lemma rt_changes_inv:
  "rt_inv (length ns) i t \<Longrightarrow> cs = drop i respondTestChanges \<Longrightarrow> i \<le> length respondTestChanges \<Longrightarrow>
   \<exists>t'. rt_changes i ns cs t = Some t' \<and> rt_inv (length ns) (length respondTestChanges) t'"
proof (induction cs arbitrary: i t)
  case Nil
  then have "i = length respondTestChanges" by simp
  then show ?case using Nil.prems(1) by simp
next
  case (Cons c cs)
  have i: "i < length respondTestChanges"
    using Cons.prems(2) by (metis drop_all list.distinct(1) not_le)
  then have "respondTestChanges ! i # drop (Suc i) respondTestChanges = c # cs"
    using Cons.prems(2) by (simp add: Cons_nth_drop_Suc)
  then have c: "c = respondTestChanges ! i" and cs: "cs = drop (Suc i) respondTestChanges" by simp_all
  obtain t1 where r1: "rt_change i ns c t = Some t1" and inv1: "rt_inv (length ns) (Suc i) t1"
    using rt_change_inv [OF Cons.prems(1) i] c by blast
  then show ?case using Cons.IH [OF inv1 cs] i by simp
qed

subsection \<open>Stopping the watchers\<close>

definition rt_stop_inv :: "nat \<Rightarrow> nat list \<Rightarrow> rtest \<Rightarrow> bool" where
  "rt_stop_inv n wis t \<longleftrightarrow>
     rt_sys t \<in> reachable idForInfo
     \<and> store_view (sm_all (sys_sm (rt_sys t))) = respondView (length respondTestChanges)
     \<and> length (sm_watchers (sys_sm (rt_sys t))) = n \<and> length (rt_reqs t) = n \<and> set wis \<subseteq> {..<n}
     \<and> (\<forall>wi < n. if wi \<in> set wis
          then \<not> w_stopped (sm_watchers (sys_sm (rt_sys t)) ! wi)
            \<and> sm_waiting (sys_sm (rt_sys t)) wi = (case rt_reqs t ! wi of None \<Rightarrow> [] | Some r \<Rightarrow> [r])
            \<and> (\<forall>r. rt_reqs t ! wi = Some r \<longrightarrow> replies_to (sys_sm (rt_sys t)) wi r = [])
          else w_stopped (sm_watchers (sys_sm (rt_sys t)) ! wi))"

lemma rt_inv_stop_inv:
  "rt_inv n (length respondTestChanges) t \<Longrightarrow> rt_stop_inv n [0..<n] t"
  by (auto simp: rt_inv_def rt_stop_inv_def)

lemma rt_stop_step:
  assumes inv: "rt_stop_inv n (wi # wis) t" and d: "distinct (wi # wis)"
  shows "\<exists>s. sys_step idForInfo (SysStop wi) (rt_sys t) = Some s
     \<and> (\<forall>r. rt_reqs t ! wi = Some r \<longrightarrow> assertReplied False wi r (sys_sm s))
     \<and> rt_stop_inv n wis (t\<lparr>rt_sys := s\<rparr>)"
proof -
  let ?s = "rt_sys t" and ?sm = "sys_sm (rt_sys t)"
  have r: "?s \<in> reachable idForInfo" and lw: "length (sm_watchers ?sm) = n" and wi: "wi < n"
    and live: "\<not> w_stopped (sm_watchers ?sm ! wi)"
    and wt: "sm_waiting ?sm wi = (case rt_reqs t ! wi of None \<Rightarrow> [] | Some r \<Rightarrow> [r])"
    and nr: "\<forall>r. rt_reqs t ! wi = Some r \<longrightarrow> replies_to ?sm wi r = []"
    using inv by (auto simp: rt_stop_inv_def)
  have ok: "op_ok idForInfo (SysStop wi) ?s" using wi lw by simp
  obtain s where st: "sys_step idForInfo (SysStop wi) ?s = Some s"
    using reachable_steps_succeed [OF r ok] by blast
  obtain st' where lv: "leave (sm_watchers ?sm ! wi) (sm_all ?sm) = Some st'"
    and s: "s = ?s\<lparr>sys_sm := ?sm\<lparr>sm_all := st',
             sm_watchers := (sm_watchers ?sm)[wi := (sm_watchers ?sm ! wi)\<lparr>w_stopped := True\<rparr>],
             sm_waiting := (sm_waiting ?sm)(wi := []),
             sm_replies := sm_replies ?sm @ map (\<lambda>r. (wi, r, Reply False [])) (sm_waiting ?sm wi)\<rparr>\<rparr>"
    using st wi lw live by (auto simp: handle_def split: option.splits)
  have r': "s \<in> reachable idForInfo" by (rule reachable.step [OF r ok st])
  have sv': "store_view (sm_all (sys_sm s)) = store_view (sm_all ?sm)"
    using store_view_sys_step [OF reachable_sys_inv [OF r] ok st] by (simp add: sys_changes_def)
  have rep: "replies_to (sys_sm s) w r = replies_to ?sm w r @ (if w = wi \<and> r \<in> set (sm_waiting ?sm wi) then [Reply False []] else [])"
    for w r using wt by (auto simp: s replies_to_def split: option.splits)
  have "\<forall>r. rt_reqs t ! wi = Some r \<longrightarrow> assertReplied False wi r (sys_sm s)"
    using nr wt rep by (simp add: assertReplied_def)
  moreover have "rt_stop_inv n wis (t\<lparr>rt_sys := s\<rparr>)"
    using inv d r' sv' rep wi lw by (auto simp: rt_stop_inv_def s nth_list_update)
  ultimately show ?thesis using st by blast
qed

lemma rt_stop_ok:
  "rt_stop_inv n wis t \<Longrightarrow> distinct wis \<Longrightarrow>
   \<exists>t'. rt_stop wis t = Some t' \<and> rt_stop_inv n [] t'"
proof (induction wis arbitrary: t)
  case Nil
  then show ?case by simp
next
  case (Cons wi wis)
  obtain s where st: "sys_step idForInfo (SysStop wi) (rt_sys t) = Some s"
    and rp: "\<forall>r. rt_reqs t ! wi = Some r \<longrightarrow> assertReplied False wi r (sys_sm s)"
    and inv': "rt_stop_inv n wis (t\<lparr>rt_sys := s\<rparr>)"
    using rt_stop_step [OF Cons.prems] by blast
  obtain t' where "rt_stop wis (t\<lparr>rt_sys := s\<rparr>) = Some t'" "rt_stop_inv n [] t'"
    using Cons.IH [OF inv'] Cons.prems(2) by auto
  then show ?case using st rp by (auto simp del: sys_step.simps split: option.splits)
qed

lemma respondView_final:
  "respondView (length respondTestChanges) = (6, [\<lparr>kind = ''machine'', ident = ''2''\<rparr> \<mapsto> (3, 3, MachineInfo ''2'' '''')])"
  using respondTestChanges_view by (simp add: respondView_def)

lemma respondResultsRun_ok: "respondResultsRun ns"
proof -
  obtain t0 where i0: "rt_init (length ns) = Some t0" and inv0: "rt_inv (length ns) 0 t0"
    using rt_init_inv by blast
  obtain t where ch: "rt_changes 0 ns respondTestChanges t0 = Some t"
    and inv: "rt_inv (length ns) (length respondTestChanges) t"
    using rt_changes_inv [OF inv0, of respondTestChanges] by auto
  obtain t' where stp: "rt_stop [0..<length ns] t = Some t'" and sinv: "rt_stop_inv (length ns) [] t'"
    using rt_stop_ok [OF rt_inv_stop_inv [OF inv] distinct_upt] by blast
  have r: "rt_sys t' \<in> reachable idForInfo"
    and sv: "store_view (sm_all (sys_sm (rt_sys t'))) = respondView (length respondTestChanges)"
    and all: "\<forall>w \<in> set (sm_watchers (sys_sm (rt_sys t'))). w_stopped w"
    using sinv by (auto simp: rt_stop_inv_def in_set_conv_nth)
  have "assertStoreContents (sm_all (sys_sm (rt_sys t'))) respondTestFinalRevno respondTestFinalState"
    using stopped_final_contents [OF r _ all] sv respondView_final by simp
  then show ?thesis using i0 ch stp by (simp add: respondResultsRun_def)
qed

text \<open>
  C10. \<open>TestRespondResults\<close> passes: for every pair of request patterns the test
  enumerates, and indeed for any number of watchers with any patterns, every
  assertion of the test holds (the pending requests before each \<open>respond\<close>, every
  reply \<open>true\<close> with at least one change, every client's view equal to the store's
  live entities, the \<open>false\<close> replies at the stop, and the final store contents),
  and nothing panics.
\<close>

theorem TestRespondResults_pass: "TestRespondResults \<and> (\<forall>ns. respondResultsRun ns)"
  by (simp add: TestRespondResults_def list_all_iff respondResultsRun_ok)

end
