(* ===== verification/RespondOrder.thy ===== *)
theory RespondOrder
  imports System "HOL-Library.Multiset"
begin

text \<open>
  \<open>StoreManager.respond\<close> ranges over the map \<open>sm.waiting\<close>, whose iteration order Go
  leaves unspecified; the model serves the watchers in ascending order. This theory
  shows the choice is immaterial: serving the watchers in any order gives the same
  store, watchers and pending requests, and the same replies up to their order. The
  reason is that \<open>seen\<close> of one watcher changes only reference counts, and deletes only
  tombstones that no other watcher counts, which no other watcher's \<open>ChangesSince\<close>
  would report.
\<close>

subsection \<open>\<open>seen\<close> on the store\<close>

lemma put_all_list:
  "distinct (map fst es) \<Longrightarrow>
   store_list (put_all res es st) =
     filter (\<lambda>k. case map_of es k of None \<Rightarrow> True | Some e \<Rightarrow> res k e \<noteq> None) (store_list st)"
proof (induction es arbitrary: st)
  case Nil
  then show ?case by simp
next
  case (Cons x es)
  obtain a b where x: "x = (a, b)" by fastforce
  have "a \<notin> set (map fst es)" and d: "distinct (map fst es)" using Cons.prems x by auto
  then have "map_of es a = None" by (simp add: map_of_eq_None_iff)
  then show ?case using Cons.IH [OF d, of "put_entry a (res a b) st"] x
    by (auto simp: put_entry_def store_delete_def set_entry_def filter_filter
        intro!: filter_cong split: option.splits)
qed

lemma seen_list:
  assumes sinv: "store_inv st" and s: "seen r st = Some st'"
  shows "store_list st' = filter (\<lambda>k. entities st' k \<noteq> None) (store_list st)"
proof -
  let ?es = "takeWhile (\<lambda>x. r < revno (snd x)) (rev (entries st))"
  note es = newer_entries [OF sinv, of r]
  have st': "st' = put_all (\<lambda>k e. seen_res r e) ?es st"
    using s foreach_entry_local [OF seen_step_local es(1) es(2)] by (simp add: seen_def split: if_splits)
  have dom: "k \<in> set (store_list st) \<Longrightarrow> entities st k \<noteq> None" for k
    using sinv by (auto simp: store_inv_def)
  show ?thesis
    unfolding st' put_all_list [OF es(1)] entities_put_all [OF es(1)]
    using dom by (auto intro!: filter_cong split: option.splits)
qed

definition seen_at :: "revno \<Rightarrow> 'info entity_entry \<Rightarrow> 'info entity_entry option" where
  "seen_at r e = (if r < revno e then seen_res r e else Some e)"

lemma seen_entities_at:
  "store_inv st \<Longrightarrow> seen r st = Some st' \<Longrightarrow> entities st' k = Option.bind (entities st k) (seen_at r)"
  by (simp add: seen_entities seen_at_def split: option.splits)

lemma seen_at_fields:
  "seen_at r e = Some e' \<Longrightarrow>
     revno e' = revno e \<and> creationRevno e' = creationRevno e \<and> removed e' = removed e \<and> info e' = info e"
  by (auto simp: seen_at_def seen_res_def dec_res_def Let_def split: if_splits)

lemma seen_at_comm:
  assumes "removed e \<Longrightarrow> r1 < revno e \<Longrightarrow> creationRevno e \<le> r1 \<Longrightarrow> r2 < revno e \<Longrightarrow> creationRevno e \<le> r2
             \<Longrightarrow> 2 \<le> refCount e"
  shows "Option.bind (seen_at r1 e) (seen_at r2) = Option.bind (seen_at r2 e) (seen_at r1)"
  using assms by (auto simp: seen_at_def seen_res_def dec_res_def Let_def)

lemma seen_comm:
  assumes sinv: "store_inv st" "store_inv st1" "store_inv st2"
    and s1: "seen r1 st = Some st1" and s12: "seen r2 st1 = Some st12"
    and s2: "seen r2 st = Some st2" and s21: "seen r1 st2 = Some st21"
    and two: "\<And>k e. entities st k = Some e \<Longrightarrow> removed e \<Longrightarrow> r1 < revno e \<Longrightarrow> creationRevno e \<le> r1 \<Longrightarrow>
                  r2 < revno e \<Longrightarrow> creationRevno e \<le> r2 \<Longrightarrow> 2 \<le> refCount e"
  shows "st12 = st21"
proof -
  have ent: "entities st12 k = entities st21 k" for k
  proof (cases "entities st k")
    case (Some e)
    then show ?thesis
      using seen_at_comm [of e r1 r2] two [OF Some]
      by (simp add: seen_entities_at [OF sinv(2) s12] seen_entities_at [OF sinv(1) s1]
          seen_entities_at [OF sinv(3) s21] seen_entities_at [OF sinv(1) s2])
  next
    case None
    then show ?thesis
      by (simp add: seen_entities_at [OF sinv(2) s12] seen_entities_at [OF sinv(1) s1]
          seen_entities_at [OF sinv(3) s21] seen_entities_at [OF sinv(1) s2])
  qed
  have keep1: "entities st12 k \<noteq> None \<Longrightarrow> entities st1 k \<noteq> None" for k
    by (cases "entities st1 k") (auto simp: seen_entities_at [OF sinv(2) s12])
  have keep2: "entities st21 k \<noteq> None \<Longrightarrow> entities st2 k \<noteq> None" for k
    by (cases "entities st2 k") (auto simp: seen_entities_at [OF sinv(3) s21])
  have l12: "store_list st12 = filter (\<lambda>k. entities st12 k \<noteq> None) (store_list st)"
    using seen_list [OF sinv(2) s12] seen_list [OF sinv(1) s1] keep1 by (auto simp: filter_filter intro!: filter_cong)
  have l21: "store_list st21 = filter (\<lambda>k. entities st21 k \<noteq> None) (store_list st)"
    using seen_list [OF sinv(3) s21] seen_list [OF sinv(1) s2] keep2 by (auto simp: filter_filter intro!: filter_cong)
  have "latestRevno st12 = latestRevno st21"
    using seen_latestRevno [OF s1] seen_latestRevno [OF s12] seen_latestRevno [OF s2] seen_latestRevno [OF s21]
    by simp
  moreover have "entities st12 = entities st21" using ent by (simp add: fun_eq_iff)
  ultimately show ?thesis using l12 l21 by (intro store.equality) simp_all
qed

lemma map_filter_entries_in:
  assumes "\<forall>k \<in> set xs. case m' k of
              None \<Rightarrow> (case m k of None \<Rightarrow> True | Some e \<Rightarrow> \<not> P e)
            | Some e' \<Rightarrow> (\<exists>e. m k = Some e \<and> f e' = f e \<and> P e' = P e)"
  shows "map (f \<circ> snd) (filter (P \<circ> snd) (entries_in m' (filter (\<lambda>k. m' k \<noteq> None) xs)))
       = map (f \<circ> snd) (filter (P \<circ> snd) (entries_in m xs))"
  using assms by (induction xs) (auto split: option.splits)

lemma seen_ChangesSince:
  assumes sinv: "store_inv st" "store_inv st'" and s: "seen r' st = Some st'"
    and hid: "\<And>k e. entities st k = Some e \<Longrightarrow> seen_at r' e = None \<Longrightarrow> \<not> (r < revno e \<and> visible_to r e)"
  shows "ChangesSince r st' = ChangesSince r st"
proof -
  let ?P = "\<lambda>e. r < revno e \<and> visible_to r e"
  have kept: "\<forall>k \<in> set (store_list st). case entities st' k of
              None \<Rightarrow> (case entities st k of None \<Rightarrow> True | Some e \<Rightarrow> \<not> ?P e)
            | Some e' \<Rightarrow> (\<exists>e. entities st k = Some e \<and> to_delta e' = to_delta e \<and> ?P e' = ?P e)"
  proof
    fix k assume "k \<in> set (store_list st)"
    show "case entities st' k of
              None \<Rightarrow> (case entities st k of None \<Rightarrow> True | Some e \<Rightarrow> \<not> ?P e)
            | Some e' \<Rightarrow> (\<exists>e. entities st k = Some e \<and> to_delta e' = to_delta e \<and> ?P e' = ?P e)"
    proof (cases "entities st k")
      case (Some e)
      show ?thesis
      proof (cases "seen_at r' e")
        case None
        then show ?thesis using hid [OF Some None] Some by (simp add: seen_entities_at [OF sinv(1) s])
      next
        case (Some e')
        note f = seen_at_fields [OF Some]
        have "to_delta e' = to_delta e" "?P e' = ?P e" using f by (simp_all add: to_delta_def visible_to_def)
        then show ?thesis using Some \<open>entities st k = Some e\<close> by (simp add: seen_entities_at [OF sinv(1) s])
      qed
    qed (simp add: seen_entities_at [OF sinv(1) s])
  qed
  have "changes_since_spec r st' = changes_since_spec r st"
    using map_filter_entries_in [where f = to_delta, OF kept]
    by (simp add: changes_since_spec_def entries_def seen_list [OF sinv(1) s] comp_def)
  then show ?thesis by (simp add: ChangesSince_eq_spec [OF sinv(1)] ChangesSince_eq_spec [OF sinv(2)])
qed

subsection \<open>Two turns of \<open>respond\<close> commute\<close>

text \<open>Managers that differ at most in the order of the replies sent.\<close>

definition same_replies :: "('k, 'info) manager \<Rightarrow> ('k, 'info) manager \<Rightarrow> bool" where
  "same_replies sm1 sm2 \<longleftrightarrow>
     sm1\<lparr>sm_replies := []\<rparr> = sm2\<lparr>sm_replies := []\<rparr> \<and> mset (sm_replies sm1) = mset (sm_replies sm2)"

lemma respond_one_idle: "\<not> served sm j \<Longrightarrow> respond_one j sm = Some sm"
  by (auto simp: served_def respond_one_def Let_def split: list.splits)

lemma respond_one_serve:
  assumes "served sm j" and "seen (w_revno (sm_watchers sm ! j)) (sm_all sm) = Some st'"
  shows "respond_one j sm = Some (sm\<lparr>sm_all := st',
           sm_watchers := (sm_watchers sm)[j := (sm_watchers sm ! j)\<lparr>w_revno := latestRevno (sm_all sm)\<rparr>],
           sm_waiting := (sm_waiting sm)(j := tl (sm_waiting sm j)),
           sm_replies := sm_replies sm @ [(j, hd (sm_waiting sm j),
                           Reply True (ChangesSince (w_revno (sm_watchers sm ! j)) (sm_all sm)))]\<rparr>)"
  using assms by (auto simp: served_def respond_one_def Let_def neq_Nil_conv)

lemma respond_one_seen:
  assumes "mgr_inv sm" and "served sm j"
  shows "\<exists>st'. seen (w_revno (sm_watchers sm ! j)) (sm_all sm) = Some st' \<and> store_inv st'"
proof -
  have "j < length (sm_watchers sm)" "\<not> w_stopped (sm_watchers sm ! j)"
    using assms by (auto simp: served_def mgr_inv_def)
  then show ?thesis using seen_keeps_counts [OF assms(1)] by blast
qed

lemma seen_deletes_alone:
  assumes inv: "mgr_inv sm" and i: "i < length (sm_watchers sm)" and j: "j < length (sm_watchers sm)"
    and ij: "i \<noteq> j" and li: "\<not> w_stopped (sm_watchers sm ! i)" and lj: "\<not> w_stopped (sm_watchers sm ! j)"
    and e: "entities (sm_all sm) k = Some e" and del: "seen_at (w_revno (sm_watchers sm ! i)) e = None"
  shows "\<not> (w_revno (sm_watchers sm ! j) < revno e \<and> visible_to (w_revno (sm_watchers sm ! j)) e)"
proof -
  let ?ri = "w_revno (sm_watchers sm ! i)" and ?rj = "w_revno (sm_watchers sm ! j)"
  have lt: "?ri < revno e" and sr: "seen_res ?ri e = None" using del by (auto simp: seen_at_def split: if_splits)
  then have rm: "removed e" "creationRevno e \<le> ?ri" "refCount e = 1" using seen_res_shape(2) by blast+
  have "counts (sm_watchers sm ! i) e" using li lt rm by (simp add: counts_def)
  then have "\<not> counts (sm_watchers sm ! j) e" using counted_alone [OF inv e rm(3) i _ j] ij by blast
  then show ?thesis using lj rm(1) by (auto simp: counts_def visible_to_def)
qed

lemma two_deleters:
  assumes inv: "mgr_inv sm" and i: "i < length (sm_watchers sm)" and j: "j < length (sm_watchers sm)"
    and ij: "i \<noteq> j" and li: "\<not> w_stopped (sm_watchers sm ! i)" and lj: "\<not> w_stopped (sm_watchers sm ! j)"
    and e: "entities (sm_all sm) k = Some e" and rm: "removed e"
    and "w_revno (sm_watchers sm ! i) < revno e" "creationRevno e \<le> w_revno (sm_watchers sm ! i)"
    and "w_revno (sm_watchers sm ! j) < revno e" "creationRevno e \<le> w_revno (sm_watchers sm ! j)"
  shows "2 \<le> refCount e"
proof -
  have "counts (sm_watchers sm ! i) e" "counts (sm_watchers sm ! j) e"
    using assms by (auto simp: counts_def)
  then have "2 \<le> holders (sm_watchers sm) e" by (rule holders_two [OF i j ij])
  moreover have "(k, e) \<in> set (entries (sm_all sm))"
    using e store_inv_entries_iff [of "sm_all sm" "(k, e)"] inv by (simp add: mgr_inv_def)
  ultimately show ?thesis using inv by (auto simp: mgr_inv_def)
qed

lemma served_other:
  assumes "respond_one i sm = Some a" and "i \<noteq> j"
  shows "served a j = served sm j" and "sm_watchers a ! j = sm_watchers sm ! j"
    and "sm_waiting a j = sm_waiting sm j" and "latestRevno (sm_all a) = latestRevno (sm_all sm)"
  using respond_one_other [OF assms(1) assms(2) [symmetric]] by (simp_all add: served_def)

lemma respond_one_comm_served:
  assumes inv: "mgr_inv sm" and ij: "i \<noteq> j" and si: "served sm i" and sj: "served sm j"
    and a: "respond_one i sm = Some a" and b: "respond_one j a = Some b"
    and c: "respond_one j sm = Some c" and d: "respond_one i c = Some d"
  shows "same_replies b d"
proof -
  let ?ws = "sm_watchers sm" and ?st = "sm_all sm" and ?L = "latestRevno (sm_all sm)"
  let ?ri = "w_revno (?ws ! i)" and ?rj = "w_revno (?ws ! j)"
  have sinv: "store_inv ?st" using inv by (simp add: mgr_inv_def)
  have i: "i < length ?ws" "\<not> w_stopped (?ws ! i)" and j: "j < length ?ws" "\<not> w_stopped (?ws ! j)"
    using inv si sj by (auto simp: served_def mgr_inv_def)
  obtain st1 where s1: "seen ?ri ?st = Some st1" and sinv1: "store_inv st1" using respond_one_seen [OF inv si] by blast
  obtain st2 where s2: "seen ?rj ?st = Some st2" and sinv2: "store_inv st2" using respond_one_seen [OF inv sj] by blast
  have a': "a = sm\<lparr>sm_all := st1, sm_watchers := ?ws[i := (?ws ! i)\<lparr>w_revno := ?L\<rparr>],
           sm_waiting := (sm_waiting sm)(i := tl (sm_waiting sm i)),
           sm_replies := sm_replies sm @ [(i, hd (sm_waiting sm i), Reply True (ChangesSince ?ri ?st))]\<rparr>"
    using respond_one_serve [OF si s1] a by simp
  have c': "c = sm\<lparr>sm_all := st2, sm_watchers := ?ws[j := (?ws ! j)\<lparr>w_revno := ?L\<rparr>],
           sm_waiting := (sm_waiting sm)(j := tl (sm_waiting sm j)),
           sm_replies := sm_replies sm @ [(j, hd (sm_waiting sm j), Reply True (ChangesSince ?rj ?st))]\<rparr>"
    using respond_one_serve [OF sj s2] c by simp
  have inva: "mgr_inv a" and invc: "mgr_inv c"
    using respond_one_inv [OF inv, of i] respond_one_inv [OF inv, of j] a c by auto
  have saj: "served a j" and sci: "served c i"
    using served_other(1) [OF a ij] served_other(1) [OF c ij [symmetric]] si sj by simp_all
  obtain st12 where s12: "seen ?rj st1 = Some st12"
    using respond_one_seen [OF inva saj] a' ij by auto
  obtain st21 where s21: "seen ?ri st2 = Some st21"
    using respond_one_seen [OF invc sci] c' ij by auto
  have st: "st12 = st21"
    by (rule seen_comm [OF sinv sinv1 sinv2 s1 s12 s2 s21])
       (rule two_deleters [OF inv i(1) j(1) ij i(2) j(2)], assumption+)
  have cs_j: "ChangesSince ?rj st1 = ChangesSince ?rj ?st"
    by (rule seen_ChangesSince [OF sinv sinv1 s1])
       (rule seen_deletes_alone [OF inv i(1) j(1) ij i(2) j(2)], assumption+)
  have cs_i: "ChangesSince ?ri st2 = ChangesSince ?ri ?st"
    by (rule seen_ChangesSince [OF sinv sinv2 s2])
       (rule seen_deletes_alone [OF inv j(1) i(1) ij [symmetric] j(2) i(2)], assumption+)
  have lat1: "latestRevno st1 = ?L" and lat2: "latestRevno st2 = ?L"
    using seen_latestRevno [OF s1] seen_latestRevno [OF s2] by simp_all
  have b': "b = a\<lparr>sm_all := st12, sm_watchers := (sm_watchers a)[j := (?ws ! j)\<lparr>w_revno := ?L\<rparr>],
           sm_waiting := (sm_waiting a)(j := tl (sm_waiting sm j)),
           sm_replies := sm_replies a @ [(j, hd (sm_waiting sm j), Reply True (ChangesSince ?rj ?st))]\<rparr>"
    using respond_one_serve [OF saj] s12 b a' ij lat1 cs_j by simp
  have d': "d = c\<lparr>sm_all := st21, sm_watchers := (sm_watchers c)[i := (?ws ! i)\<lparr>w_revno := ?L\<rparr>],
           sm_waiting := (sm_waiting c)(i := tl (sm_waiting sm i)),
           sm_replies := sm_replies c @ [(i, hd (sm_waiting sm i), Reply True (ChangesSince ?ri ?st))]\<rparr>"
    using respond_one_serve [OF sci] s21 d c' ij lat2 cs_i by simp
  show ?thesis
    using ij by (simp add: same_replies_def a' b' c' d' st list_update_swap fun_upd_twist)
qed

lemma same_replies_refl [simp]: "same_replies sm sm"
  by (simp add: same_replies_def)

lemma same_replies_sym: "same_replies a b \<Longrightarrow> same_replies b a"
  by (simp add: same_replies_def)

lemma same_replies_trans: "same_replies a b \<Longrightarrow> same_replies b c \<Longrightarrow> same_replies a c"
  by (simp add: same_replies_def)

lemma respond_one_comm:
  assumes inv: "mgr_inv sm" and ij: "i \<noteq> j"
    and a: "respond_one i sm = Some a" and b: "respond_one j a = Some b"
    and c: "respond_one j sm = Some c" and d: "respond_one i c = Some d"
  shows "same_replies b d"
proof (cases "served sm i")
  case False
  then have "a = sm" "d = c"
    using a d respond_one_idle [OF False] respond_one_idle [of c i] served_other(1) [OF c ij [symmetric]] by auto
  then show ?thesis using b c by simp
next
  case si: True
  show ?thesis
  proof (cases "served sm j")
    case False
    then have "c = sm" "b = a"
      using c b respond_one_idle [OF False] respond_one_idle [of a j] served_other(1) [OF a ij] by auto
    then show ?thesis using a d by simp
  next
    case True
    then show ?thesis by (rule respond_one_comm_served [OF inv ij si _ a b c d])
  qed
qed

lemma same_replies_eq: "same_replies sm1 sm2 \<Longrightarrow> sm2 = sm1\<lparr>sm_replies := sm_replies sm2\<rparr>"
  by (simp add: same_replies_def) (metis manager.update_convs(4) manager.surjective)

lemma mgr_inv_replies [simp]: "mgr_inv (sm\<lparr>sm_replies := R\<rparr>) = mgr_inv sm"
  by (simp add: mgr_inv_def)

lemma respond_one_replies:
  "respond_one j sm = Some a \<Longrightarrow>
   \<exists>new. sm_replies a = sm_replies sm @ new
     \<and> respond_one j (sm\<lparr>sm_replies := R\<rparr>) = Some (a\<lparr>sm_replies := R @ new\<rparr>)"
  by (auto simp: respond_one_def Let_def split: list.splits if_splits option.splits)

lemma respond_one_same:
  assumes "same_replies sm1 sm2" and "respond_one j sm1 = Some a1" and "respond_one j sm2 = Some a2"
  shows "same_replies a1 a2"
proof -
  obtain new where n: "sm_replies a1 = sm_replies sm1 @ new"
    and r: "respond_one j (sm1\<lparr>sm_replies := sm_replies sm2\<rparr>) = Some (a1\<lparr>sm_replies := sm_replies sm2 @ new\<rparr>)"
    using respond_one_replies [OF assms(2)] by blast
  have "a2 = a1\<lparr>sm_replies := sm_replies sm2 @ new\<rparr>"
    using r assms(3) same_replies_eq [OF assms(1)] by simp
  then show ?thesis using assms(1) n by (simp add: same_replies_def)
qed

subsection \<open>Any order of the watchers\<close>

lemma respond_loop_append:
  "respond_loop (xs @ ys) sm = Option.bind (respond_loop xs sm) (respond_loop ys)"
  by (induction xs arbitrary: sm) (auto split: option.splits)

lemma respond_loop_same:
  "same_replies sm1 sm2 \<Longrightarrow> respond_loop js sm1 = Some a \<Longrightarrow> respond_loop js sm2 = Some b \<Longrightarrow>
   same_replies a b"
proof (induction js arbitrary: sm1 sm2)
  case Nil
  then show ?case by simp
next
  case (Cons j js)
  obtain a1 a2 where r1: "respond_one j sm1 = Some a1" and r2: "respond_one j sm2 = Some a2"
    and l1: "respond_loop js a1 = Some a" and l2: "respond_loop js a2 = Some b"
    using Cons.prems(2,3) by (auto split: option.splits)
  show ?case by (rule Cons.IH [OF respond_one_same [OF Cons.prems(1) r1 r2] l1 l2])
qed

lemma respond_loop_to_front:
  "mgr_inv sm \<Longrightarrow> j \<notin> set js \<Longrightarrow> respond_loop (js @ [j]) sm = Some a \<Longrightarrow> respond_loop (j # js) sm = Some b \<Longrightarrow>
   same_replies a b"
proof (induction js arbitrary: sm a b)
  case Nil
  then show ?case by simp
next
  case (Cons x xs)
  have xj: "x \<noteq> j" and jn: "j \<notin> set xs" using Cons.prems(2) by auto
  obtain sx where rx: "respond_one x sm = Some sx" and invx: "mgr_inv sx"
    using respond_one_inv [OF Cons.prems(1), of x] by blast
  obtain sj where rj: "respond_one j sm = Some sj" and invj: "mgr_inv sj"
    using respond_one_inv [OF Cons.prems(1), of j] by blast
  obtain sxj where rxj: "respond_one j sx = Some sxj" and invxj: "mgr_inv sxj"
    using respond_one_inv [OF invx, of j] by blast
  obtain sjx where rjx: "respond_one x sj = Some sjx"
    using respond_one_inv [OF invj, of x] by blast
  have la: "respond_loop (xs @ [j]) sx = Some a" using Cons.prems(3) rx by simp
  obtain c where lc: "respond_loop xs sxj = Some c" using respond_loop_inv [OF invxj, of xs] by blast
  have ac: "same_replies a c" using Cons.IH [OF invx jn la] lc rxj by simp
  have lb: "respond_loop xs sjx = Some b" using Cons.prems(4) rj rjx by simp
  have "same_replies sxj sjx" by (rule respond_one_comm [OF Cons.prems(1) xj rx rxj rj rjx])
  then have "same_replies c b" by (rule respond_loop_same [OF _ lc lb])
  with ac show ?case by (rule same_replies_trans)
qed

lemma respond_loop_perm:
  "mgr_inv sm \<Longrightarrow> distinct js \<Longrightarrow> mset js = mset js' \<Longrightarrow>
   respond_loop js sm = Some a \<Longrightarrow> respond_loop js' sm = Some b \<Longrightarrow> same_replies a b"
proof (induction js arbitrary: js' sm a b)
  case Nil
  then show ?case by simp
next
  case (Cons x xs)
  have "x \<in> set js'" using Cons.prems(3) by (metis list.set_intros(1) set_mset_mset)
  then obtain ys zs where js': "js' = ys @ x # zs" by (meson split_list)
  have d: "distinct xs" and xn: "x \<notin> set xs" using Cons.prems(2) by auto
  have m: "mset xs = mset (ys @ zs)" using Cons.prems(3) js' by simp
  then have xy: "x \<notin> set ys" using xn by (metis Un_iff set_append set_mset_mset)
  obtain sx where rx: "respond_one x sm = Some sx" and invx: "mgr_inv sx"
    using respond_one_inv [OF Cons.prems(1), of x] by blast
  obtain p where p: "respond_loop (ys @ [x]) sm = Some p" using respond_loop_inv [OF Cons.prems(1)] by blast
  obtain q where q: "respond_loop (x # ys) sm = Some q" using respond_loop_inv [OF Cons.prems(1)] by blast
  have pq: "same_replies p q" by (rule respond_loop_to_front [OF Cons.prems(1) xy p q])
  have b: "respond_loop zs p = Some b"
    using Cons.prems(5) js' p respond_loop_append [of "ys @ [x]" zs sm] by simp
  obtain c where c: "respond_loop zs q = Some c"
    using respond_loop_inv [OF Cons.prems(1), of "x # ys"] q respond_loop_inv by fastforce
  have bc: "same_replies b c" by (rule respond_loop_same [OF pq b c])
  have "respond_loop (ys @ zs) sx = Some c"
    using c q rx respond_loop_append [of ys zs sx] by simp
  moreover have "respond_loop xs sx = Some a" using Cons.prems(4) rx by simp
  ultimately have "same_replies a c" using Cons.IH [OF invx d m] by blast
  then show ?case using bc by (metis same_replies_sym same_replies_trans)
qed

lemma respond_loop_any_order:
  assumes inv: "mgr_inv sm" and r: "respond sm = Some sm0"
    and d: "distinct js" and js: "set js = set [0..<length (sm_watchers sm)]"
  shows "\<exists>sm'. respond_loop js sm = Some sm' \<and> same_replies sm' sm0"
proof -
  obtain sm' where l: "respond_loop js sm = Some sm'" using respond_loop_inv [OF inv] by blast
  have "mset js = mset [0..<length (sm_watchers sm)]"
    using d js by (metis distinct_upt set_eq_iff_mset_eq_distinct)
  then have "same_replies sm' sm0"
    by (rule respond_loop_perm [OF inv d _ l r [unfolded respond_def]])
  then show ?thesis using l by blast
qed

text \<open>
  C8. The order in which \<open>respond\<close> takes the watchers does not matter: in every
  reachable state of the system, serving the watchers in any order, as Go's iteration
  over the \<open>waiting\<close> map may, leaves the same store, watchers and pending requests as
  the \<open>respond\<close> step of the system, and sends the same replies, possibly in another
  order.
\<close>

theorem respond_any_order:
  assumes r: "s \<in> reachable idf" and st: "sys_step idf SysRespond s = Some s'"
    and d: "distinct js" and js: "set js = set [0..<length (sm_watchers (sys_sm s))]"
  shows "\<exists>sm'. respond_loop js (sys_sm s) = Some sm'
           \<and> sm'\<lparr>sm_replies := []\<rparr> = (sys_sm s')\<lparr>sm_replies := []\<rparr>
           \<and> mset (sm_replies sm') = mset (sm_replies (sys_sm s'))"
proof -
  have inv: "mgr_inv (sys_sm s)" using reachable_sys_inv [OF r] by (simp add: sys_inv_def)
  have "respond (sys_sm s) = Some (sys_sm s')"
    using respond_clients_manager st by (simp add: respond_def)
  then show ?thesis using respond_loop_any_order [OF inv _ d js] by (auto simp: same_replies_def)
qed

definition order_demo_run :: "(nat, nat) sys_op list" where
  "order_demo_run = [SysWatch, SysWatch, SysChange 1 (Some 1), SysNext 0 7, SysNext 1 8]"

theorem respond_any_order_witness:
  "\<exists>s s'. run_ops (\<lambda>x::nat. x) order_demo_run sys_init = Some s \<and> s \<in> reachable (\<lambda>x::nat. x)
     \<and> sys_step (\<lambda>x::nat. x) SysRespond s = Some s' \<and> distinct [1::nat, 0]
     \<and> set [1::nat, 0] = set [0..<length (sm_watchers (sys_sm s))]
     \<and> (\<exists>sm'. respond_loop [1, 0] (sys_sm s) = Some sm'
           \<and> sm'\<lparr>sm_replies := []\<rparr> = (sys_sm s')\<lparr>sm_replies := []\<rparr>
           \<and> mset (sm_replies sm') = mset (sm_replies (sys_sm s')))"
proof -
  obtain s where run: "run_ops (\<lambda>x::nat. x) order_demo_run sys_init = Some s"
    and w: "length (sm_watchers (sys_sm s)) = 2"
    by (simp add: order_demo_run_def sys_eval)
  have r: "s \<in> reachable (\<lambda>x::nat. x)" by (rule run_ops_reachable [OF reachable.init run])
  obtain s' where st: "sys_step (\<lambda>x::nat. x) SysRespond s = Some s'"
    using reachable_steps_succeed [OF r, of SysRespond] by auto
  have d: "distinct [1::nat, 0]" and js: "set [1::nat, 0] = set [0..<length (sm_watchers (sys_sm s))]"
    using w by auto
  show ?thesis using respond_any_order [OF r st d js] run r st d js by blast
qed

end
