(* ===== verification/Spec2Isabelle.thy ===== *)
theory Spec2Isabelle
  imports Prelude Store Manager Views System TestBacking Constraints Bootstrap StoreTests ManagerTests ConstraintsDoc RunLoop LoopStream Revival LoopSafety StateTests RespondTest RespondOrder
begin

text \<open>
  A verification development of the state layer of juju-core (louisdex/juju-core):
  the multiwatcher fan-out engine with its test harness, the hardware constraints
  value with its parser and its database form, and the ZooKeeper bootstrap handshake.

  \<^bold>\<open>The program and how its parts interact.\<close>
  \<^item> \<open>src/state/open.go\<close>, lines 1--132: \<open>Open\<close>, \<open>open\<close>, \<open>Initialize\<close>, \<open>initialize\<close>,
    \<open>initialized\<close>, \<open>waitForInitialization\<close> and \<open>Close\<close>, the handshake with the
    coordination store (theory \<open>Bootstrap\<close>).
  \<^item> \<open>src/state/open.go\<close>, lines 133--1081: the test suite of the multiwatcher engine:
    the store tests, the manager tests, \<open>TestRespondResults\<close>, the client view
    \<open>watcherState\<close>, and the test backing \<open>storeManagerTestBacking\<close> with its entity
    types. The engine itself (\<open>Store\<close>, \<open>StoreManager\<close>, \<open>Watcher\<close>) is not among the
    sources; theories \<open>Store\<close> and \<open>Manager\<close> model it from the specification, and the
    theories of the tests run the repository's own tests on that model.
  \<^item> \<open>src/state/constraints.go\<close>: \<open>Constraints\<close>, \<open>String\<close>, \<open>ParseConstraints\<close>, the
    setters and \<open>parseUint64\<close> (theory \<open>Constraints\<close>), and the database document with
    \<open>readConstraints\<close> and \<open>writeConstraints\<close> (theory \<open>ConstraintsDoc\<close>).
  The engine's data flow: the backing's \<open>Changed\<close> turns a raw change into a store
  \<open>Update\<close>; \<open>handle\<close> queues a watcher's \<open>Next\<close> request or stops the watcher (\<open>leave\<close>);
  \<open>respond\<close> answers the newest pending request of every watcher behind the store with
  \<open>ChangesSince\<close> of its revision and adjusts the reference counts (\<open>seen\<close>); the client
  applies the deltas to its \<open>watcherState\<close>.

  \<^bold>\<open>Theories and definitions.\<close>
  \<^item> \<open>Prelude\<close>: the type \<open>revno\<close>, the collections \<open>store_defs\<close> and \<open>inv_defs\<close>, generic
    list lemmas.
  \<^item> \<open>Store\<close>: record \<open>store\<close> (\<open>latestRevno\<close>, the map \<open>entities\<close>, the list \<open>store_list\<close>
    oldest first), \<open>NewStore\<close>, \<open>store_add\<close>, \<open>store_delete\<close>, \<open>Update\<close>, \<open>decRef\<close>,
    \<open>ChangesSince\<close>; the invariant \<open>store_inv\<close> (spec invariants 1--3) and its
    preservation by every operation; \<open>ChangesSince\<close> against the filter
    \<open>changes_since_spec\<close>.
  \<^item> \<open>Manager\<close>: records \<open>watcher\<close> and \<open>manager\<close> (the store, the watchers, the pending
    requests of each watcher newest first, the replies sent), \<open>handle\<close>, \<open>seen\<close>,
    \<open>leave\<close>, \<open>respond_one\<close>, \<open>respond\<close>; the reference-count invariant \<open>mgr_inv\<close> (spec
    invariant 4: \<open>refCount\<close> is the number of \<open>holders\<close>) kept by every operation.
  \<^item> \<open>Views\<close>: \<open>watcherState_update\<close>, \<open>watcherState_check\<close> and \<open>deltaMap\<close> of the tests;
    \<open>view_ok\<close>, the relation between a watcher, its view and the store.
  \<^item> \<open>System\<close>: \<open>TestRespondResults\<close> generalised: a state of the manager and one view
    per watcher, \<open>sys_step\<close> over store changes, new watchers, \<open>Next\<close>, \<open>Stop\<close> and
    \<open>respond\<close> followed by the clients' updates, and the inductive set \<open>reachable\<close> of
    every interleaving; the invariant \<open>sys_inv\<close> holds in every reachable state.
  \<^item> \<open>TestBacking\<close>: \<open>storeManagerTestBacking\<close>, \<open>fetch\<close>, \<open>Changed\<close>, \<open>GetAll\<close>,
    \<open>updateEntity\<close>, \<open>deleteEntity\<close>, \<open>Watch\<close>, \<open>Unwatch\<close> and the entity types.
  \<^item> \<open>StoreTests\<close>, \<open>ManagerTests\<close>: the tests \<open>TestStoreChangeMethods\<close>,
    \<open>TestChangesSince\<close>, \<open>TestHandle\<close>, the four \<open>TestHandleStop\<close> tests and
    \<open>TestRespondMultiple\<close> as boolean definitions over command sequences, with the
    assertion helpers \<open>assertStoreContents\<close>, \<open>assertReplied\<close>,
    \<open>assertWaitingRequests\<close>.
  \<^item> \<open>Constraints\<close>: the Go library functions the parser rests on (\<open>TrimSpace\<close>,
    \<open>Split\<close>, \<open>Join\<close>, \<open>Index\<close>, \<open>Atoi\<close>, \<open>ParseFloat\<close>, \<open>fmt %d\<close>), record
    \<open>constraints\<close> with \<open>64 word\<close> counts, \<open>Constraints_String\<close>, \<open>setRaw\<close> and the
    setters, \<open>ParseConstraints\<close>.
  \<^item> \<open>ConstraintsDoc\<close>: \<open>constraintsDoc\<close>, \<open>createConstraintsOp\<close>, \<open>readConstraints\<close>,
    \<open>writeConstraints\<close> over a model of the collection and of the \<open>mgo/txn\<close> runner.
  \<^item> \<open>Bootstrap\<close>: the ZooKeeper calls over an environment of outcomes (\<open>zk_env\<close>) and a
    world of nodes and open connections (\<open>zk_world\<close>); \<open>open_state\<close>, \<open>initialize\<close>,
    \<open>waitForInitialization\<close>, \<open>Open\<close>, \<open>Initialize\<close>. While \<open>waitForInitialization\<close>
    waits on its \<open>ExistsW\<close> watch, the other clients change the node tree by a
    parameter \<open>others\<close>; the watch fires exactly when \<open>/initialized\<close> is then in the
    tree, a session event comes first when the environment says the session fails,
    and the timer fires otherwise.
  \<^item> \<open>RunLoop\<close>: the manager's run loop (\<open>NewStoreManager\<close>, \<open>loop_change\<close>,
    \<open>loop_request\<close>, \<open>loop_finish\<close>) and what \<open>Watcher.Next\<close> returns, modelled from
    spec 4.2 and 4.3 as one actor that takes a change or a request and then responds;
    the run tests \<open>TestRun\<close>, \<open>TestRunStop\<close>, \<open>TestWatcherStop\<close> and
    \<open>TestWatcherStopBecauseStoreManagerError\<close> with \<open>getNext\<close> and \<open>checkNext\<close>.
  \<^item> \<open>LoopStream\<close>: the same loop over an unbounded input (\<open>run_loop\<close>, a
    \<open>partial_function (option)\<close> over a stream of \<open>loop_event\<close>s: a change, a request,
    a new watcher, the stop signal, and what a test does to the backing meanwhile:
    \<open>updateEntity\<close>, \<open>deleteEntity\<close>, \<open>setFetchError\<close>) and \<open>Run\<close> (\<open>NewStoreManager\<close>,
    then the loop); \<open>loop_events\<close> runs the same turns over a finite input. An
    outer \<open>None\<close> is not returning, an inner \<open>None\<close> a panic.
  \<^item> \<open>Revival\<close>: the invariant \<open>live_inv\<close>, weaker than \<open>mgr_inv\<close>: reference counts
    are exact for live entries, and a tombstone only needs a positive count. Unlike
    \<open>mgr_inv\<close> it survives an \<open>Update\<close> of an entity that is a tombstone (the backing
    re-adding an entity after deleting it), and \<open>seen\<close>, \<open>leave\<close>, \<open>respond\<close> and
    \<open>handle\<close> keep it.
  \<^item> \<open>LoopSafety\<close>: that loop on the test backing: the loop's state \<open>loop_ok\<close> (alive,
    watched, \<open>live_inv\<close>) is kept by every turn and every edit of the backing;
    \<open>requests_ok\<close> says a request comes from a watcher that exists, as Go's
    \<open>*Watcher\<close> pointer guarantees. \<open>revival_input\<close> runs the re-adding case.
  \<^item> \<open>RespondResults\<close>: the observable store (\<open>store_view\<close>: the latest revision and,
    for each live entity, its creation revision, revision and info) and its abstract
    transition \<open>view_Update\<close>; the changes \<open>respondTestChanges\<close> and the expected
    \<open>respondTestFinalState\<close> and \<open>respondTestFinalRevno\<close> of \<open>TestRespondResults\<close>.
  \<^item> \<open>RespondTest\<close>: \<open>TestRespondResults\<close> itself (\<open>src/state/open.go\<close>, lines 564--652):
    \<open>rt_init\<close>, \<open>rt_requests\<close>, \<open>rt_checks\<close>, \<open>rt_change\<close>, \<open>rt_stop\<close>, \<open>respondResultsRun\<close>
    for one pattern of requests and \<open>TestRespondResults\<close> over the \<open>64 \<times> 64\<close> patterns, on
    the system of theory \<open>System\<close>; the loop invariant \<open>rt_inv\<close> and its preservation by
    each phase of an iteration.
  \<^item> \<open>RespondOrder\<close>: \<open>respond\<close> under any order of the watchers: \<open>seen\<close> of two
    watchers commutes, one watcher's \<open>seen\<close> does not change what another's
    \<open>ChangesSince\<close> reports, hence two turns of \<open>respond\<close> commute and every order gives
    the same manager up to the order of the replies (\<open>same_replies\<close>).
  \<^item> \<open>StateTests\<close>: the fixture of the ZooKeeper-era state suite (\<open>src/unnamed/part_000\<close>:
    \<open>TestingZkAddr\<close>, \<open>SetUpTest\<close>, \<open>TearDownTest\<close>) and \<open>TestInitialize\<close>, run on the
    bootstrap model.
  Every panic of the Go code (a \<open>decRef\<close> below zero, a removal of an entity the view
  lacks, a nil dereference in a test helper) is \<open>None\<close>; every returned error is an
  \<open>Inl\<close> of a sum type.

  \<^bold>\<open>What the theorems show.\<close> For every interleaving of the engine's operations
  whose changes do not re-add a removed entity (\<open>change_ok\<close>, see \<open>Revival\<close>):
  no step fails, reference counts are exact, every waiting client's view equals the
  live entities after \<open>respond\<close>, a watcher behind the store is answered by the next
  \<open>respond\<close>, tombstones are gone once every watcher stopped, the store is well formed
  and \<open>ChangesSince\<close> equals its reference filter. The observable store refines the
  abstract sequence of store changes (watchers only move reference counts and
  tombstones), so the final check of \<open>TestRespondResults\<close> holds for every
  interleaving, and the whole test passes for every pattern of requests and any
  number of watchers: every reply it reads is \<open>true\<close> with at least one change,
  because the views of \<open>respondTestChanges\<close> at different revisions all differ. The
  result of \<open>respond\<close> does not depend on the order of the watchers. The repository's store, manager and run tests, spec scenarios B and C and
  \<open>TestInitialize\<close> are evaluated on the model as lemmas, which validates the model
  against the code's own expectations. The loop ends for good on a backing error. On
  the test backing, over any input whose requests come from existing watchers, with
  any changes, new watchers and backing edits before the stop signal (an entity
  deleted and added again included), \<open>Run\<close> never panics and returns at the stop
  signal with no request left waiting; on the re-adding input the watchers are not
  told the re-added entity (\<open>revival_replies\<close>). The test backing seeds the store
  with exactly its database and mirrors each edit into it. Constraints round-trip
  through \<open>String\<close> and through the database, parsing is idempotent, names each
  constraint once and bounds the counts below \<open>2^63\<close>; rendering and parsing again
  fails exactly on the counts of \<open>2^63\<close> or more. The bootstrap keeps \<open>/initialized\<close>
  an atomic marker, is idempotent on an initialized store, returns a state from
  \<open>Open\<close> only once \<open>/initialized\<close> (and, when the other clients keep the marker
  atomic, the skeleton) exists, leaks connections on its error paths, and can never
  succeed again once a skeleton node exists without the marker.

  \<^bold>\<open>Bounds and fuel.\<close> Every function but one is total and structural (or by \<open>fun\<close>
  with its termination proof), so no fuel is used: every loop of the modelled code
  ranges over a finite list (the store's entries, the watchers, the tokens of an
  argument). The exception is the manager's loop over an unbounded input, which may
  run forever: \<open>run_loop\<close> is a \<open>partial_function (option)\<close> whose \<open>None\<close> is not
  returning, and theory \<open>LoopSafety\<close> proves that, on the test backing, it returns
  at the first stop signal of every input. The only other unbounded waits, \<open>waitForInitialization\<close> and \<open>getNext\<close>, end with a
  timeout; the wait is one step in which the other clients act (\<open>others\<close>). \<open>TestRespondResults\<close> enumerates two
  watchers and six changes; theory \<open>RespondTest\<close> proves it for every pattern and any
  number of watchers by a loop invariant instead of enumeration, and theory
  \<open>System\<close> proves its per-step assertions for any sequence of operations. \<open>ParseFloat\<close> is exact over the
  rationals: the round-trip theorem of \<open>mem\<close> is stated below \<open>2^53\<close>, where a
  \<open>float64\<close> is exact.

  \<^bold>\<open>Not modelled.\<close> The goroutines, channels and tomb of the run loop as such: the
  loop is one actor and a test's calls are served in program order, which is the only
  order the run tests can observe (a backing send blocks until the loop receives it;
  \<open>getNext\<close> waits for one reply or times out). Go's unspecified iteration order over
  the \<open>waiting\<close> map is not modelled as such: \<open>respond\<close> takes the watchers in ascending
  order, which theory \<open>RespondOrder\<close> shows loses nothing. The iteration order over the
  test backing's entities (\<open>GetAll\<close> takes them in insertion order; the tests compare
  deltas as sets). Rounding of \<open>float64\<close>: \<open>ParseFloat\<close> is exact over the rationals.
  \<open>TrimSpace\<close> trims ASCII whitespace only (Go's also trims Unicode spaces); no
  theorem depends on a non-ASCII argument.
  \<open>src/state/api/params/internal.go\<close> declares API parameter types (structs of tags,
  results and errors) with no behaviour, which no modelled code uses.
  \<open>src/unnamed/part_000\<close> beyond its fixture and \<open>TestInitialize\<close>: the tests of the
  ZooKeeper-era \<open>state.State\<close> (charms, machines, services, units, assignments,
  ports), whose implementation is not among the sources and whose entity CRUD the
  specification puts out of scope.
\<close>

end
